(* ===== verification/Prelude.thy ===== *)
theory Prelude
  imports Complex_Main "HOL-Library.Word" "HOL-Library.Multiset"
begin

text \<open>
  Shared vocabulary of the development: the machine integer types of the C++ sources, the
  error values that stand for its exceptions and undefined operations, little-endian
  encodings of integers in memory, byte-addressed memories, and the loop combinator
  \<open>scan_loop\<close> in which every B-tree cursor loop of the library is written.
\<close>

unbundle bit_operations_syntax

named_theorems store_laws \<open>laws of byte-addressed memory\<close>
named_theorems word_to_nat \<open>reading word comparisons and conversions as natural numbers\<close>

type_synonym u8 = "8 word"
type_synonym u16 = "16 word"
type_synonym u32 = "32 word"
type_synonym u64 = "64 word"
type_synonym byte = "8 word"
type_synonym memory = "nat \<Rightarrow> byte"

text \<open>
  Every way an operation of the library can end other than by returning: the C++
  exceptions it throws, and the operations the language leaves undefined (null
  dereference, access past the end of a list, integer division by zero).
\<close>

datatype err =
    Out_of_range
  | Runtime_error
  | Range_error
  | Invalid_argument
  | Null_dereference
  | Index_error
  | Division_by_zero

type_synonym 'a result = "err + 'a"

definition bind_result :: "'a result \<Rightarrow> ('a \<Rightarrow> 'b result) \<Rightarrow> 'b result" where
  "bind_result r f = (case r of Inl e \<Rightarrow> Inl e | Inr x \<Rightarrow> f x)"

lemma bind_result_simps [simp]:
  "bind_result (Inl e) f = Inl e"
  "bind_result (Inr x) f = f x"
  by (simp_all add: bind_result_def)

lemma bind_result_Inr:
  "bind_result r f = Inr y \<longleftrightarrow> (\<exists>x. r = Inr x \<and> f x = Inr y)"
  by (cases r) auto

definition list_get :: "'a list \<Rightarrow> nat \<Rightarrow> 'a result" where
  "list_get xs i = (if i < length xs then Inr (xs ! i) else Inl Index_error)"

lemma list_get_in_range [simp]: "i < length xs \<Longrightarrow> list_get xs i = Inr (xs ! i)"
  by (simp add: list_get_def)

lemma list_get_past_end [simp]: "length xs \<le> i \<Longrightarrow> list_get xs i = Inl Index_error"
  by (simp add: list_get_def)

subsection \<open>Words as natural numbers\<close>

lemma word_less_unat [word_to_nat]: "(a :: 'w::len word) < b \<longleftrightarrow> unat a < unat b"
  by (simp add: word_less_nat_alt)

lemma word_le_unat [word_to_nat]: "(a :: 'w::len word) \<le> b \<longleftrightarrow> unat a \<le> unat b"
  by (simp add: word_le_nat_alt)

lemma unat_u64_bound: "unat (w :: u64) < 18446744073709551616"
  using unsigned_less [of w] by simp

lemma unat_u32_bound: "unat (w :: u32) < 4294967296"
  using unsigned_less [of w] by simp

lemma unat_u16_bound: "unat (w :: u16) < 65536"
  using unsigned_less [of w] by simp

lemma unat_u8_bound: "unat (w :: u8) < 256"
  using unsigned_less [of w] by simp

lemma unat_eq_unat [word_to_nat]: "unat a = unat b \<longleftrightarrow> (a :: 'w::len word) = b"
  by (simp add: word_unat_eq_iff)

lemma unat_max_u64 [simp]: "unat (- 1 :: u64) = 18446744073709551615"
  and unat_max_u32 [simp]: "unat (- 1 :: u32) = 4294967295"
  and unat_max_u16 [simp]: "unat (- 1 :: u16) = 65535"
  and unat_max_u8 [simp]: "unat (- 1 :: u8) = 255"
  by (simp_all add: unsigned_minus_1_eq_mask mask_eq_exp_minus_1)

lemma unat_inc: "w \<noteq> (- 1 :: 'w::len word) \<Longrightarrow> unat (w + 1) = Suc (unat w)"
  by (metis add.commute add.right_inverse add_diff_cancel_right' diff_0 unatSuc)

lemma unat_dec: "w \<noteq> (0 :: 'w::len word) \<Longrightarrow> unat (w - 1) = unat w - 1"
  by (simp add: unat_minus_one)

lemma unat_ucast_u32_u64 [simp]: "unat (ucast (w :: u32) :: u64) = unat w"
  using unat_u32_bound [of w] by (simp add: unsigned_ucast_eq take_bit_nat_eq_self)

lemma unat_ucast_u16_u32 [simp]: "unat (ucast (w :: u16) :: u32) = unat w"
  using unat_u16_bound [of w] by (simp add: unsigned_ucast_eq take_bit_nat_eq_self)

lemma ucast_u16_u32_eq [simp]: "(ucast a :: u32) = ucast b \<longleftrightarrow> (a :: u16) = b"
  by (simp flip: unat_eq_unat)

lemma unat_ucast_u64_u32: "unat (ucast (w :: u64) :: u32) = unat w mod 4294967296"
  by (simp add: unsigned_ucast_eq take_bit_eq_mod)

lemma unat_ucast_u32_u16: "unat (ucast (w :: u32) :: u16) = unat w mod 65536"
  by (simp add: unsigned_ucast_eq take_bit_eq_mod)

lemma sint_u64_small: "unat (w :: u64) < 2 ^ 63 \<Longrightarrow> sint w = int (unat w)"
proof -
  assume "unat w < 2 ^ 63"
  then have "int (unat w) < int (2 ^ 63)" by (simp only: of_nat_less_iff)
  then have "signed_take_bit 63 (uint w) = uint w" 
    using order_trans [of "- (2 ^ 63)" 0 "uint w"] by (intro signed_take_bit_int_eq_self) simp_all
  then show ?thesis by (subst sint_uint) simp
qed

text \<open>Rounding down to a page.\<close>

lemma unat_page_mask: "unat (x AND - 4096 :: u64) = unat x div 4096 * 4096"
proof -
  have "NOT (mask 12) = (- 4096 :: u64)" by (simp add: mask_eq_exp_minus_1)
  then have m: "(- 4096 :: u64) = NOT (mask 12)" by (rule sym)
  have e: "x AND NOT (mask 12) = push_bit 12 (drop_bit 12 x)"
    by (rule bit_word_eqI) (auto simp: bit_simps)
  have "unat x div 4096 * 4096 < 18446744073709551616"
    using unat_u64_bound [of x] by (meson div_times_less_eq_dividend le_less_trans)
  then show ?thesis
    unfolding m e by (simp add: push_bit_eq_mult drop_bit_eq_div unat_word_ariths unat_div_distrib)
qed

text \<open>
  A pair of digits below \<open>M\<close> is ordered lexicographically by the number the digits
  spell in base \<open>M\<close>.
\<close>

lemma digits_less:
  assumes "b < M" and "d < (M::nat)"
  shows "a * M + b < c * M + d \<longleftrightarrow> a < c \<or> a = c \<and> b < d"
proof -
  have shift: "u * M + M \<le> v * M" if "u < v" for u v
    using mult_le_mono1 [of "Suc u" v M] that by simp
  show ?thesis
    using assms shift [of a c] shift [of c a] by (cases a c rule: linorder_cases) auto
qed

lemma digits_eq:
  assumes "b < M" and "d < (M::nat)"
  shows "a * M + b = c * M + d \<longleftrightarrow> a = c \<and> b = d"
  using digits_less [OF assms, of a c] digits_less [OF assms(2,1), of c a] by auto

subsection \<open>Little-endian integers\<close>

primrec le_bytes :: "nat \<Rightarrow> nat \<Rightarrow> byte list" where
  "le_bytes 0 n = []"
| "le_bytes (Suc w) n = word_of_nat n # le_bytes w (n div 256)"

primrec le_nat :: "byte list \<Rightarrow> nat" where
  "le_nat [] = 0"
| "le_nat (b # bs) = unat b + 256 * le_nat bs"

lemma length_le_bytes [simp]: "length (le_bytes w n) = w"
  by (induction w arbitrary: n) auto

lemma le_nat_le_bytes: "le_nat (le_bytes w n) = n mod 256 ^ w"
proof (induction w arbitrary: n)
  case (Suc w)
  have "n mod (256 * 256 ^ w) = 256 * (n div 256 mod 256 ^ w) + n mod 256"
    by (rule mod_mult2_eq)
  then show ?case by (simp add: Suc.IH unat_of_nat)
qed simp

lemma le_nat_bound: "le_nat bs < 256 ^ length bs"
proof (induction bs)
  case (Cons b bs)
  then show ?case using unat_u8_bound [of b] by simp
qed simp

subsection \<open>Byte-addressed memory\<close>

definition mem_load :: "memory \<Rightarrow> nat \<Rightarrow> nat \<Rightarrow> byte list" where
  "mem_load m off n = map m [off ..< off + n]"

definition mem_store :: "memory \<Rightarrow> nat \<Rightarrow> byte list \<Rightarrow> memory" where
  "mem_store m off bs =
     (\<lambda>a. if off \<le> a \<and> a < off + length bs then bs ! (a - off) else m a)"

lemma length_mem_load [simp]: "length (mem_load m off n) = n"
  by (simp add: mem_load_def)

lemma mem_load_0 [simp]: "mem_load m off 0 = []"
  by (simp add: mem_load_def)

lemma mem_store_Nil [simp, store_laws]: "mem_store m off [] = m"
  by (auto simp: mem_store_def fun_eq_iff)

lemma mem_load_add: "mem_load m off (a + b) = mem_load m off a @ mem_load m (off + a) b"
proof -
  have "[off ..< off + (a + b)] = [off ..< off + a] @ [off + a ..< off + a + b]"
    using upt_add_eq_append [of off "off + a" b] by (simp add: add.assoc)
  then show ?thesis by (simp add: mem_load_def)
qed

lemma mem_load_Suc: "mem_load m off (Suc n) = m off # mem_load m (Suc off) n"
  using mem_load_add [of m off 1 n] by (simp add: mem_load_def)

lemma mem_load_store_same [store_laws]:
  "n = length bs \<Longrightarrow> mem_load (mem_store m off bs) off n = bs"
  by (rule nth_equalityI) (auto simp: mem_load_def mem_store_def)

lemma mem_load_store_disjoint [store_laws]:
  "a + n \<le> off \<or> off + length bs \<le> a \<Longrightarrow> mem_load (mem_store m off bs) a n = mem_load m a n"
  by (auto simp: mem_load_def mem_store_def)

lemma mem_load_cong:
  "(\<And>i. off \<le> i \<Longrightarrow> i < off + n \<Longrightarrow> m i = m' i) \<Longrightarrow> mem_load m off n = mem_load m' off n"
  by (simp add: mem_load_def)

lemma mem_store_append:
  "mem_store (mem_store m off xs) (off + length xs) ys = mem_store m off (xs @ ys)"
  by (auto simp: mem_store_def fun_eq_iff nth_append)

lemma mem_load_append:
  "mem_load m off (length xs + n) = xs @ ys \<longleftrightarrow>
     mem_load m off (length xs) = xs \<and> mem_load m (off + length xs) n = ys"
  by (auto simp: mem_load_add append_eq_append_conv)

subsection \<open>Cursor loops\<close>

text \<open>
  The library walks a B-tree in one shape only:
  \<^verbatim>\<open>while (tree->findNext(cursor)) { if (stop) break; body; cursor = next(cursor); }\<close>
  \<open>scan_loop\<close> is that loop, with the call \<open>findNext\<close> (whose result is the cursor it
  writes back, \<open>None\<close> for a false return), the break condition, the body on an
  accumulator and the advance as arguments.  It may run forever, so its value is an
  option and \<open>None\<close> is divergence.
\<close>

partial_function (option) scan_loop ::
  "('e \<Rightarrow> 'e option) \<Rightarrow> ('e \<Rightarrow> 'a \<Rightarrow> bool) \<Rightarrow> ('e \<Rightarrow> 'a \<Rightarrow> 'a) \<Rightarrow> ('e \<Rightarrow> 'e) \<Rightarrow>
   'e \<Rightarrow> 'a \<Rightarrow> 'a option" where
  "scan_loop findNext stop body advance cursor acc =
     (case findNext cursor of
        None \<Rightarrow> Some acc
      | Some e \<Rightarrow> (if stop e acc then Some acc
                 else scan_loop findNext stop body advance (advance e) (body e acc)))"

lemma scan_loop_diverges:
  assumes step: "\<And>c acc. I c \<Longrightarrow> \<exists>e. findNext c = Some e \<and> \<not> stop e acc \<and> I (advance e)"
    and start: "I c"
  shows "scan_loop findNext stop body advance c acc = None"
proof (rule ccontr)
  assume "scan_loop findNext stop body advance c acc \<noteq> None"
  then obtain r where ret: "scan_loop findNext stop body advance c acc = Some r" by auto
  have "findNext = findNext \<and> stop = stop \<and> advance = advance \<longrightarrow> \<not> I c"
  proof (rule scan_loop.raw_induct
      [where P = "\<lambda>fn st bd ad c acc r. fn = findNext \<and> st = stop \<and> ad = advance \<longrightarrow> \<not> I c", OF _ ret])
    fix loop fn st bd ad c acc r
    assume IH: "\<And>fn st bd ad c acc r. loop fn st bd ad c acc = Some r \<Longrightarrow>
        fn = findNext \<and> st = stop \<and> ad = advance \<longrightarrow> \<not> I c"
      and ret: "(case fn c of None \<Rightarrow> Some acc
        | Some e \<Rightarrow> if st e acc then Some acc else loop fn st bd ad (ad e) (bd e acc)) = Some r"
    show "fn = findNext \<and> st = stop \<and> ad = advance \<longrightarrow> \<not> I c"
    proof (intro impI notI)
      assume eqs: "fn = findNext \<and> st = stop \<and> ad = advance" and "I c"
      with step [of c acc] obtain e where "findNext c = Some e" "\<not> stop e acc" "I (advance e)" by auto
      with eqs ret IH [of fn st bd ad "ad e" "bd e acc" r] show False by simp
    qed
  qed
  with start show False by simp
qed

text \<open>The same loop over the list of the elements it is going to meet.\<close>

fun run_stop :: "('e \<Rightarrow> 'a \<Rightarrow> bool) \<Rightarrow> ('e \<Rightarrow> 'a \<Rightarrow> 'a) \<Rightarrow> 'e list \<Rightarrow> 'a \<Rightarrow> 'a" where
  "run_stop stop body [] acc = acc"
| "run_stop stop body (e # es) acc =
     (if stop e acc then acc else run_stop stop body es (body e acc))"

lemma run_stop_collect:
  "run_stop (\<lambda>e _. P e) (\<lambda>e acc. if Q e then acc @ [g e] else acc) es acc =
     acc @ map g (filter Q (takeWhile (\<lambda>e. \<not> P e) es))"
  by (induction es arbitrary: acc) auto

lemma run_stop_fold:
  "run_stop (\<lambda>e _. P e) (\<lambda>e acc. if Q e then f e acc else acc) es acc =
     fold f (filter Q (takeWhile (\<lambda>e. \<not> P e) es)) acc"
  by (induction es arbitrary: acc) auto

lemma run_stop_invariant:
  assumes "I acc" and "\<And>e acc. e \<in> set es \<Longrightarrow> \<not> stop e acc \<Longrightarrow> I acc \<Longrightarrow> I (body e acc)"
  shows "I (run_stop stop body es acc)"
  using assms by (induction es arbitrary: acc) auto

lemma sorted_map_mono:
  fixes f :: "'e \<Rightarrow> 'k::linorder" and g :: "'e \<Rightarrow> 'l::linorder"
  assumes "sorted (map f xs)" and "\<And>a b. f a \<le> f b \<Longrightarrow> g a \<le> g b"
  shows "sorted (map g xs)"
  using assms(1) by (induction xs) (auto intro: assms(2))

lemma takeWhile_sorted_filter:
  fixes f :: "'e \<Rightarrow> 'k::linorder"
  assumes "sorted (map f es)"
    and "\<And>x y. x \<in> set es \<Longrightarrow> y \<in> set es \<Longrightarrow> f x \<le> f y \<Longrightarrow> P y \<Longrightarrow> P x"
  shows "takeWhile P es = filter P es"
  using assms
proof (induction es)
  case (Cons e es)
  show ?case
  proof (cases "P e")
    case True
    have "takeWhile P es = filter P es"
    proof (rule Cons.IH)
      show "sorted (map f es)" using Cons.prems(1) by simp
      show "P x" if "x \<in> set es" "y \<in> set es" "f x \<le> f y" "P y" for x y
        using Cons.prems(2) [of x y] that by simp
    qed
    with True show ?thesis by simp
  next
    case False
    have "\<not> P x" if "x \<in> set es" for x
      using Cons.prems(1) Cons.prems(2) [of e x] that False by auto
    then have "filter P es = []" by (simp add: filter_empty_conv)
    with False show ?thesis by simp
  qed
qed simp

subsection \<open>Sets listed in key order\<close>

definition listed_by :: "('e \<Rightarrow> nat) \<Rightarrow> 'e set \<Rightarrow> 'e list" where
  "listed_by key A = map (inv_into A key) (sorted_list_of_set (key ` A))"

lemma set_listed_by:
  assumes "finite A" and "inj_on key A"
  shows "set (listed_by key A) = A"
  using assms by (simp add: listed_by_def image_image)

lemma map_key_listed_by:
  assumes "finite A"
  shows "map key (listed_by key A) = sorted_list_of_set (key ` A)"
proof -
  have "map (key \<circ> inv_into A key) (sorted_list_of_set (key ` A)) = map id (sorted_list_of_set (key ` A))"
    using assms by (intro map_cong) (auto simp: f_inv_into_f)
  then show ?thesis by (simp add: listed_by_def)
qed

lemma sorted_listed_by: "finite A \<Longrightarrow> sorted (map key (listed_by key A))"
  by (simp add: map_key_listed_by)

lemma distinct_listed_by: "finite A \<Longrightarrow> distinct (listed_by key A)"
  by (metis distinct_map distinct_sorted_list_of_set map_key_listed_by)

lemma listed_by_unique:
  assumes "inj_on key (set xs)" and "sorted (map key xs)" and "distinct xs"
  shows "listed_by key (set xs) = xs"
proof -
  have "sorted_list_of_set (key ` set xs) = map key xs"
    using assms sorted_list_of_set_unique [of "key ` set xs" "map key xs"]
    by (auto simp: distinct_map strict_sorted_iff card_image distinct_card)
  then have "map key (listed_by key (set xs)) = map key xs"
    by (simp add: map_key_listed_by)
  moreover have "set (listed_by key (set xs)) = set xs"
    using assms(1) by (simp add: set_listed_by)
  ultimately show ?thesis
    using assms(1) by (auto intro: map_inj_on)
qed

lemma listed_by_empty [simp]: "listed_by key {} = []"
  by (simp add: listed_by_def)

lemma listed_by_least:
  assumes fin: "finite A" and inj: "inj_on key A" and x: "x \<in> A"
    and least: "\<And>y. y \<in> A \<Longrightarrow> key x \<le> key y"
  shows "listed_by key A = x # listed_by key {y \<in> A. key x < key y}"
proof -
  let ?B = "{y \<in> A. key x < key y}"
  have A: "A = set (x # listed_by key ?B)"
    using assms inj_on_subset [OF inj, of ?B]
    by (auto simp: set_listed_by order_less_le inj_on_def)
  have "sorted (map key (x # listed_by key ?B))"
    using fin inj_on_subset [OF inj, of ?B] by (auto simp: sorted_listed_by set_listed_by)
  moreover have "distinct (x # listed_by key ?B)"
    using fin inj_on_subset [OF inj, of ?B] by (auto simp: distinct_listed_by set_listed_by)
  ultimately have "listed_by key (set (x # listed_by key ?B)) = x # listed_by key ?B"
    using inj A by (intro listed_by_unique) auto
  then show ?thesis using A by simp
qed

end
