(* ===== verification/Transaction.thy ===== *)
theory Transaction
  imports Prelude
begin

text \<open>
  What the library takes from outside itself to store and run transactions, as parameters:
  the memory-mapped file handle of libexcessive (\<open>mmap_ops\<close>, \<open>mmap_contract\<close>) and the
  application's \<open>Transaction\<close> subclass (\<^verbatim>\<open>src/blockchain/Transaction.h\<close>: \<open>tx_ops\<close>,
  \<open>tx_codec\<close>).  Scores are C++ \<open>float\<close> values, modelled with their special values.
\<close>

subsection \<open>Memory-mapped files\<close>

text \<open>
  \<open>mm_seek\<close> is an absolute \<open>seek\<close>, \<open>mm_tell\<close> is \<open>seek(0, SEEK_CUR)\<close>,
  \<open>mm_peek\<close>/\<open>mm_poke\<close> are loads and stores through \<open>directPointer\<close>,
  \<open>mm_read\<close>/\<open>mm_write\<close> are the sequential accesses at the cursor; \<open>mm_read\<close> gives the
  bytes it could read.
\<close>

record 'm mmap_ops =
  mm_seek :: "u64 \<Rightarrow> 'm \<Rightarrow> 'm"
  mm_tell :: "'m \<Rightarrow> u64"
  mm_peek :: "u64 \<Rightarrow> nat \<Rightarrow> 'm \<Rightarrow> byte list"
  mm_poke :: "u64 \<Rightarrow> byte list \<Rightarrow> 'm \<Rightarrow> 'm"
  mm_read :: "nat \<Rightarrow> 'm \<Rightarrow> byte list \<times> 'm"
  mm_write :: "byte list \<Rightarrow> 'm \<Rightarrow> 'm"

text \<open>
  The handle as the memory it maps, its cursor and the number of mapped bytes.  Accesses
  inside the mapping behave as loads and stores; nothing is said about accesses outside.
\<close>

record 'm mmap_view =
  vw_mem :: "'m \<Rightarrow> memory"
  vw_pos :: "'m \<Rightarrow> nat"
  vw_cap :: "'m \<Rightarrow> nat"

definition mmap_contract :: "'m mmap_ops \<Rightarrow> 'm mmap_view \<Rightarrow> bool" where
  "mmap_contract M V \<longleftrightarrow>
     (\<forall>off m. vw_mem V (mm_seek M off m) = vw_mem V m \<and> vw_pos V (mm_seek M off m) = unat off \<and>
              vw_cap V (mm_seek M off m) = vw_cap V m) \<and>
     (\<forall>m. vw_pos V m < 2 ^ 64 \<longrightarrow> unat (mm_tell M m) = vw_pos V m) \<and>
     (\<forall>off n m. unat off + n \<le> vw_cap V m \<longrightarrow>
        mm_peek M off n m = mem_load (vw_mem V m) (unat off) n) \<and>
     (\<forall>off bs m. unat off + length bs \<le> vw_cap V m \<longrightarrow>
        vw_mem V (mm_poke M off bs m) = mem_store (vw_mem V m) (unat off) bs \<and>
        vw_pos V (mm_poke M off bs m) = vw_pos V m \<and> vw_cap V (mm_poke M off bs m) = vw_cap V m) \<and>
     (\<forall>n m. vw_pos V m + n \<le> vw_cap V m \<longrightarrow>
        fst (mm_read M n m) = mem_load (vw_mem V m) (vw_pos V m) n \<and>
        vw_mem V (snd (mm_read M n m)) = vw_mem V m \<and>
        vw_pos V (snd (mm_read M n m)) = vw_pos V m + n \<and>
        vw_cap V (snd (mm_read M n m)) = vw_cap V m) \<and>
     (\<forall>bs m. vw_pos V m + length bs \<le> vw_cap V m \<longrightarrow>
        vw_mem V (mm_write M bs m) = mem_store (vw_mem V m) (vw_pos V m) bs \<and>
        vw_pos V (mm_write M bs m) = vw_pos V m + length bs \<and>
        vw_cap V (mm_write M bs m) = vw_cap V m)"

lemma mmap_contractD:
  assumes "mmap_contract M V"
  shows mmap_seek: "\<And>off m. vw_mem V (mm_seek M off m) = vw_mem V m"
      "\<And>off m. vw_pos V (mm_seek M off m) = unat off"
      "\<And>off m. vw_cap V (mm_seek M off m) = vw_cap V m"
    and mmap_tell: "\<And>m. vw_pos V m < 2 ^ 64 \<Longrightarrow> unat (mm_tell M m) = vw_pos V m"
    and mmap_peek: "\<And>off n m. unat off + n \<le> vw_cap V m \<Longrightarrow>
        mm_peek M off n m = mem_load (vw_mem V m) (unat off) n"
    and mmap_poke: "\<And>off bs m. unat off + length bs \<le> vw_cap V m \<Longrightarrow>
        vw_mem V (mm_poke M off bs m) = mem_store (vw_mem V m) (unat off) bs"
      "\<And>off bs m. unat off + length bs \<le> vw_cap V m \<Longrightarrow> vw_pos V (mm_poke M off bs m) = vw_pos V m"
      "\<And>off bs m. unat off + length bs \<le> vw_cap V m \<Longrightarrow> vw_cap V (mm_poke M off bs m) = vw_cap V m"
    and mmap_read: "\<And>n m. vw_pos V m + n \<le> vw_cap V m \<Longrightarrow>
        fst (mm_read M n m) = mem_load (vw_mem V m) (vw_pos V m) n"
      "\<And>n m. vw_pos V m + n \<le> vw_cap V m \<Longrightarrow> vw_mem V (snd (mm_read M n m)) = vw_mem V m"
      "\<And>n m. vw_pos V m + n \<le> vw_cap V m \<Longrightarrow> vw_pos V (snd (mm_read M n m)) = vw_pos V m + n"
      "\<And>n m. vw_pos V m + n \<le> vw_cap V m \<Longrightarrow> vw_cap V (snd (mm_read M n m)) = vw_cap V m"
    and mmap_write: "\<And>bs m. vw_pos V m + length bs \<le> vw_cap V m \<Longrightarrow>
        vw_mem V (mm_write M bs m) = mem_store (vw_mem V m) (vw_pos V m) bs"
      "\<And>bs m. vw_pos V m + length bs \<le> vw_cap V m \<Longrightarrow> vw_pos V (mm_write M bs m) = vw_pos V m + length bs"
      "\<And>bs m. vw_pos V m + length bs \<le> vw_cap V m \<Longrightarrow> vw_cap V (mm_write M bs m) = vw_cap V m"
  using assms by (simp_all add: mmap_contract_def)

text \<open>A plain memory with a cursor satisfies the contract.\<close>

record flat_file =
  fl_mem :: memory
  fl_pos :: nat
  fl_cap :: nat

definition flat_mmap :: "flat_file mmap_ops" where
  "flat_mmap =
     \<lparr>mm_seek = (\<lambda>off m. m\<lparr>fl_pos := unat off\<rparr>),
      mm_tell = (\<lambda>m. word_of_nat (fl_pos m)),
      mm_peek = (\<lambda>off n m. mem_load (fl_mem m) (unat off) n),
      mm_poke = (\<lambda>off bs m. m\<lparr>fl_mem := mem_store (fl_mem m) (unat off) bs\<rparr>),
      mm_read = (\<lambda>n m. let k = min n (fl_cap m - fl_pos m)
                       in (mem_load (fl_mem m) (fl_pos m) k, m\<lparr>fl_pos := fl_pos m + k\<rparr>)),
      mm_write = (\<lambda>bs m. m\<lparr>fl_mem := mem_store (fl_mem m) (fl_pos m) bs,
                           fl_pos := fl_pos m + length bs\<rparr>)\<rparr>"

definition flat_view :: "flat_file mmap_view" where
  "flat_view = \<lparr>vw_mem = fl_mem, vw_pos = fl_pos, vw_cap = fl_cap\<rparr>"

lemma flat_view_simps [simp]:
  "vw_mem flat_view = fl_mem" "vw_pos flat_view = fl_pos" "vw_cap flat_view = fl_cap"
  by (simp_all add: flat_view_def)

lemma flat_mmap_contract: "mmap_contract flat_mmap flat_view"
  by (auto simp: mmap_contract_def flat_mmap_def flat_view_def unat_of_nat Let_def)

subsection \<open>Scores\<close>

datatype flt = NaN | MInf | Fin real | PInf

fun flt_less :: "flt \<Rightarrow> flt \<Rightarrow> bool" where
  "flt_less NaN _ = False"
| "flt_less _ NaN = False"
| "flt_less PInf _ = False"
| "flt_less _ MInf = False"
| "flt_less MInf _ = True"
| "flt_less _ PInf = True"
| "flt_less (Fin a) (Fin b) = (a < b)"

definition flt_nonneg :: "flt \<Rightarrow> bool" where
  "flt_nonneg v = (case v of NaN \<Rightarrow> False | MInf \<Rightarrow> False | Fin a \<Rightarrow> 0 \<le> a | PInf \<Rightarrow> True)"

lemma flt_less_irrefl: "\<not> flt_less v v"
  by (cases v) auto

lemma flt_less_trans: "flt_less u v \<Longrightarrow> flt_less v w \<Longrightarrow> flt_less u w"
  by (cases u; cases v; cases w) auto

lemma flt_less_le_trans: "flt_less u v \<Longrightarrow> \<not> flt_less w v \<Longrightarrow> w \<noteq> NaN \<Longrightarrow> flt_less u w"
  by (cases u; cases v; cases w) auto

subsection \<open>Transactions\<close>

text \<open>
  The virtual functions of \<open>Transaction\<close>, on a type \<open>'tx\<close> of transactions, a type
  \<open>'s\<close> of state overrides and a type \<open>'m\<close> of mapped files.  \<open>apply\<close> returns its success
  flag with the override it has mutated.
\<close>

record ('tx, 's, 'm) tx_ops =
  tx_verify :: "'tx \<Rightarrow> 's \<Rightarrow> bool"
  tx_apply :: "'tx \<Rightarrow> 's \<Rightarrow> bool \<times> 's"
  tx_computeValue :: "'tx \<Rightarrow> 's \<Rightarrow> flt"
  tx_write :: "'tx \<Rightarrow> 'm \<Rightarrow> 'm"
  tx_size :: "'tx \<Rightarrow> nat"
  tx_getTypeId :: "'tx \<Rightarrow> u8"
  tx_getTimestamp :: "'tx \<Rightarrow> u64"

type_synonym ('m, 'tx) factory = "'m \<Rightarrow> 'tx option \<times> 'm"

text \<open>The loops \<open>for (tx : txs) tx->apply(state.mut())\<close>, which ignore the success flag.\<close>

definition apply_all :: "('tx, 's, 'm) tx_ops \<Rightarrow> 'tx list \<Rightarrow> 's \<Rightarrow> 's" where
  "apply_all T txs s = fold (\<lambda>tx s. snd (tx_apply T tx s)) txs s"

lemma apply_all_simps [simp]:
  "apply_all T [] s = s"
  "apply_all T (tx # txs) s = apply_all T txs (snd (tx_apply T tx s))"
  "apply_all T (txs @ txs') s = apply_all T txs' (apply_all T txs s)"
  by (simp_all add: apply_all_def)

text \<open>
  The serialization rules of \<^verbatim>\<open>Transaction.h\<close> and \<^verbatim>\<open>TransactionTypeRegistry.h\<close>: a
  transaction writes itself as \<open>enc x\<close>, at the cursor, starting with its type id and
  taking \<open>size()\<close> bytes; the factory registered under that id rebuilds it from the bytes
  after the id.
\<close>

definition tx_codec ::
  "('tx, 's, 'm) tx_ops \<Rightarrow> (u8 \<rightharpoonup> ('m, 'tx) factory) \<Rightarrow> 'm mmap_view \<Rightarrow> ('tx \<Rightarrow> byte list) \<Rightarrow> bool" where
  "tx_codec T reg V enc \<longleftrightarrow>
     (\<forall>x. \<exists>body. enc x = tx_getTypeId T x # body) \<and>
     (\<forall>x. tx_size T x = length (enc x)) \<and>
     (\<forall>x m. vw_pos V m + length (enc x) \<le> vw_cap V m \<longrightarrow>
        vw_mem V (tx_write T x m) = mem_store (vw_mem V m) (vw_pos V m) (enc x) \<and>
        vw_pos V (tx_write T x m) = vw_pos V m + length (enc x) \<and>
        vw_cap V (tx_write T x m) = vw_cap V m) \<and>
     (\<forall>x. \<exists>f. reg (tx_getTypeId T x) = Some f \<and>
        (\<forall>m. vw_pos V m + length (tl (enc x)) \<le> vw_cap V m \<and>
             mem_load (vw_mem V m) (vw_pos V m) (length (tl (enc x))) = tl (enc x) \<longrightarrow>
             fst (f m) = Some x \<and> vw_mem V (snd (f m)) = vw_mem V m \<and>
             vw_pos V (snd (f m)) = vw_pos V m + length (tl (enc x)) \<and>
             vw_cap V (snd (f m)) = vw_cap V m))"

lemma tx_codecD:
  assumes "tx_codec T reg V enc"
  shows codec_head: "enc x = tx_getTypeId T x # tl (enc x)"
    and codec_size: "tx_size T x = length (enc x)"
    and codec_write: "vw_pos V m + length (enc x) \<le> vw_cap V m \<Longrightarrow>
        vw_mem V (tx_write T x m) = mem_store (vw_mem V m) (vw_pos V m) (enc x) \<and>
        vw_pos V (tx_write T x m) = vw_pos V m + length (enc x) \<and>
        vw_cap V (tx_write T x m) = vw_cap V m"
    and codec_factory: "\<exists>f. reg (tx_getTypeId T x) = Some f \<and>
        (\<forall>m. vw_pos V m + length (tl (enc x)) \<le> vw_cap V m \<and>
             mem_load (vw_mem V m) (vw_pos V m) (length (tl (enc x))) = tl (enc x) \<longrightarrow>
             fst (f m) = Some x \<and> vw_mem V (snd (f m)) = vw_mem V m \<and>
             vw_pos V (snd (f m)) = vw_pos V m + length (tl (enc x)) \<and>
             vw_cap V (snd (f m)) = vw_cap V m)"
proof -
  note laws = assms [unfolded tx_codec_def]
  show "enc x = tx_getTypeId T x # tl (enc x)"
    using laws [THEN conjunct1, THEN spec, of x] by auto
  show "tx_size T x = length (enc x)" using laws by simp
  show "vw_pos V m + length (enc x) \<le> vw_cap V m \<Longrightarrow>
      vw_mem V (tx_write T x m) = mem_store (vw_mem V m) (vw_pos V m) (enc x) \<and>
      vw_pos V (tx_write T x m) = vw_pos V m + length (enc x) \<and>
      vw_cap V (tx_write T x m) = vw_cap V m" using laws by simp
  show "\<exists>f. reg (tx_getTypeId T x) = Some f \<and>
      (\<forall>m. vw_pos V m + length (tl (enc x)) \<le> vw_cap V m \<and>
           mem_load (vw_mem V m) (vw_pos V m) (length (tl (enc x))) = tl (enc x) \<longrightarrow>
           fst (f m) = Some x \<and> vw_mem V (snd (f m)) = vw_mem V m \<and>
           vw_pos V (snd (f m)) = vw_pos V m + length (tl (enc x)) \<and>
           vw_cap V (snd (f m)) = vw_cap V m)"
    using laws [THEN conjunct2, THEN conjunct2, THEN conjunct2] by (rule spec)
qed

text \<open>Writing a list of transactions one after the other.\<close>

definition write_all :: "('tx, 's, 'm) tx_ops \<Rightarrow> 'tx list \<Rightarrow> 'm \<Rightarrow> 'm" where
  "write_all T txs m = fold (tx_write T) txs m"

definition enc_all :: "('tx \<Rightarrow> byte list) \<Rightarrow> 'tx list \<Rightarrow> byte list" where
  "enc_all enc txs = concat (map enc txs)"

lemma enc_all_simps [simp]:
  "enc_all enc [] = []" "enc_all enc (x # xs) = enc x @ enc_all enc xs"
  by (simp_all add: enc_all_def)

lemma write_all_codec:
  assumes "tx_codec T reg V enc"
    and "vw_pos V m + length (enc_all enc txs) \<le> vw_cap V m"
  shows "vw_mem V (write_all T txs m) = mem_store (vw_mem V m) (vw_pos V m) (enc_all enc txs) \<and>
    vw_pos V (write_all T txs m) = vw_pos V m + length (enc_all enc txs) \<and>
    vw_cap V (write_all T txs m) = vw_cap V m"
  using assms(2)
proof (induction txs arbitrary: m)
  case (Cons x txs)
  have w: "vw_mem V (tx_write T x m) = mem_store (vw_mem V m) (vw_pos V m) (enc x)"
    "vw_pos V (tx_write T x m) = vw_pos V m + length (enc x)"
    "vw_cap V (tx_write T x m) = vw_cap V m"
    using codec_write [OF assms(1), of m x] Cons.prems by auto
  then show ?case
    using Cons.IH [of "tx_write T x m"] Cons.prems
    by (simp add: write_all_def mem_store_append add.assoc)
qed (simp add: write_all_def)

subsection \<open>A concrete transaction type for examples\<close>

text \<open>One-byte transactions with type id 1 over a counter, stored as two bytes.\<close>

definition byte_tx :: "(byte, nat, flat_file) tx_ops" where
  "byte_tx =
     \<lparr>tx_verify = (\<lambda>x s. x \<noteq> 0),
      tx_apply = (\<lambda>x s. (True, s + unat x)),
      tx_computeValue = (\<lambda>x s. Fin (real (unat x))),
      tx_write = (\<lambda>x. mm_write flat_mmap [1, x]),
      tx_size = (\<lambda>x. 2),
      tx_getTypeId = (\<lambda>x. 1),
      tx_getTimestamp = (\<lambda>x. ucast x)\<rparr>"

definition byte_factory :: "(flat_file, byte) factory" where
  "byte_factory m =
     (case mm_read flat_mmap 1 m of (bs, m') \<Rightarrow> (case bs of [b] \<Rightarrow> Some b | _ \<Rightarrow> None, m'))"

lemma byte_tx_codec: "tx_codec byte_tx [1 \<mapsto> byte_factory] flat_view (\<lambda>x. [1, x])"
  by (auto simp: tx_codec_def byte_tx_def flat_view_def flat_mmap_def byte_factory_def Let_def
      mem_load_def min_def)

end
