(* ===== verification/TransactionTypeRegistry.thy ===== *)
theory TransactionTypeRegistry
  imports Transaction
begin

text \<open>
  \<^verbatim>\<open>src/blockchain/TransactionTypeRegistry.{h,cpp}\<close>: the map from one-byte type ids to
  deserialization factories, and \<open>read\<close>, which dispatches on the type byte at the cursor of
  a mapped file.  A null \<open>sp\<close> is \<open>None\<close>.
\<close>

record ('m, 'tx) TransactionTypeRegistry =
  factories :: "u8 \<rightharpoonup> ('m, 'tx) factory"

definition new_TransactionTypeRegistry :: "('m, 'tx) TransactionTypeRegistry" where
  "new_TransactionTypeRegistry = \<lparr>factories = Map.empty\<rparr>"

definition registerType ::
  "u8 \<Rightarrow> ('m, 'tx) factory \<Rightarrow> ('m, 'tx) TransactionTypeRegistry \<Rightarrow> ('m, 'tx) TransactionTypeRegistry" where
  "registerType typeId f reg = reg\<lparr>factories := (factories reg)(typeId \<mapsto> f)\<rparr>"

definition getFactory ::
  "('m, 'tx) TransactionTypeRegistry \<Rightarrow> u8 \<Rightarrow> ('m, 'tx) factory option" where
  "getFactory reg typeId = factories reg typeId"

definition registry_read ::
  "'m mmap_ops \<Rightarrow> ('m, 'tx) TransactionTypeRegistry \<Rightarrow> 'm \<Rightarrow> ('tx option \<times> 'm) result" where
  "registry_read M reg src =
     (case mm_read M 1 src of (bs, src') \<Rightarrow>
        if length bs \<noteq> 1 then Inl Out_of_range
        else (case getFactory reg (hd bs) of
                None \<Rightarrow> Inr (None, src')
              | Some f \<Rightarrow> Inr (f src')))"

lemma getFactory_registerType:
  "getFactory (registerType typeId f reg) t = (if t = typeId then Some f else getFactory reg t)"
  by (simp add: getFactory_def registerType_def)

text \<open>Reading a stored transaction: the workhorse of every deserialization loop.\<close>

lemma registry_read_stored:
  assumes M: "mmap_contract M V" and T: "tx_codec T (factories reg) V enc"
    and fits: "vw_pos V m + length (enc x) \<le> vw_cap V m"
    and stored: "mem_load (vw_mem V m) (vw_pos V m) (length (enc x)) = enc x"
  shows "\<exists>m'. registry_read M reg m = Inr (Some x, m') \<and> vw_mem V m' = vw_mem V m \<and>
    vw_pos V m' = vw_pos V m + length (enc x) \<and> vw_cap V m' = vw_cap V m"
proof -
  let ?m1 = "snd (mm_read M 1 m)"
  obtain b where enc: "enc x = tx_getTypeId T x # b"
    using codec_head [OF T, of x] by metis
  have parts: "mem_load (vw_mem V m) (vw_pos V m) (Suc 0) = [tx_getTypeId T x]"
    "mem_load (vw_mem V m) (Suc (vw_pos V m)) (length b) = b"
    using stored by (simp_all add: enc mem_load_Suc)
  have "vw_pos V m + 1 \<le> vw_cap V m" using fits by (simp add: enc)
  note rd = mmap_read [OF M this]
  obtain f where f: "factories reg (tx_getTypeId T x) = Some f"
    and run: "\<And>m. vw_pos V m + length b \<le> vw_cap V m \<Longrightarrow>
       mem_load (vw_mem V m) (vw_pos V m) (length b) = b \<Longrightarrow>
       fst (f m) = Some x \<and> vw_mem V (snd (f m)) = vw_mem V m \<and>
       vw_pos V (snd (f m)) = vw_pos V m + length b \<and> vw_cap V (snd (f m)) = vw_cap V m"
    using codec_factory [OF T, of x] by (auto simp: enc)
  have "registry_read M reg m = Inr (f ?m1)"
    using rd(1) by (simp add: registry_read_def case_prod_beta parts(1) getFactory_def f)
  moreover from run [of ?m1] have "fst (f ?m1) = Some x \<and> vw_mem V (snd (f ?m1)) = vw_mem V m \<and>
     vw_pos V (snd (f ?m1)) = vw_pos V m + length (enc x) \<and> vw_cap V (snd (f ?m1)) = vw_cap V m"
    using fits parts(2) rd(2-) by (simp add: enc)
  ultimately show ?thesis by (metis prod.collapse)
qed

text \<open>
  (registry read roundtrip): a transaction that has been written at some position of a
  mapped file and is read back from that position through the registry comes back as the
  same transaction, with the cursor just behind it and the file unchanged.
\<close>

theorem registry_read_roundtrip:
  assumes "mmap_contract M V" and "tx_codec T (factories reg) V enc"
    and "vw_pos V m + length (enc x) \<le> vw_cap V m" and "vw_pos V m < 2 ^ 64"
  shows "\<exists>m'. registry_read M reg (mm_seek M (word_of_nat (vw_pos V m)) (tx_write T x m)) = Inr (Some x, m') \<and>
    vw_mem V m' = vw_mem V (tx_write T x m) \<and> vw_pos V m' = vw_pos V m + tx_size T x"
proof -
  let ?w = "mm_seek M (word_of_nat (vw_pos V m)) (tx_write T x m)"
  note w = codec_write [OF assms(2,3)] and sk = mmap_seek [OF assms(1)]
  have pos: "unat (word_of_nat (vw_pos V m) :: u64) = vw_pos V m"
    using assms(4) by (simp add: unat_of_nat)
  show ?thesis
    using registry_read_stored [OF assms(1,2), of ?w x] w assms(3)
    by (auto simp: pos sk mem_load_store_same codec_size [OF assms(2)])
qed

text \<open>
  (registry read dispatch): the outcome of \<open>read\<close> is decided by the type byte alone:
  at the end of the file it throws, an id registered last with factory \<open>f\<close> runs \<open>f\<close> on the
  rest, and an unknown id gives a null transaction with only the type byte consumed.
\<close>

theorem registry_read_dispatch:
  "registry_read M (registerType typeId f reg) src =
     (case mm_read M 1 src of
        ([b], rest) \<Rightarrow> (if b = typeId then Inr (f rest)
                       else case factories reg b of None \<Rightarrow> Inr (None, rest) | Some g \<Rightarrow> Inr (g rest))
      | _ \<Rightarrow> Inl Out_of_range)"
proof (cases "mm_read M 1 src")
  case (Pair bs rest)
  then show ?thesis
    by (cases bs; cases "tl bs")
      (auto simp: registry_read_def registerType_def getFactory_def)
qed

definition byte_types :: "(flat_file, byte) TransactionTypeRegistry" where
  "byte_types = registerType 1 byte_factory new_TransactionTypeRegistry"

lemma byte_types_codec: "tx_codec byte_tx (factories byte_types) flat_view (\<lambda>x. [1, x])"
  using byte_tx_codec by (simp add: byte_types_def registerType_def new_TransactionTypeRegistry_def)

theorem registry_read_roundtrip_witness:
  "\<exists>m'. registry_read flat_mmap byte_types
          (mm_seek flat_mmap 3 (tx_write byte_tx 7 \<lparr>fl_mem = (\<lambda>_. 0), fl_pos = 3, fl_cap = 100\<rparr>)) =
        Inr (Some 7, m') \<and> fl_pos m' = 5"
  using registry_read_roundtrip
    [OF flat_mmap_contract byte_types_codec, of "\<lparr>fl_mem = (\<lambda>_. 0), fl_pos = 3, fl_cap = 100\<rparr>" 7]
  by (auto simp: byte_tx_def)

end
