(* ===== verification/EpochFile.thy ===== *)
theory EpochFile
  imports TransactionTypeRegistry
begin

text \<open>
  \<^verbatim>\<open>src/storage/EpochFile.{h,cpp}\<close>: one file of the block journal.  The state is the mapped
  file itself: the header fields are loads and stores at their struct offsets, so that the
  header, the offset table and the blocks share one memory as they do in the program.
  The abstract content of a file is the list of blocks (timestamp and transactions)
  appended to it; \<open>epoch_mem\<close> relates the two.
\<close>

definition BLOCKS_PER_EPOCH :: u64 where "BLOCKS_PER_EPOCH = 65536"
definition BLOCK_ALIGNMENT :: u64 where "BLOCK_ALIGNMENT = 4096"
definition CURRENT_FILE_VERSION :: u32 where "CURRENT_FILE_VERSION = 0xC7000000"

text \<open>
  Layout of \<open>blockchain_epoch_header_t\<close>: \<open>version\<close>, \<open>blocksPerEpoch\<close>, \<open>numBlocks\<close>,
  \<open>blockAlignment\<close> at 0, 4, 8, 12 and \<open>blockOffset[i]\<close> at \<open>16 + 4 * i\<close>.
\<close>

definition sizeof_epoch_header :: u64 where "sizeof_epoch_header = 16 + 4 * 65536"

definition blockOffset_addr :: "u64 \<Rightarrow> u64" where
  "blockOffset_addr i = 16 + 4 * i"

definition peek_u32 :: "'m mmap_ops \<Rightarrow> u64 \<Rightarrow> 'm \<Rightarrow> u32" where
  "peek_u32 M addr m = word_of_nat (le_nat (mm_peek M addr 4 m))"

definition poke_u32 :: "'m mmap_ops \<Rightarrow> u64 \<Rightarrow> u32 \<Rightarrow> 'm \<Rightarrow> 'm" where
  "poke_u32 M addr w m = mm_poke M addr (le_bytes 4 (unat w)) m"

text \<open>\<open>(x + BLOCK_ALIGNMENT - 1) & ~(BLOCK_ALIGNMENT - 1)\<close>\<close>

definition block_align :: "u64 \<Rightarrow> u64" where
  "block_align x = (x + BLOCK_ALIGNMENT - 1) AND NOT (BLOCK_ALIGNMENT - 1)"

text \<open>\<open>block_header_t\<close>: \<open>millis\<close>, \<open>numTransactions\<close> and 54 reserved bytes.\<close>

definition sizeof_block_header :: u64 where "sizeof_block_header = 64"

definition block_header_t :: "u64 \<Rightarrow> u16 \<Rightarrow> byte list" where
  "block_header_t millis numTransactions =
     le_bytes 8 (unat millis) @ le_bytes 2 (unat numTransactions) @ replicate 54 0"

definition new_EpochFile :: "'m mmap_ops \<Rightarrow> bool \<Rightarrow> 'm \<Rightarrow> 'm" where
  "new_EpochFile M isNew m =
     (if isNew
      then poke_u32 M (blockOffset_addr 0) (ucast (block_align sizeof_epoch_header))
             (poke_u32 M 12 (ucast BLOCK_ALIGNMENT)
               (poke_u32 M 8 0
                 (poke_u32 M 4 (ucast BLOCKS_PER_EPOCH)
                   (poke_u32 M 0 CURRENT_FILE_VERSION m))))
      else m)"

definition getBlockOffset :: "'m mmap_ops \<Rightarrow> 'm \<Rightarrow> u64 \<Rightarrow> u32" where
  "getBlockOffset M m blk = peek_u32 M (blockOffset_addr (blk mod BLOCKS_PER_EPOCH)) m"

text \<open>
  \<open>appendBlock\<close> in two parts: up to the seek that places the cursor of the mapped file behind
  the block header, and from the first transaction written at the cursor on.  The cursor
  belongs to the file object, which all users of the file share.
\<close>

definition append_header :: "'m mmap_ops \<Rightarrow> u64 \<Rightarrow> u64 \<Rightarrow> 'tx list \<Rightarrow> 'm \<Rightarrow> 'm" where
  "append_header M blk millis transactions m =
     (let offsetIdx = ucast (blk mod BLOCKS_PER_EPOCH) :: u32;
          stored = peek_u32 M (blockOffset_addr (ucast offsetIdx)) m;
          blockOffset = (if stored = 0 then ucast (block_align sizeof_epoch_header) else stored);
          m = (if stored = 0 then poke_u32 M (blockOffset_addr (ucast offsetIdx)) blockOffset m else m);
          m = mm_poke M (ucast blockOffset) (block_header_t millis (word_of_nat (length transactions))) m
      in mm_seek M (ucast blockOffset + sizeof_block_header) m)"

definition append_body :: "'m mmap_ops \<Rightarrow> ('tx, 's, 'm) tx_ops \<Rightarrow> u64 \<Rightarrow> 'tx list \<Rightarrow> 'm \<Rightarrow> 'm" where
  "append_body M T blk transactions m =
     (let m = write_all T transactions m
      in if (blk + 1) mod BLOCKS_PER_EPOCH \<noteq> 0
         then let nextOffset = mm_tell M m
              in poke_u32 M (blockOffset_addr ((blk + 1) mod BLOCKS_PER_EPOCH)) (ucast (block_align nextOffset)) m
         else m)"

definition appendBlock ::
  "'m mmap_ops \<Rightarrow> ('tx, 's, 'm) tx_ops \<Rightarrow> u64 \<Rightarrow> u64 \<Rightarrow> 'tx list \<Rightarrow> 'm \<Rightarrow> 'm" where
  "appendBlock M T blk millis transactions m =
     append_body M T blk transactions (append_header M blk millis transactions m)"

lemmas appendBlock_steps = appendBlock_def append_header_def append_body_def

fun read_transactions ::
  "'m mmap_ops \<Rightarrow> ('m, 'tx) TransactionTypeRegistry \<Rightarrow> nat \<Rightarrow> 'm \<Rightarrow> 'tx list \<Rightarrow> ('tx list \<times> 'm) result" where
  "read_transactions M txTypes 0 m results = Inr (results, m)"
| "read_transactions M txTypes (Suc n) m results =
     (case registry_read M txTypes m of
        Inl e \<Rightarrow> Inl e
      | Inr (None, m') \<Rightarrow> Inl Runtime_error
      | Inr (Some tx, m') \<Rightarrow> read_transactions M txTypes n m' (results @ [tx]))"

definition readBlock ::
  "'m mmap_ops \<Rightarrow> ('m, 'tx) TransactionTypeRegistry \<Rightarrow> u64 \<Rightarrow> 'm \<Rightarrow> ('tx list \<times> 'm) result" where
  "readBlock M txTypes blk m =
     (let blockOffset = getBlockOffset M m blk
      in if blockOffset = 0 then Inl Runtime_error
         else let numTransactions = le_nat (mm_peek M (ucast blockOffset + 8) 2 m)
              in read_transactions M txTypes numTransactions
                   (mm_seek M (ucast blockOffset + sizeof_block_header) m) [])"

subsection \<open>Layout arithmetic\<close>

definition page_up :: "nat \<Rightarrow> nat" where
  "page_up n = (n + 4095) div 4096 * 4096"

lemma page_up_ge: "n \<le> page_up n"
  unfolding page_up_def using div_mult_mod_eq [of "n + 4095" 4096] mod_le_divisor [of 4096 "n + 4095"]
  by linarith

lemma unat_block_align: "unat x + 4095 < 2 ^ 64 \<Longrightarrow> unat (block_align x) = page_up (unat x)"
proof -
  assume "unat x + 4095 < 2 ^ 64"
  then have "unat (4095 + x) = unat x + 4095" by (simp add: unat_word_ariths)
  then show ?thesis
    by (simp add: block_align_def page_up_def unat_page_mask BLOCK_ALIGNMENT_def)
qed

lemma block_align_header [simp]: "block_align sizeof_epoch_header = 266240"
  by (simp add: block_align_def BLOCK_ALIGNMENT_def sizeof_epoch_header_def)

lemma unat_blockOffset_addr:
  "unat (blockOffset_addr (blk mod BLOCKS_PER_EPOCH)) = 16 + 4 * (unat blk mod 65536)"
  by (simp add: blockOffset_addr_def BLOCKS_PER_EPOCH_def unat_word_ariths unat_mod_distrib)

lemma ucast_ucast_blk:
  "(ucast (ucast (blk mod BLOCKS_PER_EPOCH) :: u32) :: u64) = blk mod BLOCKS_PER_EPOCH"
proof -
  have "unat blk mod 65536 < 4294967296" using mod_less_divisor [of 65536 "unat blk"] by linarith
  then show ?thesis
    unfolding unat_eq_unat [symmetric]
    by (simp add: unat_ucast_u64_u32 unat_mod_distrib BLOCKS_PER_EPOCH_def)
qed

lemma length_block_header [simp]: "length (block_header_t t n) = 64"
  by (simp add: block_header_t_def)

subsection \<open>The content of an epoch file\<close>

type_synonym 'tx block = "u64 \<times> 'tx list"

definition block_bytes :: "('tx \<Rightarrow> byte list) \<Rightarrow> 'tx block \<Rightarrow> byte list" where
  "block_bytes enc b =
     block_header_t (fst b) (word_of_nat (length (snd b))) @ enc_all enc (snd b)"

text \<open>Where the block after \<open>bs\<close> starts.\<close>

definition end_of :: "('tx \<Rightarrow> byte list) \<Rightarrow> 'tx block list \<Rightarrow> nat" where
  "end_of enc bs = foldl (\<lambda>off b. page_up (off + length (block_bytes enc b))) 266240 bs"

lemma end_of_Nil [simp]: "end_of enc [] = 266240"
  by (simp add: end_of_def)

lemma end_of_snoc [simp]:
  "end_of enc (bs @ [b]) = page_up (end_of enc bs + length (block_bytes enc b))"
  by (simp add: end_of_def)

lemma end_of_ge: "266240 \<le> end_of enc bs"
proof (induction bs rule: rev_induct)
  case (snoc b bs)
  then show ?case
    using page_up_ge [of "end_of enc bs + length (block_bytes enc b)"] by simp
qed simp

lemma end_of_take_mono: "i < length bs \<Longrightarrow>
   end_of enc (take i bs) + length (block_bytes enc (bs ! i)) \<le> end_of enc bs"
proof (induction bs rule: rev_induct)
  case (snoc b bs)
  show ?case
  proof (cases "i < length bs")
    case True
    with snoc show ?thesis
      using page_up_ge [of "end_of enc bs + length (block_bytes enc b)"] by (simp add: nth_append)
  next
    case False
    with snoc.prems have "i = length bs" by simp
    then show ?thesis
      using page_up_ge [of "end_of enc bs + length (block_bytes enc b)"] by simp
  qed
qed simp

definition epoch_mem :: "('tx \<Rightarrow> byte list) \<Rightarrow> nat \<Rightarrow> memory \<Rightarrow> 'tx block list \<Rightarrow> bool" where
  "epoch_mem enc cap mem bs \<longleftrightarrow>
     length bs \<le> 65536 \<and> 266240 \<le> cap \<and>
     (\<forall>i < length bs.
        le_nat (mem_load mem (16 + 4 * i) 4) = end_of enc (take i bs) \<and>
        mem_load mem (end_of enc (take i bs)) (length (block_bytes enc (bs ! i))) = block_bytes enc (bs ! i) \<and>
        length (snd (bs ! i)) < 65536 \<and>
        end_of enc (take i bs) < 2 ^ 32 \<and>
        end_of enc (take i bs) + length (block_bytes enc (bs ! i)) \<le> cap) \<and>
     (length bs < 65536 \<longrightarrow> le_nat (mem_load mem (16 + 4 * length bs) 4) = end_of enc bs)"

text \<open>What it takes for one more block to fit into the file.\<close>

definition block_fits :: "('tx \<Rightarrow> byte list) \<Rightarrow> nat \<Rightarrow> 'tx block list \<Rightarrow> 'tx block \<Rightarrow> bool" where
  "block_fits enc cap bs b \<longleftrightarrow>
     length bs < 65536 \<and> length (snd b) < 65536 \<and>
     end_of enc bs + length (block_bytes enc b) \<le> cap \<and>
     end_of enc (bs @ [b]) < 2 ^ 32"

lemma epoch_mem_block_stored:
  assumes "epoch_mem enc cap mem bs" and "block_fits enc cap bs b"
    and keep: "\<And>i. i < length bs \<Longrightarrow> mem_load mem' (16 + 4 * i) 4 = mem_load mem (16 + 4 * i) 4"
      "mem_load mem' (16 + 4 * length bs) 4 = mem_load mem (16 + 4 * length bs) 4"
      "\<And>a n. 266240 \<le> a \<Longrightarrow> a + n \<le> end_of enc bs \<Longrightarrow> mem_load mem' a n = mem_load mem a n"
    and block: "mem_load mem' (end_of enc bs) (length (block_bytes enc b)) = block_bytes enc b"
    and slot: "Suc (length bs) < 65536 \<Longrightarrow>
        le_nat (mem_load mem' (16 + 4 * Suc (length bs)) 4) = end_of enc (bs @ [b])"
  shows "epoch_mem enc cap mem' (bs @ [b])"
proof -
  have old: "le_nat (mem_load mem (16 + 4 * i) 4) = end_of enc (take i bs) \<and>
      mem_load mem (end_of enc (take i bs)) (length (block_bytes enc (bs ! i))) = block_bytes enc (bs ! i) \<and>
      length (snd (bs ! i)) < 65536 \<and> end_of enc (take i bs) < 2 ^ 32 \<and>
      end_of enc (take i bs) + length (block_bytes enc (bs ! i)) \<le> cap" if "i < length bs" for i
    using assms(1) that by (simp add: epoch_mem_def)
  have last: "end_of enc bs < 2 ^ 32"
    using assms(2) page_up_ge [of "end_of enc bs + length (block_bytes enc b)"] by (simp add: block_fits_def)
  have "le_nat (mem_load mem' (16 + 4 * i) 4) = end_of enc (take i (bs @ [b])) \<and>
      mem_load mem' (end_of enc (take i (bs @ [b]))) (length (block_bytes enc ((bs @ [b]) ! i))) =
        block_bytes enc ((bs @ [b]) ! i) \<and>
      length (snd ((bs @ [b]) ! i)) < 65536 \<and> end_of enc (take i (bs @ [b])) < 2 ^ 32 \<and>
      end_of enc (take i (bs @ [b])) + length (block_bytes enc ((bs @ [b]) ! i)) \<le> cap"
    if "i < length (bs @ [b])" for i
  proof (cases "i < length bs")
    case True
    with old [OF True] end_of_take_mono [OF True, of enc] show ?thesis
      by (simp add: keep nth_append end_of_ge)
  next
    case False
    with that have "i = length bs" by simp
    with assms(1,2) block last keep(2) show ?thesis
      by (simp add: epoch_mem_def block_fits_def)
  qed
  with assms(1,2) slot show ?thesis by (simp add: epoch_mem_def block_fits_def)
qed

subsection \<open>The operations on the content\<close>

lemma unat_peek_u32:
  assumes "mmap_contract M V" and "unat addr + 4 \<le> vw_cap V m"
  shows "unat (peek_u32 M addr m) = le_nat (mem_load (vw_mem V m) (unat addr) 4)"
  using le_nat_bound [of "mem_load (vw_mem V m) (unat addr) 4"]
  by (simp add: peek_u32_def mmap_peek [OF assms] unat_of_nat)

lemma unat_blk_succ_mod: "unat ((blk + 1) mod BLOCKS_PER_EPOCH) = Suc (unat blk) mod 65536"
proof -
  have "Suc (unat blk) mod 18446744073709551616 mod 65536 = Suc (unat blk) mod 65536"
    by (rule mod_mod_cancel) simp
  then show ?thesis by (simp add: BLOCKS_PER_EPOCH_def unat_mod_distrib unat_word_ariths)
qed

lemma slot_in_header: "i < 65536 \<Longrightarrow> 16 + 4 * i + 4 \<le> (266240 :: nat)"
  by simp

text \<open>The memory after an append: the block at the end, and the next block's offset.\<close>

definition appended :: "('tx \<Rightarrow> byte list) \<Rightarrow> memory \<Rightarrow> 'tx block list \<Rightarrow> 'tx block \<Rightarrow> memory" where
  "appended enc mem bs b =
     (let mem' = mem_store mem (end_of enc bs) (block_bytes enc b)
      in if Suc (length bs) < 65536
         then mem_store mem' (16 + 4 * Suc (length bs)) (le_bytes 4 (end_of enc (bs @ [b])))
         else mem')"

lemma unat_blockOffset_addr_succ:
  "unat (blockOffset_addr ((blk + 1) mod BLOCKS_PER_EPOCH)) = 16 + 4 * (Suc (unat blk) mod 65536)"
proof -
  have "unat (blockOffset_addr i) = 16 + 4 * unat i" if "unat i < 65536" for i
    using that by (simp add: blockOffset_addr_def unat_word_ariths)
  then show ?thesis by (simp add: unat_blk_succ_mod)
qed

text \<open>Header and transactions written one after the other are the block's bytes.\<close>

lemma write_block_memory:
  fixes M :: "'m mmap_ops" and st :: u32
  assumes M: "mmap_contract M V" and T: "tx_codec T reg V enc"
    and room: "unat st + length (block_bytes enc (millis, txs)) \<le> vw_cap V m"
  defines "m' \<equiv> write_all T txs (mm_seek M (ucast st + sizeof_block_header)
      (mm_poke M (ucast st) (block_header_t millis (word_of_nat (length txs))) m))"
  shows "vw_mem V m' = mem_store (vw_mem V m) (unat st) (block_bytes enc (millis, txs))"
    and "vw_pos V m' = unat st + length (block_bytes enc (millis, txs))"
    and "vw_cap V m' = vw_cap V m"
proof -
  let ?hdr = "block_header_t millis (word_of_nat (length txs))"
  let ?m2 = "mm_poke M (ucast st) ?hdr m"
  let ?m3 = "mm_seek M (ucast st + sizeof_block_header) ?m2"
  have bytes: "block_bytes enc (millis, txs) = ?hdr @ enc_all enc txs" by (simp add: block_bytes_def)
  have m2: "vw_mem V ?m2 = mem_store (vw_mem V m) (unat st) ?hdr" "vw_cap V ?m2 = vw_cap V m"
    using mmap_poke [OF M, of "ucast st" ?hdr m] room by (simp_all add: bytes)
  have m3: "vw_mem V ?m3 = vw_mem V ?m2" "vw_pos V ?m3 = unat st + 64" "vw_cap V ?m3 = vw_cap V m"
    using mmap_seek [OF M] m2 unat_u32_bound [of st]
    by (simp_all add: sizeof_block_header_def unat_word_ariths)
  show "vw_mem V m' = mem_store (vw_mem V m) (unat st) (block_bytes enc (millis, txs))"
    and "vw_pos V m' = unat st + length (block_bytes enc (millis, txs))" and "vw_cap V m' = vw_cap V m"
    using write_all_codec [OF T, of ?m3 txs] room
      mem_store_append [of "vw_mem V m" "unat st" ?hdr "enc_all enc txs"]
    by (simp_all add: m3 m2 m'_def bytes)
qed

lemma appendBlock_memory:
  assumes M: "mmap_contract M V" and T: "tx_codec T reg V enc"
    and inv: "epoch_mem enc (vw_cap V m) (vw_mem V m) bs"
    and fits: "block_fits enc (vw_cap V m) bs (millis, txs)"
    and blk: "unat blk mod 65536 = length bs"
  shows "vw_mem V (appendBlock M T blk millis txs m) = appended enc (vw_mem V m) bs (millis, txs)"
    and "vw_cap V (appendBlock M T blk millis txs m) = vw_cap V m"
proof -
  let ?b = "(millis, txs)" and ?off = "end_of enc bs"
  let ?slot = "blockOffset_addr (blk mod BLOCKS_PER_EPOCH)"
    and ?next = "blockOffset_addr ((blk + 1) mod BLOCKS_PER_EPOCH)"
  let ?st = "peek_u32 M ?slot m"
  have len: "length bs < 65536" and cap: "266240 \<le> vw_cap V m"
    and room: "?off + length (block_bytes enc ?b) \<le> vw_cap V m" and small: "end_of enc (bs @ [?b]) < 2 ^ 32"
    using inv fits by (auto simp: epoch_mem_def block_fits_def)
  have st: "unat ?st = ?off"
    using unat_peek_u32 [OF M, of ?slot m] inv len cap
    by (simp add: epoch_mem_def unat_blockOffset_addr blk)
  define m4 where "m4 = write_all T txs (mm_seek M (ucast ?st + sizeof_block_header)
      (mm_poke M (ucast ?st) (block_header_t millis (word_of_nat (length txs))) m))"
  have m4: "vw_mem V m4 = mem_store (vw_mem V m) ?off (block_bytes enc ?b)"
    "vw_pos V m4 = ?off + length (block_bytes enc ?b)" "vw_cap V m4 = vw_cap V m"
    using write_block_memory [OF M T, of ?st millis txs m] room by (simp_all add: m4_def st)
  have app: "appendBlock M T blk millis txs m =
      (if (blk + 1) mod BLOCKS_PER_EPOCH \<noteq> 0
       then poke_u32 M ?next (ucast (block_align (mm_tell M m4))) m4 else m4)"
    using end_of_ge [of enc bs] st by (auto simp: appendBlock_steps Let_def ucast_ucast_blk m4_def)
  have next0: "(blk + 1) mod BLOCKS_PER_EPOCH \<noteq> 0 \<longleftrightarrow> Suc (length bs) < 65536"
    using blk len unfolding unat_eq_unat [symmetric] unat_blk_succ_mod
    by (metis Suc_lessI mod_Suc nat.distinct(1) nat_neq_iff unsigned_0)
  have "?off + length (block_bytes enc ?b) < 4294967296"
    using small page_up_ge [of "?off + length (block_bytes enc ?b)"] by simp
  then have tell: "unat (ucast (block_align (mm_tell M m4)) :: u32) = end_of enc (bs @ [?b])"
    using mmap_tell [OF M, of m4] small m4(2) by (simp add: unat_ucast_u64_u32 unat_block_align)
  have "unat ?next = 16 + 4 * Suc (length bs)" if "Suc (length bs) < 65536"
    using that blk by (simp add: unat_blockOffset_addr_succ mod_Suc)
  then show "vw_mem V (appendBlock M T blk millis txs m) = appended enc (vw_mem V m) bs ?b"
    and "vw_cap V (appendBlock M T blk millis txs m) = vw_cap V m"
    using next0 cap mmap_poke [OF M, of ?next "le_bytes 4 (end_of enc (bs @ [?b]))" m4]
    by (auto simp: app poke_u32_def tell m4 appended_def)
qed

lemma epoch_mem_appended:
  assumes inv: "epoch_mem enc cap mem bs" and fits: "block_fits enc cap bs b"
  shows "epoch_mem enc cap (appended enc mem bs b) (bs @ [b])"
proof (rule epoch_mem_block_stored [OF inv fits])
  have off: "266240 \<le> end_of enc bs" by (rule end_of_ge)
  have len: "length bs < 65536" using fits by (simp add: block_fits_def)
  show "mem_load (appended enc mem bs b) (16 + 4 * i) 4 = mem_load mem (16 + 4 * i) 4"
    if "i < length bs" for i
    using that off len by (simp add: appended_def Let_def mem_load_store_disjoint)
  show "mem_load (appended enc mem bs b) (16 + 4 * length bs) 4 = mem_load mem (16 + 4 * length bs) 4"
    using off len by (simp add: appended_def Let_def mem_load_store_disjoint)
  show "mem_load (appended enc mem bs b) a n = mem_load mem a n"
    if "266240 \<le> a" and "a + n \<le> end_of enc bs" for a n
    using that len by (simp add: appended_def Let_def mem_load_store_disjoint)
  show "mem_load (appended enc mem bs b) (end_of enc bs) (length (block_bytes enc b)) = block_bytes enc b"
    using off len by (simp add: appended_def Let_def mem_load_store_disjoint mem_load_store_same)
  show "le_nat (mem_load (appended enc mem bs b) (16 + 4 * Suc (length bs)) 4) = end_of enc (bs @ [b])"
    if "Suc (length bs) < 65536"
    using that fits by (simp add: appended_def Let_def mem_load_store_same le_nat_le_bytes block_fits_def)
qed

lemma read_transactions_stored:
  assumes M: "mmap_contract M V" and T: "tx_codec T (factories reg) V enc"
    and "vw_pos V m + length (enc_all enc txs) \<le> vw_cap V m"
    and "mem_load (vw_mem V m) (vw_pos V m) (length (enc_all enc txs)) = enc_all enc txs"
  shows "\<exists>m'. read_transactions M reg (length txs) m results = Inr (results @ txs, m') \<and>
    vw_mem V m' = vw_mem V m \<and> vw_cap V m' = vw_cap V m \<and> vw_pos V m' = vw_pos V m + length (enc_all enc txs)"
  using assms(3,4)
proof (induction txs arbitrary: m results)
  case (Cons x txs)
  from Cons.prems(2) have here: "mem_load (vw_mem V m) (vw_pos V m) (length (enc x)) = enc x"
    and rest: "mem_load (vw_mem V m) (vw_pos V m + length (enc x)) (length (enc_all enc txs)) = enc_all enc txs"
    by (simp_all add: mem_load_append)
  obtain m1 where m1: "registry_read M reg m = Inr (Some x, m1)" "vw_mem V m1 = vw_mem V m"
    "vw_pos V m1 = vw_pos V m + length (enc x)" "vw_cap V m1 = vw_cap V m"
    using registry_read_stored [OF M T, of m x] here Cons.prems(1) by auto
  with Cons.IH [of m1 "results @ [x]"] rest Cons.prems(1) show ?case by (simp add: add.assoc)
qed simp

text \<open>What a block's entry in the offset table points to is what is read.\<close>

lemma readBlock_at:
  assumes M: "mmap_contract M V" and T: "tx_codec T (factories reg) V enc"
    and st: "unat (getBlockOffset M m blk) = off" "off \<noteq> 0"
    and bytes: "mem_load (vw_mem V m) off (length (block_bytes enc b)) = block_bytes enc b"
    and n: "length (snd b) < 65536" and cap: "off + length (block_bytes enc b) \<le> vw_cap V m"
  shows "\<exists>m'. readBlock M reg blk m = Inr (snd b, m') \<and> vw_mem V m' = vw_mem V m \<and> vw_cap V m' = vw_cap V m \<and>
    vw_pos V m' = off + length (block_bytes enc b)"
proof -
  let ?hdr = "block_header_t (fst b) (word_of_nat (length (snd b)))" and ?st = "getBlockOffset M m blk"
  let ?m1 = "mm_seek M (ucast ?st + sizeof_block_header) m"
  have hdr: "mem_load (vw_mem V m) off 64 = ?hdr"
    and body: "mem_load (vw_mem V m) (off + 64) (length (enc_all enc (snd b))) = enc_all enc (snd b)"
    using bytes mem_load_append [of "vw_mem V m" off ?hdr "length (enc_all enc (snd b))" "enc_all enc (snd b)"]
    by (simp_all add: block_bytes_def)
  have "mem_load (vw_mem V m) (off + 8) 2 = le_bytes 2 (length (snd b))"
    using hdr n mem_load_add [of "vw_mem V m" off 8 56] mem_load_add [of "vw_mem V m" "off + 8" 2 54]
    by (simp add: block_header_t_def unat_of_nat)
  then have count: "le_nat (mm_peek M (ucast ?st + 8) 2 m) = length (snd b)"
    using mmap_peek [OF M, of "ucast ?st + 8" 2 m] cap n unat_u32_bound [of ?st] st
    by (simp add: unat_word_ariths block_bytes_def le_nat_le_bytes)
  have m1: "vw_mem V ?m1 = vw_mem V m" "vw_pos V ?m1 = off + 64" "vw_cap V ?m1 = vw_cap V m"
    using mmap_seek [OF M] unat_u32_bound [of ?st] st
    by (simp_all add: unat_word_ariths sizeof_block_header_def)
  have "?st \<noteq> 0" using st by auto
  then show ?thesis
    using read_transactions_stored [OF M T, of ?m1 "snd b" "[]"] cap body
    by (auto simp: readBlock_def Let_def count m1 block_bytes_def)
qed

lemma slot_of_content:
  assumes M: "mmap_contract M V" and "epoch_mem enc (vw_cap V m) (vw_mem V m) bs"
    and "unat blk mod 65536 < length bs"
  shows "unat (getBlockOffset M m blk) = end_of enc (take (unat blk mod 65536) bs)"
  using unat_peek_u32 [OF M, of "blockOffset_addr (blk mod BLOCKS_PER_EPOCH)" m] assms(2,3)
  by (simp add: getBlockOffset_def unat_blockOffset_addr epoch_mem_def)

lemma readBlock_content:
  assumes M: "mmap_contract M V" and T: "tx_codec T (factories reg) V enc"
    and inv: "epoch_mem enc (vw_cap V m) (vw_mem V m) bs"
    and i: "unat blk mod 65536 < length bs"
  shows "\<exists>m'. readBlock M reg blk m = Inr (snd (bs ! (unat blk mod 65536)), m') \<and>
    vw_mem V m' = vw_mem V m \<and> vw_cap V m' = vw_cap V m"
proof -
  let ?i = "unat blk mod 65536"
  have "end_of enc (take ?i bs) \<noteq> 0" using end_of_ge [of enc "take ?i bs"] by simp
  from readBlock_at [OF M T slot_of_content [OF M inv i] this, of "bs ! ?i"] inv i show ?thesis
    by (auto simp: epoch_mem_def)
qed

lemma new_EpochFile_content:
  assumes M: "mmap_contract M V" and cap: "266240 \<le> vw_cap V m"
  shows "epoch_mem enc (vw_cap V (new_EpochFile M True m)) (vw_mem V (new_EpochFile M True m)) []"
    and "vw_cap V (new_EpochFile M True m) = vw_cap V m"
proof -
  have poke: "vw_mem V (poke_u32 M a w f) = mem_store (vw_mem V f) (unat a) (le_bytes 4 (unat w))"
    "vw_cap V (poke_u32 M a w f) = vw_cap V f" if "unat a + 4 \<le> vw_cap V f" for a w f
    using mmap_poke [OF M, of a "le_bytes 4 (unat w)" f] that by (simp_all add: poke_u32_def)
  show cap': "vw_cap V (new_EpochFile M True m) = vw_cap V m"
    using cap by (simp add: new_EpochFile_def poke blockOffset_addr_def)
  show "epoch_mem enc (vw_cap V (new_EpochFile M True m)) (vw_mem V (new_EpochFile M True m)) []"
    unfolding cap' using cap
    by (simp add: epoch_mem_def new_EpochFile_def poke blockOffset_addr_def mem_load_store_same
        le_nat_le_bytes unat_ucast_u64_u32)
qed

subsection \<open>The journal interface\<close>

text \<open>
  What the backend relies on when it appends to and reads from an epoch file: a
  representation relation to the list of blocks, kept by both operations.
\<close>

locale block_journal =
  fixes holds :: "'f \<Rightarrow> 'tx block list \<Rightarrow> bool"
    and room :: "'f \<Rightarrow> 'tx block list \<Rightarrow> 'tx block \<Rightarrow> bool"
    and append :: "u64 \<Rightarrow> u64 \<Rightarrow> 'tx list \<Rightarrow> 'f \<Rightarrow> 'f"
    and read :: "u64 \<Rightarrow> 'f \<Rightarrow> ('tx list \<times> 'f) result"
  assumes append_holds: "holds f bs \<Longrightarrow> room f bs (millis, txs) \<Longrightarrow> unat blk mod 65536 = length bs \<Longrightarrow>
      holds (append blk millis txs f) (bs @ [(millis, txs)])"
    and read_holds: "holds f bs \<Longrightarrow> unat blk mod 65536 < length bs \<Longrightarrow>
      \<exists>f'. read blk f = Inr (snd (bs ! (unat blk mod 65536)), f') \<and> holds f' bs"
begin

lemma read_after_append:
  assumes "holds f bs" and "room f bs (millis, txs)" and "unat blk mod 65536 = length bs"
    and "unat blk' mod 65536 \<le> length bs"
  shows "\<exists>f'. read blk' (append blk millis txs f) =
      Inr (if unat blk' mod 65536 = length bs then txs else snd (bs ! (unat blk' mod 65536)), f') \<and>
    holds f' (bs @ [(millis, txs)])"
proof -
  have "\<exists>f'. read blk' (append blk millis txs f) =
      Inr (snd ((bs @ [(millis, txs)]) ! (unat blk' mod 65536)), f') \<and> holds f' (bs @ [(millis, txs)])"
    using append_holds [OF assms(1-3)] assms(4) by (intro read_holds) auto
  then show ?thesis using assms(4) by (auto simp: nth_append split: if_splits)
qed

end

definition epoch_holds ::
  "'m mmap_ops \<Rightarrow> 'm mmap_view \<Rightarrow> ('tx, 's, 'm) tx_ops \<Rightarrow> ('m, 'tx) TransactionTypeRegistry \<Rightarrow>
   ('tx \<Rightarrow> byte list) \<Rightarrow> 'm \<Rightarrow> 'tx block list \<Rightarrow> bool" where
  "epoch_holds M V T txTypes enc m bs \<longleftrightarrow>
     mmap_contract M V \<and> tx_codec T (factories txTypes) V enc \<and> epoch_mem enc (vw_cap V m) (vw_mem V m) bs"

interpretation epoch: block_journal
  "epoch_holds M V T txTypes enc" "\<lambda>m. block_fits enc (vw_cap V m)" "appendBlock M T" "readBlock M txTypes"
  for M :: "'m mmap_ops" and V and T :: "('tx, 's, 'm) tx_ops" and txTypes enc
proof unfold_locales
  fix m bs millis txs blk
  assume *: "epoch_holds M V T txTypes enc m bs" "block_fits enc (vw_cap V m) bs (millis, txs)"
    "unat (blk :: u64) mod 65536 = length bs"
  then show "epoch_holds M V T txTypes enc (appendBlock M T blk millis txs m) (bs @ [(millis, txs)])"
    using appendBlock_memory [of M V T "factories txTypes" enc m bs millis txs blk]
      epoch_mem_appended [of enc "vw_cap V m" "vw_mem V m" bs "(millis, txs)"]
    by (simp add: epoch_holds_def)
next
  fix m bs blk
  assume "epoch_holds M V T txTypes enc m bs" "unat (blk :: u64) mod 65536 < length bs"
  then show "\<exists>m'. readBlock M txTypes blk m = Inr (snd (bs ! (unat blk mod 65536)), m') \<and>
      epoch_holds M V T txTypes enc m' bs"
    using readBlock_content [of M V T txTypes enc m bs blk] by (auto simp: epoch_holds_def)
qed

subsection \<open>Properties\<close>

text \<open>
  C12 (EpochFile.epoch_append_then_read): in an epoch file that holds the blocks \<open>bs\<close>, appending the
  next block, which fits (fewer than 65536 blocks and transactions, room in the mapping, offsets below
  2^32), and then reading any block of the file gives back exactly the transactions
  appended under that number, the new block's as well as every older block's, and the file
  then holds \<open>bs\<close> and the new block.
\<close>

theorem epoch_append_then_read:
  assumes "epoch_holds M V T txTypes enc m bs"
    and "block_fits enc (vw_cap V m) bs (millis, txs)"
    and "unat blk mod 65536 = length bs" and "unat blk' mod 65536 \<le> length bs"
  shows "\<exists>m'. readBlock M txTypes blk' (appendBlock M T blk millis txs m) =
      Inr (if unat blk' mod 65536 = length bs then txs else snd (bs ! (unat blk' mod 65536)), m') \<and>
    epoch_holds M V T txTypes enc m' (bs @ [(millis, txs)])"
  using assms by (rule epoch.read_after_append)

text \<open>
  (epoch append frame): \<open>appendBlock\<close> changes no byte in front of the new block except
  the four bytes of the next block's entry in the offset table: every other header field
  (the block count \<open>numBlocks\<close> included, which therefore keeps the value 0 it was created
  with) and every older block stay as they were.
\<close>

theorem epoch_append_frame:
  assumes "epoch_holds M V T txTypes enc m bs"
    and "block_fits enc (vw_cap V m) bs (millis, txs)"
    and "unat blk mod 65536 = length bs"
    and "a < end_of enc bs" and "\<not> (20 + 4 * length bs \<le> a \<and> a < 24 + 4 * length bs)"
  shows "vw_mem V (appendBlock M T blk millis txs m) a = vw_mem V m a"
  using appendBlock_memory(1) [of M V T "factories txTypes" enc m bs millis txs blk] assms
  by (auto simp: epoch_holds_def appended_def Let_def mem_store_def)

text \<open>
  (new epoch file empty): opening a new epoch file (zero-filled or not) leaves a file
  that holds no block, and reading any block number whose table entry is still zero throws.
\<close>

theorem new_epoch_file_empty:
  assumes "mmap_contract M V" and "tx_codec T (factories txTypes) V enc" and "266240 \<le> vw_cap V m"
  shows "epoch_holds M V T txTypes enc (new_EpochFile M True m) [] \<and>
    (getBlockOffset M (new_EpochFile M True m) blk = 0 \<longrightarrow>
      readBlock M txTypes blk (new_EpochFile M True m) = Inl Runtime_error)"
  using new_EpochFile_content [OF assms(1,3)] assms(1,2)
  by (simp add: epoch_holds_def readBlock_def)

text \<open>
  (epoch offset wraps): the offset recorded for the next block is the page-aligned end of
  the block just written, taken modulo \<open>2 ^ 32\<close>: it is the true position exactly while the
  file stays below 4 GiB.
\<close>

theorem epoch_offset_wraps:
  fixes M :: "'m mmap_ops" and blk millis :: u64
  assumes M: "mmap_contract M V" and T: "tx_codec T (factories txTypes) V enc"
    and cap: "266240 \<le> vw_cap V m" "vw_cap V m < 2 ^ 63"
    and st: "getBlockOffset M m blk \<noteq> 0"
    and room: "unat (getBlockOffset M m blk) + length (block_bytes enc (millis, txs)) \<le> vw_cap V m"
    and blk: "(blk + 1) mod BLOCKS_PER_EPOCH \<noteq> 0"
  shows "unat (getBlockOffset M (appendBlock M T blk millis txs m) (blk + 1)) =
    page_up (unat (getBlockOffset M m blk) + length (block_bytes enc (millis, txs))) mod 2 ^ 32"
proof -
  let ?st = "getBlockOffset M m blk" and ?next = "blockOffset_addr ((blk + 1) mod BLOCKS_PER_EPOCH)"
  define m4 where "m4 = write_all T txs (mm_seek M (ucast ?st + sizeof_block_header)
      (mm_poke M (ucast ?st) (block_header_t millis (word_of_nat (length txs))) m))"
  have m4: "vw_pos V m4 = unat ?st + length (block_bytes enc (millis, txs))" "vw_cap V m4 = vw_cap V m"
    using write_block_memory [OF M T room] by (simp_all add: m4_def)
  have app: "appendBlock M T blk millis txs m = poke_u32 M ?next (ucast (block_align (mm_tell M m4))) m4"
    using st blk by (simp add: appendBlock_steps Let_def ucast_ucast_blk m4_def getBlockOffset_def)
  have nx: "unat ?next + 4 \<le> vw_cap V m"
    using cap(1) mod_less_divisor [of 65536 "Suc (unat blk)"] by (simp add: unat_blockOffset_addr_succ)
  have "vw_mem V (appendBlock M T blk millis txs m) =
      mem_store (vw_mem V m4) (unat ?next) (le_bytes 4 (unat (ucast (block_align (mm_tell M m4)) :: u32)))"
    and "vw_cap V (appendBlock M T blk millis txs m) = vw_cap V m"
    using mmap_poke [OF M, of ?next _ m4] nx m4(2) by (simp_all add: app poke_u32_def)
  then have "unat (getBlockOffset M (appendBlock M T blk millis txs m) (blk + 1)) =
      unat (ucast (block_align (mm_tell M m4)) :: u32)"
    using unat_peek_u32 [OF M, of ?next "appendBlock M T blk millis txs m"] nx
      unat_u32_bound [of "ucast (block_align (mm_tell M m4))"]
    by (simp add: getBlockOffset_def mem_load_store_same le_nat_le_bytes)
  moreover have "unat (mm_tell M m4) = vw_pos V m4"
    using mmap_tell [OF M, of m4] m4(1) room cap(2) by simp
  ultimately show ?thesis
    using unat_block_align [of "mm_tell M m4"] m4(1) room cap(2) by (simp add: unat_ucast_u64_u32)
qed

subsection \<open>Witnesses\<close>

definition sample_epoch :: flat_file where
  "sample_epoch = new_EpochFile flat_mmap True \<lparr>fl_mem = (\<lambda>_. 0), fl_pos = 0, fl_cap = 300000\<rparr>"

lemma sample_epoch_cap [simp]: "fl_cap sample_epoch = 300000"
  using new_EpochFile_content(2) [OF flat_mmap_contract, of "\<lparr>fl_mem = (\<lambda>_. 0), fl_pos = 0, fl_cap = 300000\<rparr>"]
  by (simp add: sample_epoch_def)

lemma sample_epoch_holds: "epoch_holds flat_mmap flat_view byte_tx byte_types (\<lambda>x. [1, x]) sample_epoch []"
  using new_EpochFile_content(1) [OF flat_mmap_contract, of "\<lparr>fl_mem = (\<lambda>_. 0), fl_pos = 0, fl_cap = 300000\<rparr>"]
  by (simp add: epoch_holds_def flat_mmap_contract byte_types_codec sample_epoch_def)

lemma sample_block_fits:
  "block_fits (\<lambda>x. [1, x]) (vw_cap flat_view sample_epoch) [] (1000, [7, 9 :: byte])"
  by (simp add: block_fits_def sample_epoch_cap block_bytes_def page_up_def
      end_of_snoc [where bs = "[]", simplified])

theorem epoch_append_then_read_witness:
  "\<exists>m'. readBlock flat_mmap byte_types 0 (appendBlock flat_mmap byte_tx 0 1000 [7, 9] sample_epoch) =
     Inr ([7, 9], m')"
  using epoch_append_then_read [OF sample_epoch_holds sample_block_fits, of 0 0] by auto

theorem epoch_append_frame_witness:
  "fl_mem (appendBlock flat_mmap byte_tx 0 1000 [7, 9] sample_epoch) 8 = fl_mem sample_epoch 8"
  using epoch_append_frame [OF sample_epoch_holds sample_block_fits, of 0 8] by simp

theorem new_epoch_file_empty_witness:
  "epoch_holds flat_mmap flat_view byte_tx byte_types (\<lambda>x. [1, x])
     (new_EpochFile flat_mmap True \<lparr>fl_mem = (\<lambda>_. 0), fl_pos = 0, fl_cap = 300000\<rparr>) []"
  using new_epoch_file_empty
    [OF flat_mmap_contract byte_types_codec, of "\<lparr>fl_mem = (\<lambda>_. 0), fl_pos = 0, fl_cap = 300000\<rparr>"]
  by simp

lemma sample_epoch_offset: "getBlockOffset flat_mmap sample_epoch 0 = 266240"
proof -
  have "unat (getBlockOffset flat_mmap sample_epoch 0) = 266240"
    using unat_peek_u32 [OF flat_mmap_contract, of "blockOffset_addr 0" sample_epoch] sample_epoch_holds
    by (simp add: getBlockOffset_def sample_epoch_cap blockOffset_addr_def epoch_holds_def epoch_mem_def
        BLOCKS_PER_EPOCH_def)
  then have "unat (getBlockOffset flat_mmap sample_epoch 0) = unat (266240 :: u32)" by simp
  then show ?thesis by (simp only: unat_eq_unat)
qed

theorem epoch_offset_wraps_witness:
  "unat (getBlockOffset flat_mmap (appendBlock flat_mmap byte_tx 0 1000 [7, 9] sample_epoch) 1) = 270336"
  using epoch_offset_wraps [OF flat_mmap_contract byte_types_codec, of sample_epoch 0 1000 "[7, 9]"]
  by (simp add: sample_epoch_cap sample_epoch_offset block_bytes_def BLOCKS_PER_EPOCH_def page_up_def)

end
