(* ===== verification/Journal.thy ===== *)
theory Journal
  imports EpochFile
begin

text \<open>
  The block journal as a whole: the chain of blocks spread over epoch files of 65536 blocks
  each.  The lemmas extend the contract \<open>block_journal\<close> of a single epoch file and reach the
  model through its interpretation \<open>epoch\<close>.
\<close>

text \<open>The blocks of epoch \<open>e\<close>.\<close>

definition epoch_slice :: "nat \<Rightarrow> 'b list \<Rightarrow> 'b list" where
  "epoch_slice e bs = take 65536 (drop (e * 65536) bs)"

lemma epoch_slice_append:
  "epoch_slice e (bs @ [b]) =
     (if e = length bs div 65536 then epoch_slice e bs @ [b] else epoch_slice e bs)"
proof (cases e "length bs div 65536" rule: linorder_cases)
  case less
  then have "Suc e * 65536 \<le> length bs div 65536 * 65536" by (intro mult_le_mono1) simp
  then have "e * 65536 + 65536 \<le> length bs" using div_mult_mod_eq [of "length bs" 65536] by simp
  with less show ?thesis by (simp add: epoch_slice_def)
next
  case equal
  have "length bs - e * 65536 = length bs mod 65536"
    using equal by (simp add: minus_div_mult_eq_mod [symmetric])
  moreover have "e * 65536 \<le> length bs" using equal by simp
  ultimately show ?thesis using equal by (simp add: epoch_slice_def)
next
  case greater
  then have "Suc (length bs div 65536) * 65536 \<le> e * 65536" by (intro mult_le_mono1) simp
  then have "length bs < e * 65536"
    using div_mult_mod_eq [of "length bs" 65536] mod_less_divisor [of 65536 "length bs"] by simp
  with greater show ?thesis by (simp add: epoch_slice_def)
qed

lemma length_last_slice: "length (epoch_slice (length bs div 65536) bs) = length bs mod 65536"
proof -
  have "length bs - length bs div 65536 * 65536 = length bs mod 65536"
    by (simp add: minus_div_mult_eq_mod)
  then show ?thesis by (simp add: epoch_slice_def)
qed

lemma epoch_slice_nth:
  assumes "i < length bs"
  shows "i mod 65536 < length (epoch_slice (i div 65536) bs)"
    and "epoch_slice (i div 65536) bs ! (i mod 65536) = bs ! i"
proof -
  have i: "i div 65536 * 65536 + i mod 65536 = i" by simp
  have "i mod 65536 < length bs - i div 65536 * 65536" using assms i by linarith
  then show "i mod 65536 < length (epoch_slice (i div 65536) bs)" by (simp add: epoch_slice_def)
  have "drop (i div 65536 * 65536) bs ! (i mod 65536) = bs ! (i div 65536 * 65536 + i mod 65536)"
    using assms i by (intro nth_drop) linarith
  then show "epoch_slice (i div 65536) bs ! (i mod 65536) = bs ! i"
    by (simp add: epoch_slice_def i)
qed

text \<open>
  The epoch files hold the chain; an epoch without a file holds no block yet.
\<close>

definition files_hold ::
  "('f \<Rightarrow> 'tx block list \<Rightarrow> bool) \<Rightarrow> (u32 \<rightharpoonup> 'f) \<Rightarrow> 'tx block list \<Rightarrow> bool" where
  "files_hold holds files bs \<longleftrightarrow>
     (\<forall>e < 2 ^ 32. case files (word_of_nat e) of
        None \<Rightarrow> epoch_slice e bs = []
      | Some f \<Rightarrow> holds f (epoch_slice e bs))"

text \<open>\<open>(uint32_t)(blockNumber / BLOCKS_PER_EPOCH)\<close>\<close>

definition epoch_number :: "u64 \<Rightarrow> u32" where
  "epoch_number blk = ucast (blk div BLOCKS_PER_EPOCH)"

lemma epoch_number_eq: "epoch_number blk = word_of_nat (unat blk div 65536)"
  unfolding unat_eq_unat [symmetric]
  by (simp add: epoch_number_def unat_ucast_u64_u32 unat_div_distrib BLOCKS_PER_EPOCH_def unat_of_nat)

lemma word_of_nat_u32_eq: "a < 2 ^ 32 \<Longrightarrow> b < 2 ^ 32 \<Longrightarrow> (word_of_nat a :: u32) = word_of_nat b \<longleftrightarrow> a = b"
  by (simp add: unat_of_nat flip: unat_eq_unat)

context block_journal
begin

text \<open>
  Appending the next block of the chain to the file of its epoch, which is opened or newly
  created, extends the chain; every block of the chain can be read from the file of its epoch.
\<close>

lemma files_hold_append:
  assumes chain: "files_hold holds files bs" and n: "unat blk = length bs" "length bs < 2 ^ 48"
    and opened: "files (epoch_number blk) = Some f \<or> files (epoch_number blk) = None \<and> holds f []"
    and room: "room f (epoch_slice (length bs div 65536) bs) (millis, txs)"
  shows "files_hold holds (files(epoch_number blk \<mapsto> append blk millis txs f)) (bs @ [(millis, txs)])"
  unfolding files_hold_def
proof (intro allI impI)
  fix e :: nat
  assume e: "e < 2 ^ 32"
  let ?e = "length bs div 65536"
  have en: "epoch_number blk = word_of_nat ?e" "?e < 2 ^ 32" using n by (simp_all add: epoch_number_eq)
  have old: "case files (word_of_nat e) of None \<Rightarrow> epoch_slice e bs = [] | Some f \<Rightarrow> holds f (epoch_slice e bs)"
    if "e < 2 ^ 32" for e
    using chain that by (simp add: files_hold_def)
  have "holds f (epoch_slice ?e bs)" using old [OF en(2)] opened by (auto simp: en)
  then have "holds (append blk millis txs f) (epoch_slice ?e bs @ [(millis, txs)])"
    using room n by (intro append_holds) (simp_all add: length_last_slice)
  then show "case (files(epoch_number blk \<mapsto> append blk millis txs f)) (word_of_nat e) of
      None \<Rightarrow> epoch_slice e (bs @ [(millis, txs)]) = []
    | Some f \<Rightarrow> holds f (epoch_slice e (bs @ [(millis, txs)]))"
    using old [OF e] word_of_nat_u32_eq [OF e en(2)] by (auto simp: en epoch_slice_append split: option.splits)
qed

lemma files_hold_read:
  assumes chain: "files_hold holds files bs" and n: "unat blk < length bs" "length bs \<le> 2 ^ 48"
  shows "\<exists>f f'. files (epoch_number blk) = Some f \<and> read blk f = Inr (snd (bs ! unat blk), f') \<and>
    files_hold holds (files(epoch_number blk \<mapsto> f')) bs"
proof -
  let ?e = "unat blk div 65536"
  have en: "epoch_number blk = word_of_nat ?e" "?e < 2 ^ 32" using n by (simp_all add: epoch_number_eq)
  note nth = epoch_slice_nth [OF n(1)]
  obtain f where f: "files (word_of_nat ?e) = Some f" "holds f (epoch_slice ?e bs)"
    using chain en(2) nth(1) by (auto simp: files_hold_def split: option.splits dest!: spec [of _ ?e])
  then obtain f' where f': "read blk f = Inr (snd (bs ! unat blk), f')" "holds f' (epoch_slice ?e bs)"
    using read_holds [OF f(2) nth(1)] nth(2) by auto
  have "files_hold holds (files(word_of_nat ?e \<mapsto> f')) bs"
    using chain f'(2) en(2) word_of_nat_u32_eq by (auto simp: files_hold_def)
  with f f' en show ?thesis by auto
qed

end

end
