(* ===== verification/Ordered_Store.thy ===== *)
theory Ordered_Store
  imports Prelude
begin

text \<open>
  The B-tree of libexcessive, which is not part of this repository, as a parameter of the
  model: the record \<open>btree_ops\<close> holds the five operations the library calls, and
  \<open>btree_contract\<close> states what the library relies on, relative to the comparison
  function the tree was built with.  The locales \<open>key_order\<close> and \<open>key_cursor\<close> are
  the interface between the three record types the library stores in B-trees (their
  \<open>compare\<close> and \<open>successor\<close> functions) and the cursor loops that walk them.
\<close>

record ('t, 'e) btree_ops =
  bt_find :: "'t \<Rightarrow> 'e \<Rightarrow> 'e option"
  bt_findNext :: "'t \<Rightarrow> 'e \<Rightarrow> 'e option"
  bt_insert :: "'e \<Rightarrow> 't \<Rightarrow> 't"
  bt_overwrite :: "'e \<Rightarrow> 't \<Rightarrow> 't"
  bt_remove :: "'e \<Rightarrow> 't \<Rightarrow> 't \<times> 'e"

text \<open>
  \<open>find\<close> and \<open>findNext\<close> take the key by reference and overwrite it with the element
  found: the model returns that element, or \<open>None\<close> when the call returns false.
  \<open>findNext\<close> finds the given value if present, or the next highest one.
  \<open>overwrite\<close> replaces the element that compares equal, or adds it; \<open>remove\<close> hands
  back the element it removed through its argument.
\<close>

definition btree_contract ::
  "('t, 'e) btree_ops \<Rightarrow> ('e \<Rightarrow> 'e \<Rightarrow> int) \<Rightarrow> ('t \<Rightarrow> bool) \<Rightarrow> ('t \<Rightarrow> 'e set) \<Rightarrow> bool" where
  "btree_contract B cmp ok cont \<longleftrightarrow>
     (\<forall>t. ok t \<longrightarrow> finite (cont t) \<and> (\<forall>x\<in>cont t. \<forall>y\<in>cont t. cmp x y = 0 \<longrightarrow> x = y)) \<and>
     (\<forall>t k x. ok t \<longrightarrow> (bt_find B t k = Some x \<longleftrightarrow> x \<in> cont t \<and> cmp x k = 0)) \<and>
     (\<forall>t k x. ok t \<longrightarrow> (bt_findNext B t k = Some x \<longleftrightarrow>
        x \<in> cont t \<and> cmp k x \<le> 0 \<and> (\<forall>y\<in>cont t. cmp k y \<le> 0 \<longrightarrow> cmp x y \<le> 0))) \<and>
     (\<forall>t e. ok t \<and> (\<forall>y\<in>cont t. cmp y e \<noteq> 0) \<longrightarrow>
        ok (bt_insert B e t) \<and> cont (bt_insert B e t) = insert e (cont t)) \<and>
     (\<forall>t e. ok t \<longrightarrow>
        ok (bt_overwrite B e t) \<and>
        cont (bt_overwrite B e t) = insert e {y \<in> cont t. cmp y e \<noteq> 0})"

text \<open>
  \<open>remove\<close> is apart: the header of the catalog says that it handles leaf nodes only.  What
  \<open>CatalogFile::deleteEntry\<close>, its only caller, relies on is that it takes out the element that
  compares equal and hands it back, and leaves its argument alone when there is none.
\<close>

definition remove_contract ::
  "('t, 'e) btree_ops \<Rightarrow> ('e \<Rightarrow> 'e \<Rightarrow> int) \<Rightarrow> ('t \<Rightarrow> bool) \<Rightarrow> ('t \<Rightarrow> 'e set) \<Rightarrow> bool" where
  "remove_contract B cmp ok cont \<longleftrightarrow>
     (\<forall>t e. ok t \<longrightarrow>
        ok (fst (bt_remove B e t)) \<and>
        cont (fst (bt_remove B e t)) = {y \<in> cont t. cmp y e \<noteq> 0} \<and>
        (\<forall>x\<in>cont t. cmp x e = 0 \<longrightarrow> snd (bt_remove B e t) = x) \<and>
        ((\<forall>x\<in>cont t. cmp x e \<noteq> 0) \<longrightarrow> snd (bt_remove B e t) = e))"

lemma remove_contractD:
  assumes "remove_contract B cmp ok cont" and "ok t"
  shows btree_remove: "ok (fst (bt_remove B e t)) \<and>
      cont (fst (bt_remove B e t)) = {y \<in> cont t. cmp y e \<noteq> 0} \<and>
      (\<forall>x\<in>cont t. cmp x e = 0 \<longrightarrow> snd (bt_remove B e t) = x)"
    and btree_remove_missing: "\<forall>x\<in>cont t. cmp x e \<noteq> 0 \<Longrightarrow> snd (bt_remove B e t) = e"
proof -
  note law = assms(1) [unfolded remove_contract_def, THEN spec, THEN spec, THEN mp, OF assms(2), of e]
  show "ok (fst (bt_remove B e t)) \<and>
      cont (fst (bt_remove B e t)) = {y \<in> cont t. cmp y e \<noteq> 0} \<and>
      (\<forall>x\<in>cont t. cmp x e = 0 \<longrightarrow> snd (bt_remove B e t) = x)"
    and "\<forall>x\<in>cont t. cmp x e \<noteq> 0 \<Longrightarrow> snd (bt_remove B e t) = e"
    using law by simp_all
qed

lemma btree_contractD:
  assumes "btree_contract B cmp ok cont" and "ok t"
  shows btree_finite: "finite (cont t)"
    and btree_cmp_inj: "\<And>x y. x \<in> cont t \<Longrightarrow> y \<in> cont t \<Longrightarrow> cmp x y = 0 \<Longrightarrow> x = y"
    and btree_find: "\<And>k x. bt_find B t k = Some x \<longleftrightarrow> x \<in> cont t \<and> cmp x k = 0"
    and btree_findNext: "\<And>k x. bt_findNext B t k = Some x \<longleftrightarrow>
        x \<in> cont t \<and> cmp k x \<le> 0 \<and> (\<forall>y\<in>cont t. cmp k y \<le> 0 \<longrightarrow> cmp x y \<le> 0)"
    and btree_insert: "\<And>e. (\<forall>y\<in>cont t. cmp y e \<noteq> 0) \<Longrightarrow>
        ok (bt_insert B e t) \<and> cont (bt_insert B e t) = insert e (cont t)"
    and btree_overwrite: "\<And>e. ok (bt_overwrite B e t) \<and>
        cont (bt_overwrite B e t) = insert e {y \<in> cont t. cmp y e \<noteq> 0}"
proof -
  note laws = assms(1) [unfolded btree_contract_def]
  note laws1 = laws [THEN conjunct2] note laws2 = laws1 [THEN conjunct2]
  note laws3 = laws2 [THEN conjunct2] note laws4 = laws3 [THEN conjunct2]
  show "finite (cont t)"
    using laws [THEN conjunct1] assms(2) by simp
  show "\<And>x y. x \<in> cont t \<Longrightarrow> y \<in> cont t \<Longrightarrow> cmp x y = 0 \<Longrightarrow> x = y"
    using laws [THEN conjunct1] assms(2) by simp
  show "\<And>k x. bt_find B t k = Some x \<longleftrightarrow> x \<in> cont t \<and> cmp x k = 0"
    by (rule laws1 [THEN conjunct1, rule_format, OF assms(2)])
  show "\<And>k x. bt_findNext B t k = Some x \<longleftrightarrow>
      x \<in> cont t \<and> cmp k x \<le> 0 \<and> (\<forall>y\<in>cont t. cmp k y \<le> 0 \<longrightarrow> cmp x y \<le> 0)"
    by (rule laws2 [THEN conjunct1, THEN spec, THEN spec, THEN spec, THEN mp, OF assms(2)])
  show "\<And>e. (\<forall>y\<in>cont t. cmp y e \<noteq> 0) \<Longrightarrow>
      ok (bt_insert B e t) \<and> cont (bt_insert B e t) = insert e (cont t)"
    using laws3 [THEN conjunct1] assms(2) by simp
  show "\<And>e. ok (bt_overwrite B e t) \<and>
      cont (bt_overwrite B e t) = insert e {y \<in> cont t. cmp y e \<noteq> 0}"
    using laws4 assms(2) by simp
qed

text \<open>
  A list that keeps one element per key is a model of the contract (shown below for every
  comparison function of the library); it is used to evaluate concrete examples.
\<close>

definition list_findNext :: "('e \<Rightarrow> 'e \<Rightarrow> int) \<Rightarrow> 'e list \<Rightarrow> 'e \<Rightarrow> 'e option" where
  "list_findNext cmp t k =
     foldr (\<lambda>x best. if cmp k x \<le> 0
                     then (case best of None \<Rightarrow> Some x
                                      | Some y \<Rightarrow> Some (if cmp x y \<le> 0 then x else y))
                     else best) t None"

definition list_btree :: "('e \<Rightarrow> 'e \<Rightarrow> int) \<Rightarrow> ('e list, 'e) btree_ops" where
  "list_btree cmp =
     \<lparr>bt_find = (\<lambda>t k. List.find (\<lambda>x. cmp x k = 0) t),
      bt_findNext = list_findNext cmp,
      bt_insert = (\<lambda>e t. e # t),
      bt_overwrite = (\<lambda>e t. e # filter (\<lambda>y. cmp y e \<noteq> 0) t),
      bt_remove = (\<lambda>e t. (filter (\<lambda>y. cmp y e \<noteq> 0) t,
                          case List.find (\<lambda>x. cmp x e = 0) t of None \<Rightarrow> e | Some x \<Rightarrow> x))\<rparr>"

definition one_per_key :: "('e \<Rightarrow> 'e \<Rightarrow> int) \<Rightarrow> 'e list \<Rightarrow> bool" where
  "one_per_key cmp t \<longleftrightarrow> (\<forall>x\<in>set t. \<forall>y\<in>set t. cmp x y = 0 \<longrightarrow> x = y)"

lemma one_per_key_Nil [simp]: "one_per_key cmp []"
  by (simp add: one_per_key_def)

subsection \<open>Comparison functions that follow a numeric key\<close>

locale key_order =
  fixes cmp :: "'e \<Rightarrow> 'e \<Rightarrow> int"
    and key :: "'e \<Rightarrow> nat"
  assumes cmp_key:
    "cmp x y = (if key x < key y then - 1 else if key y < key x then 1 else 0)"
begin

lemma cmp_eq_0: "cmp x y = 0 \<longleftrightarrow> key x = key y"
  by (simp add: cmp_key)

lemma cmp_le_0: "cmp x y \<le> 0 \<longleftrightarrow> key x \<le> key y"
  by (simp add: cmp_key)

lemma sorted_wrt_cmp:
  assumes "sorted (map key es)" and "distinct es" and "inj_on key (set es)"
  shows "sorted_wrt (\<lambda>a b. cmp a b = - 1) es"
proof -
  have "sorted_wrt (\<lambda>a b. key a < key b) es"
    using assms by (induction es) (auto simp: order_less_le)
  then show ?thesis by (rule sorted_wrt_mono_rel [rotated]) (simp add: cmp_key)
qed

lemma list_findNext_Cons:
  "list_findNext cmp (a # t) k =
     (if key k \<le> key a
      then (case list_findNext cmp t k of None \<Rightarrow> Some a
                                        | Some y \<Rightarrow> Some (if key a \<le> key y then a else y))
      else list_findNext cmp t k)"
  by (simp add: list_findNext_def cmp_le_0 split: option.split)

lemma list_findNext_Nil: "list_findNext cmp [] k = None"
  by (simp add: list_findNext_def)

lemma list_findNext_None:
  "list_findNext cmp t k = None \<longleftrightarrow> (\<forall>y\<in>set t. key y < key k)"
  by (induction t) (auto simp: list_findNext_Cons list_findNext_Nil split: option.splits)

lemma list_findNext_Some:
  "list_findNext cmp t k = Some x \<Longrightarrow>
     x \<in> set t \<and> key k \<le> key x \<and> (\<forall>y\<in>set t. key k \<le> key y \<longrightarrow> key x \<le> key y)"
proof (induction t arbitrary: x)
  case Nil
  then show ?case by (simp add: list_findNext_Nil)
next
  case (Cons a t)
  show ?case
  proof (cases "list_findNext cmp t k")
    case None
    then show ?thesis
      using Cons.prems list_findNext_None [of t k]
      by (auto simp: list_findNext_Cons split: if_splits)
  next
    case (Some y)
    from Cons.IH [OF this] Some show ?thesis
      using Cons.prems by (auto simp: list_findNext_Cons split: if_splits)
  qed
qed

lemma list_find_key:
  assumes "one_per_key cmp t"
  shows "List.find (\<lambda>x. cmp x k = 0) t = Some x \<longleftrightarrow> x \<in> set t \<and> cmp x k = 0"
proof
  assume "List.find (\<lambda>x. cmp x k = 0) t = Some x"
  then show "x \<in> set t \<and> cmp x k = 0" by (auto simp: find_Some_iff)
next
  assume x: "x \<in> set t \<and> cmp x k = 0"
  then obtain z where z: "List.find (\<lambda>x. cmp x k = 0) t = Some z"
    by (cases "List.find (\<lambda>x. cmp x k = 0) t") (auto simp: find_None_iff)
  then have "z \<in> set t" and "cmp z k = 0" by (auto simp: find_Some_iff)
  with x assms have "z = x" by (simp add: one_per_key_def cmp_eq_0)
  with z show "List.find (\<lambda>x. cmp x k = 0) t = Some x" by simp
qed

lemma list_findNext_least:
  assumes "one_per_key cmp t"
  shows "list_findNext cmp t k = Some x \<longleftrightarrow>
      x \<in> set t \<and> cmp k x \<le> 0 \<and> (\<forall>y\<in>set t. cmp k y \<le> 0 \<longrightarrow> cmp x y \<le> 0)" (is "_ = ?least x")
proof
  assume "list_findNext cmp t k = Some x"
  then show "?least x"
    using list_findNext_Some [of t k x] by (simp add: cmp_le_0)
next
  assume least: "?least x"
  then obtain z where z: "list_findNext cmp t k = Some z"
    using list_findNext_None [of t k]
    by (cases "list_findNext cmp t k") (auto simp: cmp_le_0 not_less)
  from list_findNext_Some [OF z] least have "z \<in> set t" and "cmp z x = 0"
    by (auto simp: cmp_le_0 cmp_eq_0 intro: le_antisym)
  with least assms have "z = x" by (simp add: one_per_key_def)
  with z show "list_findNext cmp t k = Some x" by simp
qed

lemma list_btree_remove: "remove_contract (list_btree cmp) cmp (one_per_key cmp) set"
  unfolding remove_contract_def list_btree_def btree_ops.simps
proof (intro conjI allI impI)
  fix t e
  assume "one_per_key cmp t"
  then have "List.find (\<lambda>x. cmp x e = 0) t = Some x" if "x \<in> set t" and "cmp x e = 0" for x
    using that by (simp add: list_find_key)
  then show "\<forall>x\<in>set t. cmp x e = 0 \<longrightarrow>
      snd (filter (\<lambda>y. cmp y e \<noteq> 0) t,
           case List.find (\<lambda>x. cmp x e = 0) t of None \<Rightarrow> e | Some x \<Rightarrow> x) = x"
    by simp
next
  fix t e
  assume "\<forall>x\<in>set t. cmp x e \<noteq> 0"
  then have "List.find (\<lambda>x. cmp x e = 0) t = None" by (simp add: find_None_iff)
  then show "snd (filter (\<lambda>y. cmp y e \<noteq> 0) t,
      case List.find (\<lambda>x. cmp x e = 0) t of None \<Rightarrow> e | Some x \<Rightarrow> x) = e" by simp
qed (auto simp: one_per_key_def)

lemma list_btree_contract: "btree_contract (list_btree cmp) cmp (one_per_key cmp) set"
  unfolding btree_contract_def list_btree_def btree_ops.simps
proof (intro conjI allI impI)
  fix t k x
  assume "one_per_key cmp t"
  then show "(List.find (\<lambda>x. cmp x k = 0) t = Some x) = (x \<in> set t \<and> cmp x k = 0)"
    and "(list_findNext cmp t k = Some x) =
      (x \<in> set t \<and> cmp k x \<le> 0 \<and> (\<forall>y\<in>set t. cmp k y \<le> 0 \<longrightarrow> cmp x y \<le> 0))"
    by (rule list_find_key, rule list_findNext_least)
qed (auto simp: one_per_key_def cmp_eq_0)

end

subsection \<open>Cursor loops over a tree\<close>

text \<open>
  The elements a cursor loop meets from a cursor on, in ascending key order.
\<close>

definition entries_from :: "('e \<Rightarrow> nat) \<Rightarrow> 'e set \<Rightarrow> 'e \<Rightarrow> 'e list" where
  "entries_from key A c = listed_by key {x \<in> A. key c \<le> key x}"

lemma entries_from_props:
  assumes "finite A" and "inj_on key A"
  shows "set (entries_from key A c) = {x \<in> A. key c \<le> key x}"
    and "sorted (map key (entries_from key A c))"
    and "distinct (entries_from key A c)"
  using assms inj_on_subset [OF assms(2), of "{x \<in> A. key c \<le> key x}"]
  by (auto simp: entries_from_def set_listed_by sorted_listed_by distinct_listed_by)

locale key_cursor = key_order +
  fixes advance :: "'e \<Rightarrow> 'e"
    and top :: nat
  assumes key_advance: "key x < top \<Longrightarrow> key (advance x) = Suc (key x)"
begin

lemma contract_inj:
  "btree_contract B cmp ok cont \<Longrightarrow> ok t \<Longrightarrow> inj_on key (cont t)"
  by (auto simp: inj_on_def dest: btree_cmp_inj simp: cmp_eq_0)

lemma entries_from_contract:
  assumes "btree_contract B cmp ok cont" and "ok t"
  shows "set (entries_from key (cont t) c) = {x \<in> cont t. key c \<le> key x}"
    and "sorted (map key (entries_from key (cont t) c))"
    and "sorted_wrt (\<lambda>a b. cmp a b = - 1) (entries_from key (cont t) c)"
proof -
  note fin = btree_finite [OF assms] and inj = contract_inj [OF assms]
  show es: "set (entries_from key (cont t) c) = {x \<in> cont t. key c \<le> key x}"
    and "sorted (map key (entries_from key (cont t) c))"
    using entries_from_props [OF fin inj] by auto
  show "sorted_wrt (\<lambda>a b. cmp a b = - 1) (entries_from key (cont t) c)"
    using entries_from_props [OF fin inj] inj_on_subset [OF inj] by (intro sorted_wrt_cmp) (auto simp: es)
qed

text \<open>
  A cursor loop ends and behaves as the loop over the sorted list of the elements at or
  above its cursor, provided no stored element has the highest key of the type (where
  \<open>advance\<close> wraps around).
\<close>

lemma scan_loop_entries:
  assumes bt: "btree_contract B cmp ok cont" and ok: "ok t"
    and below: "\<And>x. x \<in> cont t \<Longrightarrow> key x < top"
  shows "scan_loop (bt_findNext B t) stop body advance c acc =
           Some (run_stop stop body (entries_from key (cont t) c) acc)"
proof (induction "card {x \<in> cont t. key c \<le> key x}" arbitrary: c acc rule: less_induct)
  case less
  let ?A = "{x \<in> cont t. key c \<le> key x}"
  note fin = btree_finite [OF bt ok] and inj = contract_inj [OF bt ok]
  show ?case
  proof (cases "bt_findNext B t c")
    case None
    then have "?A = {}"
    proof (rule_tac ccontr)
      assume "bt_findNext B t c = None" and "?A \<noteq> {}"
      with fin obtain x where "x \<in> ?A" and "\<forall>y\<in>?A. key x \<le> key y"
        using arg_min_if_finite(1) [of ?A key] arg_min_least [of ?A _ key] by auto
      then have "bt_findNext B t c = Some x"
        by (auto simp: btree_findNext [OF bt ok] cmp_le_0)
      with None show False by simp
    qed
    then have "entries_from key (cont t) c = []"
      unfolding entries_from_def by (simp only: listed_by_empty)
    with None show ?thesis by (simp add: scan_loop.simps)
  next
    case (Some e)
    then have e: "e \<in> ?A" and least: "\<And>y. y \<in> ?A \<Longrightarrow> key e \<le> key y"
      by (auto simp: btree_findNext [OF bt ok] cmp_le_0)
    have key: "key (advance e) = Suc (key e)"
      using e below by (intro key_advance) auto
    have rest: "{x \<in> cont t. key (advance e) \<le> key x} = {y \<in> ?A. key e < key y}"
      using key e by auto
    have "entries_from key (cont t) c = e # entries_from key (cont t) (advance e)"
      unfolding entries_from_def rest
      using fin inj_on_subset [OF inj, of ?A] e least by (intro listed_by_least) auto
    moreover have "card {x \<in> cont t. key (advance e) \<le> key x} < card ?A"
      unfolding rest using fin e by (intro psubset_card_mono) auto
    ultimately show ?thesis
      using Some less [of "advance e"] by (subst scan_loop.simps) simp
  qed
qed

end

end
