(* ===== verification/BlockTimestampTracker.thy ===== *)
theory BlockTimestampTracker
  imports Ordered_Store
begin

text \<open>
  \<^verbatim>\<open>src/storage/BlockTimestampTracker.{h,cpp}\<close>: the persistent index from block timestamps
  to block numbers.  The B-tree it is stored in is the parameter \<open>B\<close>; the tracker's state
  is the tree.  The entry type, its ordering and successor, \<open>addBlock\<close> and the window
  query are modelled; the mutex that serialises the two operations is not (each operation
  is one atomic step).
\<close>

record block_timestamp_entry_t =
  ts_timestamp :: u64
  ts_blockNumber :: u64

definition ts_compare :: "block_timestamp_entry_t \<Rightarrow> block_timestamp_entry_t \<Rightarrow> int" where
  "ts_compare a b =
     (if ts_timestamp a < ts_timestamp b then - 1
      else if ts_timestamp a > ts_timestamp b then 1
      else if ts_blockNumber a < ts_blockNumber b then - 1
      else if ts_blockNumber a > ts_blockNumber b then 1
      else 0)"

definition ts_successor :: "block_timestamp_entry_t \<Rightarrow> block_timestamp_entry_t" where
  "ts_successor s =
     (if ts_blockNumber s \<noteq> - 1 then s\<lparr>ts_blockNumber := ts_blockNumber s + 1\<rparr>
      else let s' = s\<lparr>ts_blockNumber := 0\<rparr>
           in if ts_timestamp s' \<noteq> - 1 then s'\<lparr>ts_timestamp := ts_timestamp s' + 1\<rparr> else s')"

definition tracker_addBlock ::
  "('t, block_timestamp_entry_t) btree_ops \<Rightarrow> u64 \<Rightarrow> u64 \<Rightarrow> 't \<Rightarrow> 't" where
  "tracker_addBlock B stamp blk index =
     bt_insert B \<lparr>ts_timestamp = stamp, ts_blockNumber = blk\<rparr> index"

definition getBlocksInWindow ::
  "('t, block_timestamp_entry_t) btree_ops \<Rightarrow> 't \<Rightarrow> u64 \<Rightarrow> u64 \<Rightarrow> u64 list option" where
  "getBlocksInWindow B index startMillis endMillis =
     scan_loop (bt_findNext B index)
       (\<lambda>cursor _. ts_timestamp cursor > endMillis)
       (\<lambda>cursor results. results @ [ts_blockNumber cursor])
       ts_successor
       \<lparr>ts_timestamp = startMillis, ts_blockNumber = 0\<rparr> []"

text \<open>An entry read as one 128-bit number; the ordering of entries is the ordering of these.\<close>

definition ts_key :: "block_timestamp_entry_t \<Rightarrow> nat" where
  "ts_key e = unat (ts_timestamp e) * 2 ^ 64 + unat (ts_blockNumber e)"

definition ts_top :: nat where
  "ts_top = (2 ^ 64 - 1) * 2 ^ 64 + (2 ^ 64 - 1)"

lemma ts_key_less:
  "ts_key a < ts_key b \<longleftrightarrow> ts_timestamp a < ts_timestamp b \<or>
     ts_timestamp a = ts_timestamp b \<and> ts_blockNumber a < ts_blockNumber b"
  using unat_u64_bound [of "ts_blockNumber a"] unat_u64_bound [of "ts_blockNumber b"]
  by (simp add: ts_key_def digits_less word_to_nat)

lemma ts_key_eq: "ts_key a = ts_key b \<longleftrightarrow> a = b"
  using unat_u64_bound [of "ts_blockNumber a"] unat_u64_bound [of "ts_blockNumber b"]
  by (cases a; cases b) (simp add: ts_key_def digits_eq word_to_nat)

interpretation ts: key_order ts_compare ts_key
proof unfold_locales
  fix a b
  show "ts_compare a b = (if ts_key a < ts_key b then - 1 else if ts_key b < ts_key a then 1 else 0)"
    unfolding ts_compare_def ts_key_less
    by (cases "ts_timestamp a" "ts_timestamp b" rule: linorder_cases) auto
qed

interpretation ts: key_cursor ts_compare ts_key ts_successor ts_top
proof unfold_locales
  fix s
  assume below: "ts_key s < ts_top"
  show "ts_key (ts_successor s) = Suc (ts_key s)"
  proof (cases "ts_blockNumber s = - 1")
    case False
    then show ?thesis by (simp add: ts_successor_def ts_key_def unat_inc)
  next
    case True
    with below have "ts_timestamp s \<noteq> - 1" by (auto simp: ts_key_def ts_top_def)
    with True show ?thesis by (simp add: ts_successor_def ts_key_def unat_inc)
  qed
qed

lemma ts_key_max: "ts_key e = ts_top \<longleftrightarrow> e = \<lparr>ts_timestamp = - 1, ts_blockNumber = - 1\<rparr>"
  using ts_key_eq [of e "\<lparr>ts_timestamp = - 1, ts_blockNumber = - 1\<rparr>"]
  by (simp add: ts_key_def ts_top_def)

lemma ts_key_le_top: "ts_key e \<le> ts_top"
  using unat_u64_bound [of "ts_timestamp e"] unat_u64_bound [of "ts_blockNumber e"]
  by (simp add: ts_key_def ts_top_def)

subsection \<open>The window query\<close>

definition in_window :: "u64 \<Rightarrow> u64 \<Rightarrow> block_timestamp_entry_t \<Rightarrow> bool" where
  "in_window startMillis endMillis e \<longleftrightarrow>
     startMillis \<le> ts_timestamp e \<and> ts_timestamp e \<le> endMillis"

lemma window_entries:
  assumes "finite A"
  shows "filter (\<lambda>e. ts_timestamp e \<le> t)
           (entries_from ts_key A \<lparr>ts_timestamp = s, ts_blockNumber = 0\<rparr>) =
         listed_by ts_key {e \<in> A. in_window s t e}" (is "?xs = listed_by ts_key ?W")
proof -
  have inj: "inj_on ts_key B" for B by (simp add: inj_on_def ts_key_eq)
  have from_start: "ts_key \<lparr>ts_timestamp = s, ts_blockNumber = 0\<rparr> \<le> ts_key e \<longleftrightarrow> s \<le> ts_timestamp e" for e
    using ts_key_less [of e "\<lparr>ts_timestamp = s, ts_blockNumber = 0\<rparr>"] by (auto simp: not_less [symmetric])
  have "set ?xs = ?W"
    using entries_from_props(1) [OF assms inj] by (auto simp: from_start in_window_def)
  moreover have "sorted (map ts_key ?xs)" and "distinct ?xs"
    using entries_from_props(2,3) [OF assms inj] by (auto intro: sorted_filter)
  ultimately show ?thesis
    using listed_by_unique [of ts_key ?xs] inj by auto
qed

lemma window_query:
  assumes "btree_contract B ts_compare ok cont" and "ok index"
    and "\<lparr>ts_timestamp = - 1, ts_blockNumber = - 1\<rparr> \<notin> cont index"
  shows "getBlocksInWindow B index startMillis endMillis =
           Some (map ts_blockNumber
             (listed_by ts_key {e \<in> cont index. in_window startMillis endMillis e}))"
proof -
  let ?c = "\<lparr>ts_timestamp = startMillis, ts_blockNumber = 0\<rparr>"
  have fin: "finite (cont index)" by (rule btree_finite [OF assms(1,2)])
  have below: "ts_key e < ts_top" if "e \<in> cont index" for e
    using that assms(3) ts_key_le_top [of e] ts_key_max [of e] by (cases "ts_key e = ts_top") auto
  have "sorted (map ts_timestamp (entries_from ts_key (cont index) ?c))"
  proof (rule sorted_map_mono)
    show "sorted (map ts_key (entries_from ts_key (cont index) ?c))"
      using fin by (intro entries_from_props(2)) (auto simp: inj_on_def ts_key_eq)
    show "ts_timestamp a \<le> ts_timestamp b" if "ts_key a \<le> ts_key b" for a b
      using that ts_key_less [of b a] by (auto simp: not_less [symmetric])
  qed
  then have "takeWhile (\<lambda>e. ts_timestamp e \<le> endMillis) (entries_from ts_key (cont index) ?c) =
      filter (\<lambda>e. ts_timestamp e \<le> endMillis) (entries_from ts_key (cont index) ?c)"
    by (rule takeWhile_sorted_filter) auto
  then show ?thesis
    using run_stop_collect [of "\<lambda>e. endMillis < ts_timestamp e" "\<lambda>_. True" ts_blockNumber
        "entries_from ts_key (cont index) ?c" "[]"]
    by (simp add: getBlocksInWindow_def ts.scan_loop_entries [OF assms(1,2) below] not_less
        window_entries [OF fin])
qed

lemma inj_on_ts_key [simp]: "inj_on ts_key A"
  by (simp add: inj_on_def ts_key_eq)

text \<open>
  C18 (BlockTimestampTracker.getBlocksInWindow_exact): on any tree that holds no entry at the very top of the key
  space, \<open>getBlocksInWindow\<close> terminates and returns the block numbers of exactly the
  entries whose timestamp lies in \<open>[startMillis, endMillis]\<close>, each once, in strictly
  ascending order of the tracker's own comparison (timestamp, then block number).
\<close>

theorem getBlocksInWindow_exact:
  assumes "btree_contract B ts_compare ok cont" and "ok index"
    and "\<lparr>ts_timestamp = - 1, ts_blockNumber = - 1\<rparr> \<notin> cont index"
  shows "\<exists>es. getBlocksInWindow B index startMillis endMillis = Some (map ts_blockNumber es) \<and>
      set es = {e \<in> cont index. startMillis \<le> ts_timestamp e \<and> ts_timestamp e \<le> endMillis} \<and>
      sorted_wrt (\<lambda>a b. ts_compare a b = - 1) es"
proof -
  let ?es = "listed_by ts_key {e \<in> cont index. in_window startMillis endMillis e}"
  have "finite {e \<in> cont index. in_window startMillis endMillis e}"
    using btree_finite [OF assms(1,2)] by simp
  then have "set ?es = {e \<in> cont index. in_window startMillis endMillis e}"
    and "sorted_wrt (\<lambda>a b. ts_compare a b = - 1) ?es"
    by (simp_all add: set_listed_by ts.sorted_wrt_cmp sorted_listed_by distinct_listed_by)
  with window_query [OF assms] show ?thesis
    by (intro exI [of _ ?es]) (auto simp: in_window_def)
qed

text \<open>
  (tracker records block): a block recorded by \<open>addBlock\<close> is found by a window query
  exactly when its timestamp lies in the window, and every other answer is unchanged.
\<close>

theorem tracker_records_block:
  assumes "btree_contract B ts_compare ok cont" and "ok index"
    and "\<lparr>ts_timestamp = - 1, ts_blockNumber = - 1\<rparr> \<notin> cont index"
    and "\<lparr>ts_timestamp = stamp, ts_blockNumber = blk\<rparr> \<notin> cont index"
    and "stamp \<noteq> - 1"
  shows "\<exists>before after.
     getBlocksInWindow B index s t = Some before \<and>
     getBlocksInWindow B (tracker_addBlock B stamp blk index) s t = Some after \<and>
     set after = set before \<union> (if s \<le> stamp \<and> stamp \<le> t then {blk} else {})"
proof -
  let ?e = "\<lparr>ts_timestamp = stamp, ts_blockNumber = blk\<rparr>"
  have new: "\<forall>y\<in>cont index. ts_compare y ?e \<noteq> 0"
    using assms(4) by (auto simp: ts.cmp_eq_0 ts_key_eq)
  note ins = btree_insert [OF assms(1,2) new]
  have fin: "finite (cont index)" by (rule btree_finite [OF assms(1,2)])
  have "getBlocksInWindow B (tracker_addBlock B stamp blk index) s t =
      Some (map ts_blockNumber (listed_by ts_key {e \<in> insert ?e (cont index). in_window s t e}))"
    unfolding tracker_addBlock_def
    using window_query [OF assms(1), of "bt_insert B ?e index" s t] ins assms(3,5) by auto
  moreover have "{e \<in> insert ?e (cont index). in_window s t e} =
      {e \<in> cont index. in_window s t e} \<union> (if s \<le> stamp \<and> stamp \<le> t then {?e} else {})"
    by (auto simp: in_window_def)
  ultimately show ?thesis
    using window_query [OF assms(1-3), of s t] fin by (auto simp: set_listed_by)
qed

text \<open>
  (window query diverges at top): \<open>successor\<close> wraps the block number of the greatest
  entry back to 0 instead of signalling the end, so a tracker that holds an entry with the
  greatest timestamp and the greatest block number never finishes a query that is open to
  the right: the loop finds entries of that timestamp for ever.
\<close>

theorem window_query_diverges_at_top:
  assumes "btree_contract B ts_compare ok cont" and "ok index"
    and "\<lparr>ts_timestamp = - 1, ts_blockNumber = - 1\<rparr> \<in> cont index"
  shows "getBlocksInWindow B index startMillis (- 1) = None"
  unfolding getBlocksInWindow_def
proof (rule scan_loop_diverges [where I = "\<lambda>_. True"])
  let ?top = "\<lparr>ts_timestamp = - 1, ts_blockNumber = - 1\<rparr> :: block_timestamp_entry_t"
  fix c acc
  let ?A = "{x \<in> cont index. ts_key c \<le> ts_key x}"
  have "?top \<in> ?A" using assms(3) ts_key_le_top [of c] ts_key_max [of ?top] by auto
  moreover have "finite ?A" using btree_finite [OF assms(1,2)] by simp
  ultimately obtain e where "e \<in> ?A" and "\<forall>y\<in>?A. ts_key e \<le> ts_key y"
    using arg_min_if_finite(1) [of ?A ts_key] arg_min_least [of ?A _ ts_key] by auto
  then have "bt_findNext B index c = Some e"
    by (auto simp: btree_findNext [OF assms(1,2)] ts.cmp_le_0)
  moreover have "\<not> ts_timestamp e > - 1" by (simp add: word_to_nat) (use unat_u64_bound [of "ts_timestamp e"] in simp)
  ultimately show "\<exists>e. bt_findNext B index c = Some e \<and> \<not> ts_timestamp e > - 1 \<and> True"
    by blast
qed simp

subsection \<open>Witnesses\<close>

abbreviation sample_tracker :: "block_timestamp_entry_t list" where
  "sample_tracker \<equiv>
     [\<lparr>ts_timestamp = 9, ts_blockNumber = 1\<rparr>, \<lparr>ts_timestamp = 5, ts_blockNumber = 0\<rparr>]"

lemma sample_tracker_ok: "one_per_key ts_compare sample_tracker"
  by (simp add: one_per_key_def ts_compare_def)

theorem getBlocksInWindow_exact_witness:
  "\<exists>es. getBlocksInWindow (list_btree ts_compare) sample_tracker 6 10 = Some (map ts_blockNumber es) \<and>
     set es = {\<lparr>ts_timestamp = 9, ts_blockNumber = 1\<rparr>}"
proof -
  have "{e \<in> set sample_tracker. 6 \<le> ts_timestamp e \<and> ts_timestamp e \<le> 10} =
      {\<lparr>ts_timestamp = 9, ts_blockNumber = 1\<rparr>}" by auto
  then show ?thesis
    using getBlocksInWindow_exact
      [OF ts.list_btree_contract sample_tracker_ok, of 6 10] by auto
qed

theorem tracker_records_block_witness:
  "\<exists>before after.
     getBlocksInWindow (list_btree ts_compare) sample_tracker 6 10 = Some before \<and>
     getBlocksInWindow (list_btree ts_compare)
       (tracker_addBlock (list_btree ts_compare) 7 2 sample_tracker) 6 10 = Some after \<and>
     set after = set before \<union> {2}"
  using tracker_records_block [OF ts.list_btree_contract sample_tracker_ok, of 7 2 6 10] by simp

theorem window_query_diverges_at_top_witness:
  "getBlocksInWindow (list_btree ts_compare)
     [\<lparr>ts_timestamp = - 1, ts_blockNumber = - 1\<rparr>] 0 (- 1) = None"
  by (rule window_query_diverges_at_top [OF ts.list_btree_contract])
    (simp_all add: one_per_key_def)

end
