(* ===== verification/Registration.thy ===== *)
theory Registration
  imports Prelude
begin

text \<open>
  The numbering scheme shared by the index registry and the override registry: each
  registration of a type \<open>T\<close> gets the number of earlier registrations of \<open>T\<close> as its
  one-byte id, and the registry remembers the (type, id) slots in registration order.  The
  locale \<open>slot_registry\<close> is that contract; the two registries interpret it in their own
  theories.  A C++ type argument \<open>T\<close> is represented by its \<open>TypeKey\<close>
  (\<^verbatim>\<open>src/blockchain/TypeKey.h\<close>: one address per type), a value of the type \<open>'k\<close>.
\<close>

type_synonym 'k slot = "'k \<times> u8"

text \<open>The slots of a sequence of registrations that follows the registrations \<open>seen\<close>.\<close>

fun number_from :: "'k list \<Rightarrow> 'k list \<Rightarrow> 'k slot list" where
  "number_from seen [] = []"
| "number_from seen (k # ks) = (k, word_of_nat (count_list seen k)) # number_from (seen @ [k]) ks"

abbreviation numbered :: "'k list \<Rightarrow> 'k slot list" where
  "numbered ks \<equiv> number_from [] ks"

lemma length_number_from [simp]: "length (number_from seen ks) = length ks"
  by (induction ks arbitrary: seen) auto

lemma map_fst_number_from [simp]: "map fst (number_from seen ks) = ks"
  by (induction ks arbitrary: seen) auto

lemma number_from_append:
  "number_from seen (ks @ ks') = number_from seen ks @ number_from (seen @ ks) ks'"
  by (induction ks arbitrary: seen) auto

lemma number_from_nth:
  "i < length ks \<Longrightarrow>
     number_from seen ks ! i = (ks ! i, word_of_nat (count_list (seen @ take i ks) (ks ! i)))"
proof (induction ks arbitrary: seen i)
  case (Cons k ks)
  then show ?case by (cases i) auto
qed simp

lemma count_list_take_mono: "i \<le> j \<Longrightarrow> count_list (take i ks) k \<le> count_list (take j ks) k"
proof -
  assume "i \<le> j"
  then have "take j ks = take i ks @ take (j - i) (drop i ks)"
    using take_add [of i "j - i" ks] by simp
  then show ?thesis by simp
qed

lemma count_list_take_le: "count_list (take i ks) k \<le> count_list ks k"
  using count_list_append [of "take i ks" "drop i ks" k] by simp

lemma count_list_take_less:
  assumes "i < length ks"
  shows "count_list (take i ks) (ks ! i) < count_list ks (ks ! i)"
proof -
  have "ks = take i ks @ ks ! i # drop (Suc i) ks" using assms by (rule id_take_nth_drop)
  then have "count_list ks (ks ! i) = count_list (take i ks @ ks ! i # drop (Suc i) ks) (ks ! i)"
    by simp
  then show ?thesis by simp
qed

text \<open>Up to 256 registrations per type the ids are the exact counts and the slots differ.\<close>

definition at_most_256 :: "'k list \<Rightarrow> bool" where
  "at_most_256 ks \<longleftrightarrow> (\<forall>k \<in> set ks. count_list ks k \<le> 256)"

lemma unat_slot_id:
  assumes "at_most_256 ks" and "i < length ks"
  shows "unat (snd (numbered ks ! i)) = count_list (take i ks) (ks ! i)"
  using assms count_list_take_less [OF assms(2)]
  by (auto simp: number_from_nth at_most_256_def unat_of_nat dest!: bspec [OF _ nth_mem])

lemma numbered_distinct:
  assumes "at_most_256 ks"
  shows "distinct (numbered ks)"
proof -
  have "numbered ks ! i \<noteq> numbered ks ! j" if "i < j" and j: "j < length ks" for i j
  proof
    assume eq: "numbered ks ! i = numbered ks ! j"
    from that have i: "i < length ks" by simp
    from eq i j have k: "ks ! i = ks ! j" by (simp add: number_from_nth)
    have "count_list (take (Suc i) ks) (ks ! i) \<le> count_list (take j ks) (ks ! i)"
      using \<open>i < j\<close> by (intro count_list_take_mono) simp
    then have "count_list (take i ks) (ks ! i) < count_list (take j ks) (ks ! j)"
      using i k by (simp add: take_Suc_conv_app_nth)
    with unat_slot_id [OF assms i] unat_slot_id [OF assms j] eq show False by simp
  qed
  then show ?thesis
    unfolding distinct_conv_nth by (metis length_number_from nat_neq_iff)
qed

subsection \<open>The registry contract\<close>

locale slot_registry =
  fixes slots :: "'r \<Rightarrow> 'k slot list"
    and register :: "'k \<Rightarrow> 'a \<Rightarrow> 'r \<Rightarrow> 'r"
    and empty :: 'r
    and good :: "'r \<Rightarrow> bool"
  assumes good_empty: "good empty"
    and slots_empty: "slots empty = []"
    and good_register: "good r \<Longrightarrow> good (register k a r)"
    and slots_register: "good r \<Longrightarrow>
      slots (register k a r) = slots r @ [(k, word_of_nat (count_list (map fst (slots r)) k))]"
begin

lemma good_register_all: "good r \<Longrightarrow> good (fold (\<lambda>(k, a). register k a) rs r)"
  by (induction rs arbitrary: r) (auto simp: good_register)

lemma slots_register_from:
  "good r \<Longrightarrow> slots (fold (\<lambda>(k, a). register k a) rs r) =
     slots r @ number_from (map fst (slots r)) (map fst rs)"
  by (induction rs arbitrary: r) (auto simp: good_register slots_register)

lemma slots_register_all: "slots (fold (\<lambda>(k, a). register k a) rs empty) = numbered (map fst rs)"
  using slots_register_from [OF good_empty, of rs] by (simp add: slots_empty)

lemma slot_ids_dense:
  "i < length rs \<Longrightarrow> slots (fold (\<lambda>(k, a). register k a) rs empty) ! i =
     (fst (rs ! i), word_of_nat (count_list (map fst (take i rs)) (fst (rs ! i))))"
  by (simp add: slots_register_all number_from_nth take_map)

lemma slots_unique:
  "at_most_256 (map fst rs) \<Longrightarrow> distinct (slots (fold (\<lambda>(k, a). register k a) rs empty))"
  by (simp add: slots_register_all numbered_distinct)

end

end
