(* ===== verification/StateOverrideRegistry.thy ===== *)
theory StateOverrideRegistry
  imports Registration
begin

text \<open>
  \<^verbatim>\<open>src/blockchain/StateOverrideRegistry.h\<close>: the registry of override-family factories.  A
  factory call builds a fresh, empty family instance; the instance type \<open>'f\<close> is the
  application's (\<^verbatim>\<open>src/blockchain/IndexOverride.h\<close>).
\<close>

record ('k, 'f) override_entry =
  oe_key :: 'k
  oe_id :: u8
  oe_factory :: "unit \<Rightarrow> 'f"

record ('k, 'f) StateOverrideRegistry =
  sor_entries :: "('k, 'f) override_entry list"
  sor_counts :: "'k \<rightharpoonup> int"

definition new_StateOverrideRegistry :: "('k, 'f) StateOverrideRegistry" where
  "new_StateOverrideRegistry = \<lparr>sor_entries = [], sor_counts = Map.empty\<rparr>"

definition registerOverride ::
  "'k \<Rightarrow> (unit \<Rightarrow> 'f) \<Rightarrow> ('k, 'f) StateOverrideRegistry \<Rightarrow> ('k, 'f) StateOverrideRegistry" where
  "registerOverride key factoryImpl reg =
     (let cnt = sor_counts reg key;
          newId = (case cnt of Some c \<Rightarrow> word_of_int c | None \<Rightarrow> 0);
          e = \<lparr>oe_key = key, oe_id = newId, oe_factory = factoryImpl\<rparr>
      in reg\<lparr>sor_counts := (sor_counts reg)(key \<mapsto> (case cnt of Some c \<Rightarrow> c + 1 | None \<Rightarrow> 1)),
             sor_entries := sor_entries reg @ [e]\<rparr>)"

definition getEntries :: "('k, 'f) StateOverrideRegistry \<Rightarrow> ('k, 'f) override_entry list" where
  "getEntries reg = sor_entries reg"

definition sor_slots :: "('k, 'f) StateOverrideRegistry \<Rightarrow> 'k slot list" where
  "sor_slots reg = map (\<lambda>e. (oe_key e, oe_id e)) (getEntries reg)"

text \<open>The counters agree with the entries.\<close>

definition sor_good :: "('k, 'f) StateOverrideRegistry \<Rightarrow> bool" where
  "sor_good reg \<longleftrightarrow> (\<forall>k. sor_counts reg k =
     (let n = count_list (map fst (sor_slots reg)) k in if n = 0 then None else Some (int n)))"

interpretation override_reg: slot_registry sor_slots registerOverride new_StateOverrideRegistry sor_good
  by unfold_locales
    (auto simp: sor_slots_def sor_good_def new_StateOverrideRegistry_def registerOverride_def
      getEntries_def Let_def split: if_splits)

definition register_overrides ::
  "('k \<times> (unit \<Rightarrow> 'f)) list \<Rightarrow> ('k, 'f) StateOverrideRegistry" where
  "register_overrides rs = fold (\<lambda>(k, f). registerOverride k f) rs new_StateOverrideRegistry"

lemma sor_slots_register_overrides: "sor_slots (register_overrides rs) = numbered (map fst rs)"
  unfolding register_overrides_def by (rule override_reg.slots_register_all)

lemma factories_register_overrides:
  fixes rs :: "('k \<times> (unit \<Rightarrow> 'f)) list"
  shows "map oe_factory (getEntries (register_overrides rs)) = map snd rs"
proof -
  have "map oe_factory (getEntries (fold (\<lambda>(k, f). registerOverride k f) rs reg)) =
      map oe_factory (getEntries reg) @ map snd rs" for reg :: "('k, 'f) StateOverrideRegistry"
    by (induction rs arbitrary: reg)
      (auto simp: registerOverride_def getEntries_def Let_def)
  then show ?thesis
    by (simp add: register_overrides_def new_StateOverrideRegistry_def getEntries_def)
qed

text \<open>
  (override ids dense): the override registry numbers the registrations of each type
  0, 1, 2, ... in registration order (as one-byte ids), and as long as no type is registered
  more than 256 times all (type, id) slots are different.
\<close>

theorem override_ids_dense:
  assumes "i < length rs"
  shows "sor_slots (register_overrides rs) ! i =
      (fst (rs ! i), word_of_nat (count_list (map fst (take i rs)) (fst (rs ! i)))) \<and>
    (at_most_256 (map fst rs) \<longrightarrow> distinct (sor_slots (register_overrides rs)))"
  unfolding register_overrides_def
  using override_reg.slot_ids_dense [OF assms] override_reg.slots_unique [of rs] by blast

theorem override_ids_dense_witness:
  "sor_slots (register_overrides [(''A'', \<lambda>_. 0), (''B'', \<lambda>_. 1), (''A'', \<lambda>_. 2 :: nat)]) ! 2 = (''A'', 1)"
  using override_ids_dense [of 2 "[(''A'', \<lambda>_. 0), (''B'', \<lambda>_. 1), (''A'', \<lambda>_. 2 :: nat)]"]
  by (simp add: take_Suc_conv_app_nth numeral_2_eq_2)

end
