(* ===== verification/StateOverride.thy ===== *)
theory StateOverride
  imports StateOverrideRegistry
begin

text \<open>
  \<^verbatim>\<open>src/blockchain/StateOverride.{h,cpp}\<close>: the bundle of override families that carries the
  pending changes of one block.  Families are held by \<open>sp\<close> handles with copy-on-write, so
  a handle is modelled by the value it refers to and an access through \<open>mut()\<close> as an update
  of that value in this bundle only.  A missing family list is a null pointer, and an id
  past its end an error.
\<close>

record ('k, 'f) StateOverride =
  so_families :: "'k \<rightharpoonup> 'f list"
  so_order :: "'k slot list"

definition add_family ::
  "('k, 'f) override_entry \<Rightarrow> ('k, 'f) StateOverride \<Rightarrow> ('k, 'f) StateOverride" where
  "add_family e s =
     (let family = (case so_families s (oe_key e) of None \<Rightarrow> [] | Some fs \<Rightarrow> fs)
      in s\<lparr>so_families := (so_families s)(oe_key e \<mapsto> family @ [oe_factory e ()]),
           so_order := so_order s @ [(oe_key e, oe_id e)]\<rparr>)"

definition new_StateOverride :: "('k, 'f) StateOverrideRegistry \<Rightarrow> ('k, 'f) StateOverride" where
  "new_StateOverride registry =
     fold add_family (getEntries registry) \<lparr>so_families = Map.empty, so_order = []\<rparr>"

text \<open>
  The loop of the copy constructor and of \<open>operator=\<close> over the slots of \<open>other\<close>, with the
  families copied so far.
\<close>

fun copy_slots ::
  "('k, 'f) StateOverride \<Rightarrow> 'k slot list \<Rightarrow> ('k \<rightharpoonup> 'f list) \<Rightarrow> ('k \<rightharpoonup> 'f list) result" where
  "copy_slots other [] fams = Inr fams"
| "copy_slots other (s # ss) fams =
     (let family = (case fams (fst s) of None \<Rightarrow> [] | Some fs \<Rightarrow> fs)
      in if length family \<le> unat (snd s)
         then (case so_families other (fst s) of
                 None \<Rightarrow> Inl Null_dereference
               | Some otherFamily \<Rightarrow>
                   bind_result (list_get otherFamily (unat (snd s)))
                     (\<lambda>f. copy_slots other ss (fams(fst s \<mapsto> family @ [f]))))
         else copy_slots other ss (fams(fst s \<mapsto> family)))"

definition copy_StateOverride :: "('k, 'f) StateOverride \<Rightarrow> ('k, 'f) StateOverride result" where
  "copy_StateOverride other =
     bind_result (copy_slots other (so_order other) Map.empty)
       (\<lambda>fams. Inr \<lparr>so_families = fams, so_order = so_order other\<rparr>)"

definition assign_StateOverride ::
  "bool \<Rightarrow> ('k, 'f) StateOverride \<Rightarrow> ('k, 'f) StateOverride \<Rightarrow> ('k, 'f) StateOverride result" where
  "assign_StateOverride same this other =
     (if same then Inr this
      else bind_result (copy_slots other (so_order other) Map.empty)
             (\<lambda>fams. Inr \<lparr>so_families = fams, so_order = so_order other\<rparr>))"

text \<open>
  \<open>override<T>(id)\<close>: the const accessor reads the family, the mutable one hands out a
  reference through which the caller updates it.
\<close>

definition override_get :: "'k \<Rightarrow> u8 \<Rightarrow> ('k, 'f) StateOverride \<Rightarrow> 'f result" where
  "override_get key slotId s =
     (case so_families s key of
        None \<Rightarrow> Inl Null_dereference
      | Some family \<Rightarrow> list_get family (unat slotId))"

definition override_mut ::
  "'k \<Rightarrow> u8 \<Rightarrow> ('f \<Rightarrow> 'f) \<Rightarrow> ('k, 'f) StateOverride \<Rightarrow> ('k, 'f) StateOverride result" where
  "override_mut key slotId g s =
     (case so_families s key of
        None \<Rightarrow> Inl Null_dereference
      | Some family \<Rightarrow>
          bind_result (list_get family (unat slotId))
            (\<lambda>f. Inr (s\<lparr>so_families := (so_families s)(key \<mapsto> family[unat slotId := g f])\<rparr>)))"

definition familySize :: "('k, 'f) StateOverride \<Rightarrow> nat" where
  "familySize s = length (so_order s)"

definition familyAt :: "nat \<Rightarrow> ('k, 'f) StateOverride \<Rightarrow> 'f result" where
  "familyAt n s = bind_result (list_get (so_order s) n) (\<lambda>sl. override_get (fst sl) (snd sl) s)"

definition familyAt_mut ::
  "nat \<Rightarrow> ('f \<Rightarrow> 'f) \<Rightarrow> ('k, 'f) StateOverride \<Rightarrow> ('k, 'f) StateOverride result" where
  "familyAt_mut n g s =
     bind_result (list_get (so_order s) n) (\<lambda>sl. override_mut (fst sl) (snd sl) g s)"

text \<open>\<open>forEachFamily\<close>: the callback may change the family and its own context.\<close>

fun forEach_slots ::
  "('k \<Rightarrow> u8 \<Rightarrow> 'f \<Rightarrow> 'c \<Rightarrow> 'f \<times> 'c) \<Rightarrow> 'k slot list \<Rightarrow> ('k, 'f) StateOverride \<Rightarrow> 'c \<Rightarrow>
   (('k, 'f) StateOverride \<times> 'c) result" where
  "forEach_slots fn [] s ctx = Inr (s, ctx)"
| "forEach_slots fn (sl # sls) s ctx =
     bind_result (override_get (fst sl) (snd sl) s) (\<lambda>f.
       bind_result (override_mut (fst sl) (snd sl) (\<lambda>f. fst (fn (fst sl) (snd sl) f ctx)) s) (\<lambda>s'.
         forEach_slots fn sls s' (snd (fn (fst sl) (snd sl) f ctx))))"

definition forEachFamily ::
  "('k \<Rightarrow> u8 \<Rightarrow> 'f \<Rightarrow> 'c \<Rightarrow> 'f \<times> 'c) \<Rightarrow> 'c \<Rightarrow> ('k, 'f) StateOverride \<Rightarrow>
   (('k, 'f) StateOverride \<times> 'c) result" where
  "forEachFamily fn ctx s = forEach_slots fn (so_order s) s ctx"

subsection \<open>Well-formed overrides\<close>

text \<open>
  The slots are the dense numbering of their types, every type has as many family instances
  as slots, and no type more than a one-byte id can count.
\<close>

definition so_wf :: "('k, 'f) StateOverride \<Rightarrow> bool" where
  "so_wf s \<longleftrightarrow>
     so_order s = numbered (map fst (so_order s)) \<and>
     at_most_256 (map fst (so_order s)) \<and>
     (\<forall>k. map_option length (so_families s k) =
        (let n = count_list (map fst (so_order s)) k in if n = 0 then None else Some n))"

lemma so_wf_slot:
  assumes "so_wf s" and "n < familySize s"
  obtains k fs i where "so_order s ! n = (k, word_of_nat i)" and "so_families s k = Some fs"
    and "i < length fs" and "i < 256" and "i = count_list (take n (map fst (so_order s))) k"
proof -
  let ?ks = "map fst (so_order s)"
  let ?k = "?ks ! n"
  let ?i = "count_list (take n ?ks) ?k"
  have n: "n < length ?ks" using assms(2) by (simp add: familySize_def)
  have less: "?i < count_list ?ks ?k" using n by (rule count_list_take_less)
  then obtain fs where fs: "so_families s ?k = Some fs" "length fs = count_list ?ks ?k"
    using assms(1) by (fastforce simp: so_wf_def Let_def split: if_splits dest: spec [of _ ?k])
  have "at_most_256 ?ks" using assms(1) by (simp add: so_wf_def)
  then have "count_list ?ks ?k \<le> 256"
    using nth_mem [OF n] unfolding at_most_256_def by blast
  moreover have "so_order s ! n = (?k, word_of_nat ?i)"
    using assms(1) number_from_nth [OF n, of "[]"] by (simp add: so_wf_def)
  ultimately show thesis using that fs less by simp
qed

lemma familyAt_wf:
  assumes "so_wf s" and "n < familySize s"
  shows "\<exists>f. familyAt n s = Inr f"
proof -
  from so_wf_slot [OF assms] obtain k fs i where
    "so_order s ! n = (k, word_of_nat i)" "so_families s k = Some fs" "i < length fs" "i < 256" by metis
  then show ?thesis
    using assms(2) by (simp add: familyAt_def familySize_def override_get_def unat_of_nat)
qed

lemma count_list_map_filter: "count_list (map g xs) k = length (filter (\<lambda>x. g x = k) xs)"
  by (induction xs) auto

lemma filter_nth_count:
  assumes "n < length xs" and "P (xs ! n)"
  shows "length (filter P (take n xs)) < length (filter P xs)"
    and "filter P xs ! length (filter P (take n xs)) = xs ! n"
proof -
  have "filter P xs = filter P (take n xs @ xs ! n # drop (Suc n) xs)"
    using id_take_nth_drop [OF assms(1)] by simp
  also have "\<dots> = filter P (take n xs) @ xs ! n # filter P (drop (Suc n) xs)"
    using assms(2) by (simp only: filter_append filter.simps if_True)
  finally show "length (filter P (take n xs)) < length (filter P xs)"
    and "filter P xs ! length (filter P (take n xs)) = xs ! n" by simp_all
qed

subsection \<open>Fresh overrides\<close>

lemma fold_add_family:
  "so_order (fold add_family es s) = so_order s @ map (\<lambda>e. (oe_key e, oe_id e)) es"
  "so_families (fold add_family es s) k =
     (let fs = map (\<lambda>e. oe_factory e ()) (filter (\<lambda>e. oe_key e = k) es)
      in if fs = [] then so_families s k
         else Some ((case so_families s k of None \<Rightarrow> [] | Some fs \<Rightarrow> fs) @ fs))"
  by (induction es arbitrary: s) (auto simp: add_family_def Let_def split: option.splits)

lemma new_StateOverride_fields:
  "so_order (new_StateOverride reg) = sor_slots reg"
  "so_families (new_StateOverride reg) k =
     (let fs = map (\<lambda>e. oe_factory e ()) (filter (\<lambda>e. oe_key e = k) (getEntries reg))
      in if fs = [] then None else Some fs)"
  by (simp_all add: new_StateOverride_def sor_slots_def fold_add_family Let_def)

lemma new_StateOverride_wf:
  assumes "at_most_256 (map fst rs)"
  shows "so_wf (new_StateOverride (register_overrides rs))"
proof -
  let ?es = "getEntries (register_overrides rs)"
  have keys: "map oe_key ?es = map fst rs"
    using arg_cong [OF sor_slots_register_overrides [of rs], of "map fst"]
    by (simp add: sor_slots_def comp_def)
  have "count_list (map fst rs) k = length (filter (\<lambda>e. oe_key e = k) ?es)" for k
    unfolding keys [symmetric] by (rule count_list_map_filter)
  with assms show ?thesis
    by (auto simp: so_wf_def new_StateOverride_fields sor_slots_register_overrides Let_def
        filter_empty_conv)
qed

lemma familyAt_new:
  assumes "at_most_256 (map fst rs)" and "n < length rs"
  shows "familyAt n (new_StateOverride (register_overrides rs)) = Inr (snd (rs ! n) ())"
proof -
  let ?es = "getEntries (register_overrides rs)"
  let ?k = "fst (rs ! n)"
  have keys: "map oe_key ?es = map fst rs"
    using arg_cong [OF sor_slots_register_overrides [of rs], of "map fst"]
    by (simp add: sor_slots_def comp_def)
  have facs: "map oe_factory ?es = map snd rs" by (rule factories_register_overrides)
  have len: "length ?es = length rs" using arg_cong [OF keys, of length] by simp
  have n: "oe_key (?es ! n) = ?k" "oe_factory (?es ! n) = snd (rs ! n)"
    using arg_cong [OF keys, of "\<lambda>xs. xs ! n"] arg_cong [OF facs, of "\<lambda>xs. xs ! n"] assms(2) len by simp_all
  have cnt: "count_list (map fst (take n rs)) ?k = length (filter (\<lambda>e. oe_key e = ?k) (take n ?es))"
    unfolding take_map [symmetric] keys [symmetric] by (simp add: take_map count_list_map_filter)
  note nth = filter_nth_count [of n ?es "\<lambda>e. oe_key e = ?k"]
  have slot: "sor_slots (register_overrides rs) ! n = (?k, word_of_nat (count_list (map fst (take n rs)) ?k))"
    using assms(2) by (simp add: sor_slots_register_overrides number_from_nth take_map)
  have "count_list (map fst (take n rs)) ?k < 256"
    using assms count_list_take_less [of n "map fst rs"]
    by (auto simp: at_most_256_def take_map dest!: bspec [OF _ nth_mem])
  then show ?thesis
    using assms(2) len n nth slot
    by (auto simp: familyAt_def override_get_def new_StateOverride_fields Let_def unat_of_nat cnt
        sor_slots_register_overrides [THEN arg_cong, of length, simplified] filter_empty_conv)
qed

subsection \<open>Copies\<close>

text \<open>What the copy loop has built after the first \<open>n\<close> slots.\<close>

definition copied_upto :: "('k, 'f) StateOverride \<Rightarrow> nat \<Rightarrow> 'k \<rightharpoonup> 'f list" where
  "copied_upto s n k =
     (let c = count_list (take n (map fst (so_order s))) k
      in if c = 0 then None else map_option (take c) (so_families s k))"

lemma copied_upto_0: "copied_upto s 0 = Map.empty"
  by (simp add: copied_upto_def fun_eq_iff)

lemma copied_upto_all: "so_wf s \<Longrightarrow> copied_upto s (length (so_order s)) = so_families s"
proof
  fix k
  assume "so_wf s"
  then have "map_option length (so_families s k) =
      (let n = count_list (map fst (so_order s)) k in if n = 0 then None else Some n)"
    by (simp add: so_wf_def)
  then show "copied_upto s (length (so_order s)) k = so_families s k"
    by (cases "so_families s k") (auto simp: copied_upto_def Let_def split: if_splits)
qed

lemma copied_upto_Suc:
  assumes "n < length (so_order s)" and "so_families s (fst (so_order s ! n)) = Some fs"
    and "i = count_list (take n (map fst (so_order s))) (fst (so_order s ! n))" and "i < length fs"
  shows "copied_upto s (Suc n) =
    (copied_upto s n)(fst (so_order s ! n) \<mapsto>
       (case copied_upto s n (fst (so_order s ! n)) of None \<Rightarrow> [] | Some xs \<Rightarrow> xs) @ [fs ! i])"
proof
  fix k
  have "take (Suc n) (map fst (so_order s)) = take n (map fst (so_order s)) @ [fst (so_order s ! n)]"
    using assms(1) by (simp add: take_Suc_conv_app_nth)
  then show "copied_upto s (Suc n) k =
    ((copied_upto s n)(fst (so_order s ! n) \<mapsto>
       (case copied_upto s n (fst (so_order s ! n)) of None \<Rightarrow> [] | Some xs \<Rightarrow> xs) @ [fs ! i])) k"
    using assms(2-4) by (auto simp: copied_upto_def Let_def take_Suc_conv_app_nth)
qed

lemma copy_slots_from:
  assumes wf: "so_wf s" and "n \<le> length (so_order s)"
  shows "copy_slots s (drop n (so_order s)) (copied_upto s n) = Inr (so_families s)"
  using assms(2)
proof (induction n rule: inc_induct)
  case base
  then show ?case using wf by (simp add: copied_upto_all)
next
  case (step n)
  then have n: "n < familySize s" by (simp add: familySize_def)
  from so_wf_slot [OF wf n] obtain k fs i where slot: "so_order s ! n = (k, word_of_nat i)"
    and fs: "so_families s k = Some fs" and i: "i < length fs" "i < 256"
      "i = count_list (take n (map fst (so_order s))) k" by metis
  have len: "length (case copied_upto s n k of None \<Rightarrow> [] | Some xs \<Rightarrow> xs) = i"
    using fs i by (simp add: copied_upto_def Let_def)
  have "drop n (so_order s) = (k, word_of_nat i) # drop (Suc n) (so_order s)"
    using step.hyps slot by (metis Cons_nth_drop_Suc)
  then have "copy_slots s (drop n (so_order s)) (copied_upto s n) =
      copy_slots s (drop (Suc n) (so_order s))
        ((copied_upto s n)(k \<mapsto> (case copied_upto s n k of None \<Rightarrow> [] | Some xs \<Rightarrow> xs) @ [fs ! i]))"
    using fs i(1,2) len by (simp add: unat_of_nat Let_def)
  also have "\<dots> = copy_slots s (drop (Suc n) (so_order s)) (copied_upto s (Suc n))"
    using copied_upto_Suc [OF step.hyps(2), of fs i] slot fs i(1,3) by (metis fst_conv)
  finally show ?case using step.IH by simp
qed

lemma copy_slots_wf: "so_wf s \<Longrightarrow> copy_slots s (so_order s) Map.empty = Inr (so_families s)"
  using copy_slots_from [of s 0] by (simp add: copied_upto_0)

definition one_type_upto :: "'k \<Rightarrow> 'f list \<Rightarrow> nat \<Rightarrow> ('k \<rightharpoonup> 'f list)" where
  "one_type_upto k fs j = (if j = 0 then Map.empty else [k \<mapsto> take (min j 256) fs])"

lemma copy_slots_one_type:
  assumes fams: "so_families other k = Some fs" and "j \<le> length fs"
  shows "copy_slots other (number_from (replicate j k) (replicate (length fs - j) k)) (one_type_upto k fs j) =
    Inr (one_type_upto k fs (length fs))"
  using assms(2)
proof (induction j rule: inc_induct)
  case base
  then show ?case by simp
next
  case (step j)
  let ?fam = "case one_type_upto k fs j k of None \<Rightarrow> [] | Some xs \<Rightarrow> xs"
  have fam: "?fam = take (min j 256) fs" by (simp add: one_type_upto_def)
  have cnt: "count_list (replicate j k) k = j" by (induction j) auto
  have cut: "replicate (length fs - j) k = k # replicate (length fs - Suc j) k"
    using step.hyps by (metis Suc_diff_Suc replicate_Suc)
  have one: "(one_type_upto k fs j)(k \<mapsto> xs) = [k \<mapsto> xs]" for xs
    by (simp add: one_type_upto_def)
  have "copy_slots other (number_from (replicate j k) (replicate (length fs - j) k)) (one_type_upto k fs j) =
      copy_slots other (number_from (replicate j k @ [k]) (replicate (length fs - Suc j) k))
        [k \<mapsto> take (min (Suc j) 256) fs]"
  proof (cases "j < 256")
    case True
    then have "unat (word_of_nat j :: u8) = j" by (simp add: unat_of_nat)
    with True show ?thesis
      using step.hyps fams fam by (simp add: cut cnt one Let_def min_def take_Suc_conv_app_nth)
  next
    case False
    then have "\<not> length ?fam \<le> unat (word_of_nat j :: u8)"
      using step.hyps fam unat_u8_bound [of "word_of_nat j"] by simp
    with False fam show ?thesis by (simp add: cut cnt one Let_def min_def)
  qed
  also have "\<dots> = copy_slots other (number_from (replicate (Suc j) k) (replicate (length fs - Suc j) k))
      (one_type_upto k fs (Suc j))"
    by (simp add: one_type_upto_def replicate_append_same)
  finally show ?case using step.IH by simp
qed

subsection \<open>Updates\<close>

lemma override_mut_Inr:
  "override_mut k i g s = Inr s' \<longleftrightarrow>
     (\<exists>fs. so_families s k = Some fs \<and> unat i < length fs \<and>
        s' = s\<lparr>so_families := (so_families s)(k \<mapsto> fs[unat i := g (fs ! unat i)])\<rparr>)"
  by (auto simp: override_mut_def list_get_def split: option.splits if_splits)

lemma override_mut_wf: "so_wf s \<Longrightarrow> override_mut k i g s = Inr s' \<Longrightarrow> so_wf s'"
  by (auto simp: override_mut_Inr so_wf_def) (metis option.map(2))

lemma override_mut_order: "override_mut k i g s = Inr s' \<Longrightarrow> so_order s' = so_order s"
  by (auto simp: override_mut_Inr)

lemma override_get_mut:
  assumes "override_mut k i g s = Inr s'"
  shows "override_get k' j s' =
    (if k' = k \<and> j = i then bind_result (override_get k i s) (\<lambda>f. Inr (g f)) else override_get k' j s)"
  using assms by (auto simp: override_mut_Inr override_get_def list_get_def word_to_nat)

lemma familyAt_mut_wf:
  assumes wf: "so_wf s" and n: "n < familySize s"
  shows "\<exists>s'. familyAt_mut n g s = Inr s' \<and> so_wf s' \<and> so_order s' = so_order s \<and>
    (\<forall>m < familySize s. familyAt m s' =
       (if m = n then bind_result (familyAt n s) (\<lambda>f. Inr (g f)) else familyAt m s))"
proof -
  have dist: "distinct (so_order s)" using wf numbered_distinct unfolding so_wf_def by metis
  obtain k i where sl: "so_order s ! n = (k, i)" by fastforce
  from familyAt_wf [OF assms] have "\<exists>f. override_get k i s = Inr f"
    using n sl by (simp add: familyAt_def familySize_def)
  then obtain s' where s': "override_mut k i g s = Inr s'"
    by (auto simp: override_get_def override_mut_def list_get_def split: option.splits if_splits)
  have "(fst (so_order s ! m) = k \<and> snd (so_order s ! m) = i) \<longleftrightarrow> m = n" if "m < familySize s" for m
    using nth_eq_iff_index_eq [OF dist, of m n] that n sl by (auto simp: familySize_def prod_eq_iff)
  then show ?thesis
    using s' n sl override_mut_wf [OF wf s'] override_mut_order [OF s'] override_get_mut [OF s']
    by (simp add: familyAt_mut_def familyAt_def familySize_def)
qed

lemma forEach_slots_read_only:
  assumes "\<And>sl. sl \<in> set sls \<Longrightarrow> \<exists>f. override_get (fst sl) (snd sl) s = Inr f"
  shows "forEach_slots (\<lambda>k i f c. (f, c @ [(k, i, f)])) sls s ctx =
    Inr (s, ctx @ map (\<lambda>sl. (fst sl, snd sl, projr (override_get (fst sl) (snd sl) s))) sls)"
  using assms
proof (induction sls arbitrary: ctx)
  case (Cons sl sls)
  then obtain f where f: "override_get (fst sl) (snd sl) s = Inr f" by (meson list.set_intros(1))
  then have "override_mut (fst sl) (snd sl) (\<lambda>f. f) s = Inr s"
    by (auto simp: override_get_def override_mut_def list_get_def map_upd_triv
        split: option.splits if_splits)
  with f Cons show ?case by simp
qed simp

subsection \<open>Properties\<close>

text \<open>
  (fresh override families): a fresh override built from the registry has one family per
  registration, and \<open>familyAt(n)\<close> is a new empty instance made by the factory of the
  \<open>n\<close>-th registration.
\<close>

theorem fresh_override_families:
  assumes "at_most_256 (map fst rs)" and "n < length rs"
  shows "familySize (new_StateOverride (register_overrides rs)) = length rs \<and>
    familyAt n (new_StateOverride (register_overrides rs)) = Inr (snd (rs ! n) ())"
  using familyAt_new [OF assms]
  by (simp add: familySize_def new_StateOverride_fields sor_slots_register_overrides)

text \<open>
  C20 (StateOverride.override_copy_identity): copying a well-formed override, with the copy constructor or
  by assignment over any other override, gives an override with the same slots and the same
  families: a fork sees exactly the pending changes of its origin.
\<close>

theorem override_copy_identity:
  assumes "so_wf s"
  shows "copy_StateOverride s = Inr s \<and> assign_StateOverride False this s = Inr s"
  using copy_slots_wf [OF assms] by (simp add: copy_StateOverride_def assign_StateOverride_def)

text \<open>
  C23 (StateOverride.override_wf_preserved): a fresh override from a registry in which no type occurs more than 256 times is
  well-formed.  On a well-formed override, a successful update through \<open>override<T>(id)\<close> and every update
  through \<open>familyAt(n)\<close> of an existing position (which always succeeds) keep it well-formed, leave the
  slots alone, change the addressed family only, and are what a later read through the same accessor
  returns.
\<close>

theorem override_wf_preserved:
  "(at_most_256 (map fst rs) \<longrightarrow> so_wf (new_StateOverride (register_overrides rs))) \<and>
   (so_wf s \<and> override_mut k i g s = Inr s' \<longrightarrow> so_wf s' \<and> so_order s' = so_order s \<and>
      override_get k i s' = bind_result (override_get k i s) (\<lambda>f. Inr (g f)) \<and>
      (\<forall>k' j. (k', j) \<noteq> (k, i) \<longrightarrow> override_get k' j s' = override_get k' j s)) \<and>
   (so_wf s \<and> n < familySize s \<longrightarrow>
      (\<exists>s'. familyAt_mut n g s = Inr s' \<and> so_wf s' \<and> so_order s' = so_order s \<and>
         (\<forall>m < familySize s. familyAt m s' =
            (if m = n then bind_result (familyAt n s) (\<lambda>f. Inr (g f)) else familyAt m s))))"
proof (intro conjI impI)
  show "so_wf (new_StateOverride (register_overrides rs))" if "at_most_256 (map fst rs)"
    using that by (rule new_StateOverride_wf)
next
  assume "so_wf s \<and> override_mut k i g s = Inr s'"
  then have wf: "so_wf s" and m: "override_mut k i g s = Inr s'" by auto
  show "so_wf s'" by (rule override_mut_wf [OF wf m])
  show "so_order s' = so_order s" by (rule override_mut_order [OF m])
  show "override_get k i s' = bind_result (override_get k i s) (\<lambda>f. Inr (g f))"
    and "\<forall>k' j. (k', j) \<noteq> (k, i) \<longrightarrow> override_get k' j s' = override_get k' j s"
    using override_get_mut [OF m] by auto
qed (use familyAt_mut_wf in blast)

text \<open>
  (forEachFamily order): on a well-formed override \<open>forEachFamily\<close> calls its callback
  exactly once per slot, in registration order, with the slot's type, id and family.
\<close>

theorem forEachFamily_order:
  assumes "so_wf s"
  shows "\<exists>visits. forEachFamily (\<lambda>k i f c. (f, c @ [(k, i, f)])) [] s = Inr (s, visits) \<and>
    length visits = familySize s \<and>
    (\<forall>n < familySize s. familyAt n s = Inr (snd (snd (visits ! n))) \<and>
       so_order s ! n = (fst (visits ! n), fst (snd (visits ! n))))"
proof -
  have get: "\<exists>f. override_get (fst (so_order s ! n)) (snd (so_order s ! n)) s = Inr f" if "n < familySize s" for n
    using familyAt_wf [OF assms that] that by (simp add: familyAt_def familySize_def)
  then have "\<exists>f. override_get (fst sl) (snd sl) s = Inr f" if "sl \<in> set (so_order s)" for sl
    using that by (metis familySize_def in_set_conv_nth)
  note visit = forEach_slots_read_only [OF this, of "so_order s" "[]"]
  have "override_get (fst (so_order s ! n)) (snd (so_order s ! n)) s =
      Inr (projr (override_get (fst (so_order s ! n)) (snd (so_order s ! n)) s))" if "n < familySize s" for n
    using get [OF that] by force
  with visit show ?thesis
    by (simp add: forEachFamily_def familySize_def familyAt_def)
qed

text \<open>
  (copy drops families): when one type is registered more than 256 times the ids wrap
  around, and a copy of a fresh override keeps only the first 256 of the type's families:
  the copy is not equal to its origin.
\<close>

theorem copy_drops_families:
  assumes "256 < n"
  shows "\<exists>s'. copy_StateOverride (new_StateOverride (register_overrides (replicate n (k, f)))) = Inr s' \<and>
    map_option length (so_families s' k) = Some 256 \<and>
    map_option length (so_families (new_StateOverride (register_overrides (replicate n (k, f)))) k) = Some n"
proof -
  let ?reg = "register_overrides (replicate n (k, f))"
  let ?s = "new_StateOverride ?reg"
  have order: "so_order ?s = numbered (replicate n k)"
    by (simp add: new_StateOverride_fields sor_slots_register_overrides)
  have keys: "map oe_key (getEntries ?reg) = replicate n k"
    using arg_cong [OF sor_slots_register_overrides [of "replicate n (k, f)"], of "map fst"]
    by (simp add: sor_slots_def comp_def)
  have all: "\<forall>e \<in> set (getEntries ?reg). oe_key e = k"
    using arg_cong [OF keys, of set] by (auto simp: set_replicate_conv_if split: if_splits)
  have len: "length (getEntries ?reg) = n" using arg_cong [OF keys, of length] by simp
  define fs where "fs = map (\<lambda>e. oe_factory e ()) (getEntries ?reg)"
  have fs: "so_families ?s k = Some fs" "length fs = n"
    using all assms len by (auto simp: new_StateOverride_fields fs_def filter_id_conv)
  have "copy_slots ?s (so_order ?s) Map.empty = Inr (one_type_upto k fs n)"
    using copy_slots_one_type [OF fs(1), of 0] fs(2) by (simp add: order one_type_upto_def)
  then show ?thesis
    using fs assms by (simp add: copy_StateOverride_def one_type_upto_def)
qed

subsection \<open>Witnesses\<close>

abbreviation sample_registrations :: "(string \<times> (unit \<Rightarrow> nat)) list" where
  "sample_registrations \<equiv> [(''A'', \<lambda>_. 10), (''B'', \<lambda>_. 20), (''A'', \<lambda>_. 30)]"

lemma sample_at_most_256: "at_most_256 (map fst sample_registrations)"
  by (simp add: at_most_256_def)

theorem fresh_override_families_witness:
  "familySize (new_StateOverride (register_overrides sample_registrations)) = 3 \<and>
   familyAt 2 (new_StateOverride (register_overrides sample_registrations)) = Inr 30"
  using fresh_override_families [OF sample_at_most_256, of 2] by simp

theorem override_copy_identity_witness:
  "copy_StateOverride (new_StateOverride (register_overrides sample_registrations)) =
     Inr (new_StateOverride (register_overrides sample_registrations))"
  using override_copy_identity [OF new_StateOverride_wf [OF sample_at_most_256]] by simp

theorem override_wf_preserved_witness:
  "(\<exists>s'. familyAt_mut 1 (\<lambda>x. x + 5) (new_StateOverride (register_overrides sample_registrations)) = Inr s' \<and> so_wf s') \<and>
   (\<exists>s'. override_mut ''A'' 1 (\<lambda>x. x + 5) (new_StateOverride (register_overrides sample_registrations)) = Inr s' \<and>
     override_get ''A'' 1 s' = Inr 35 \<and> override_get ''B'' 0 s' = Inr 20)"
proof -
  let ?s = "new_StateOverride (register_overrides sample_registrations)"
  have get: "override_get ''A'' 1 ?s = Inr 30" "override_get ''B'' 0 ?s = Inr 20"
    by (simp_all add: override_get_def new_StateOverride_fields register_overrides_def
        new_StateOverrideRegistry_def registerOverride_def getEntries_def)
  then obtain s' where s': "override_mut ''A'' 1 (\<lambda>x. x + 5) ?s = Inr s'"
    by (auto simp: override_get_def override_mut_def list_get_def split: option.splits if_splits)
  have wf: "so_wf ?s"
    using override_wf_preserved [of sample_registrations ?s "''A''" 1 "\<lambda>x. x + 5" s' 1] sample_at_most_256 by blast
  have size: "1 < familySize ?s"
    by (simp add: familySize_def new_StateOverride_fields sor_slots_register_overrides)
  from override_wf_preserved [of sample_registrations ?s "''A''" 1 "\<lambda>x. x + 5" s' 1] wf s' size get show ?thesis
    by auto
qed

theorem forEachFamily_order_witness:
  "\<exists>visits. forEachFamily (\<lambda>k i f c. (f, c @ [(k, i, f)])) []
      (new_StateOverride (register_overrides sample_registrations)) =
        Inr (new_StateOverride (register_overrides sample_registrations), visits) \<and>
     length visits = 3"
  using forEachFamily_order [OF new_StateOverride_wf [OF sample_at_most_256]]
    familyAt_new [OF sample_at_most_256, of 0]
  by (auto simp: familySize_def new_StateOverride_fields sor_slots_register_overrides)

theorem copy_drops_families_witness:
  "\<exists>s'. copy_StateOverride (new_StateOverride (register_overrides (replicate 300 (''A'', \<lambda>_. 0 :: nat)))) = Inr s' \<and>
     map_option length (so_families s' ''A'') = Some 256"
  using copy_drops_families [of 300 "''A''" "\<lambda>_. 0 :: nat"] by auto

end
