(* ===== verification/BackendRegistry.thy ===== *)
theory BackendRegistry
  imports StateOverride
begin

text \<open>
  \<^verbatim>\<open>src/blockchain/BackendRegistry.h\<close>, \<^verbatim>\<open>IndexFamily.h\<close> and the library-owned part of
  \<^verbatim>\<open>BlockchainIndex.h\<close>: the registry of index instances.  Instances are shared objects; the
  registry owns the only list of them, so the model keeps them by value and an access through
  \<open>mut()\<close> updates the instance in its family.
\<close>

text \<open>
  The fields of \<open>BlockchainIndex\<close> that the library writes (\<open>attach\<close>) and the answer of
  its virtual \<open>encodingVersion\<close>; \<open>'c\<close> is the type of catalog handles.
\<close>

record 'c BlockchainIndex =
  ix_attachedCatalog :: "'c option"
  ix_attachedIndexId :: u16
  ix_encodingVersion :: u16

definition index_attach :: "'c \<Rightarrow> u16 \<Rightarrow> 'c BlockchainIndex \<Rightarrow> 'c BlockchainIndex" where
  "index_attach catalog indexId ix =
     ix\<lparr>ix_attachedCatalog := Some catalog, ix_attachedIndexId := indexId\<rparr>"

record 'ix IndexFamily =
  if_instances :: "'ix list"

definition family_add :: "'ix \<Rightarrow> 'ix IndexFamily \<Rightarrow> 'ix IndexFamily" where
  "family_add inst fam = fam\<lparr>if_instances := if_instances fam @ [inst]\<rparr>"

definition family_instanceCount :: "'ix IndexFamily \<Rightarrow> nat" where
  "family_instanceCount fam = length (if_instances fam)"

definition family_get :: "u8 \<Rightarrow> 'ix IndexFamily \<Rightarrow> 'ix option" where
  "family_get slotId fam =
     (if unat slotId \<ge> length (if_instances fam) then None
      else Some (if_instances fam ! unat slotId))"

record ('k, 'ix) BackendRegistry =
  br_families :: "'k \<rightharpoonup> 'ix IndexFamily"
  br_entries :: "'k slot list"

definition new_BackendRegistry :: "('k, 'ix) BackendRegistry" where
  "new_BackendRegistry = \<lparr>br_families = Map.empty, br_entries = []\<rparr>"

definition registerIndex :: "'k \<Rightarrow> 'ix \<Rightarrow> ('k, 'ix) BackendRegistry \<Rightarrow> ('k, 'ix) BackendRegistry" where
  "registerIndex key inst reg =
     (case br_families reg key of
        None \<Rightarrow>
          reg\<lparr>br_families := (br_families reg)(key \<mapsto> family_add inst \<lparr>if_instances = []\<rparr>),
              br_entries := br_entries reg @ [(key, 0)]\<rparr>
      | Some fam \<Rightarrow>
          reg\<lparr>br_families := (br_families reg)(key \<mapsto> family_add inst fam),
              br_entries := br_entries reg @ [(key, word_of_nat (family_instanceCount fam))]\<rparr>)"

definition getIndex :: "'k \<Rightarrow> u8 \<Rightarrow> ('k, 'ix) BackendRegistry \<Rightarrow> 'ix option" where
  "getIndex key slotId reg =
     (case br_families reg key of None \<Rightarrow> None | Some fam \<Rightarrow> family_get slotId fam)"

definition instanceCount :: "'k \<Rightarrow> ('k, 'ix) BackendRegistry \<Rightarrow> nat" where
  "instanceCount key reg =
     (case br_families reg key of None \<Rightarrow> 0 | Some fam \<Rightarrow> family_instanceCount fam)"

definition getIndexAt :: "u16 \<Rightarrow> ('k, 'ix) BackendRegistry \<Rightarrow> 'ix option" where
  "getIndexAt persistentTypeId reg =
     (if unat persistentTypeId \<ge> length (br_entries reg) then None
      else let e = br_entries reg ! unat persistentTypeId
           in case br_families reg (fst e) of None \<Rightarrow> None | Some fam \<Rightarrow> family_get (snd e) fam)"

text \<open>\<open>getIndexAt(i).mut()\<close>: an update of the instance behind the handle.\<close>

definition updateIndexAt :: "u16 \<Rightarrow> ('ix \<Rightarrow> 'ix) \<Rightarrow> ('k, 'ix) BackendRegistry \<Rightarrow> ('k, 'ix) BackendRegistry" where
  "updateIndexAt persistentTypeId g reg =
     (case getIndexAt persistentTypeId reg of
        None \<Rightarrow> reg
      | Some ix \<Rightarrow>
          let e = br_entries reg ! unat persistentTypeId
          in reg\<lparr>br_families := (br_families reg)(fst e :=
               map_option (\<lambda>fam. fam\<lparr>if_instances := (if_instances fam)[unat (snd e) := g ix]\<rparr>)
                 (br_families reg (fst e)))\<rparr>)"

text \<open>The families hold as many instances as there are entries of their type.\<close>

definition br_good :: "('k, 'ix) BackendRegistry \<Rightarrow> bool" where
  "br_good reg \<longleftrightarrow> (\<forall>k. map_option family_instanceCount (br_families reg k) =
     (let n = count_list (map fst (br_entries reg)) k in if n = 0 then None else Some n))"

interpretation index_reg: slot_registry br_entries registerIndex new_BackendRegistry br_good
proof unfold_locales
  fix reg :: "('k, 'ix) BackendRegistry" and k inst
  assume good: "br_good reg"
  then have k: "map_option family_instanceCount (br_families reg k) =
      (let n = count_list (map fst (br_entries reg)) k in if n = 0 then None else Some n)"
    by (simp add: br_good_def)
  then show "br_entries (registerIndex k inst reg) =
      br_entries reg @ [(k, word_of_nat (count_list (map fst (br_entries reg)) k))]"
    by (auto simp: registerIndex_def Let_def split: option.splits if_splits)
  show "br_good (registerIndex k inst reg)"
    unfolding br_good_def
  proof
    fix k'
    have "map_option family_instanceCount (br_families reg k') =
        (let n = count_list (map fst (br_entries reg)) k' in if n = 0 then None else Some n)"
      using good by (simp add: br_good_def)
    with k show "map_option family_instanceCount (br_families (registerIndex k inst reg) k') =
        (let n = count_list (map fst (br_entries (registerIndex k inst reg))) k'
         in if n = 0 then None else Some n)"
      by (cases "br_families reg k"; cases "k' = k")
        (auto simp: registerIndex_def Let_def family_add_def family_instanceCount_def split: if_splits)
  qed
qed (simp_all add: br_good_def new_BackendRegistry_def)

definition register_indexes :: "('k \<times> 'ix) list \<Rightarrow> ('k, 'ix) BackendRegistry" where
  "register_indexes rs = fold (\<lambda>(k, ix). registerIndex k ix) rs new_BackendRegistry"

lemma br_entries_register_indexes: "br_entries (register_indexes rs) = numbered (map fst rs)"
  unfolding register_indexes_def by (rule index_reg.slots_register_all)

lemma br_families_register_from:
  "map_option if_instances (br_families (fold (\<lambda>(k, ix). registerIndex k ix) rs reg) k) =
     (let ixs = map snd (filter (\<lambda>r. fst r = k) rs)
      in if ixs = [] then map_option if_instances (br_families reg k)
         else Some ((case br_families reg k of None \<Rightarrow> [] | Some fam \<Rightarrow> if_instances fam) @ ixs))"
  by (induction rs arbitrary: reg)
    (auto simp: registerIndex_def family_add_def Let_def split: option.splits)

lemma br_families_register_indexes:
  "map_option if_instances (br_families (register_indexes rs) k) =
     (let ixs = map snd (filter (\<lambda>r. fst r = k) rs) in if ixs = [] then None else Some ixs)"
  by (simp add: register_indexes_def br_families_register_from new_BackendRegistry_def Let_def)

lemma getIndex_register_indexes:
  "getIndex k slotId (register_indexes rs) =
     (let ixs = map snd (filter (\<lambda>r. fst r = k) rs)
      in if unat slotId < length ixs then Some (ixs ! unat slotId) else None)"
  using br_families_register_indexes [of rs k]
  by (auto simp: getIndex_def family_get_def Let_def split: option.splits if_splits)

lemma getIndexAt_register_indexes:
  assumes "at_most_256 (map fst rs)" and "unat pid < length rs"
  shows "getIndexAt pid (register_indexes rs) = Some (snd (rs ! unat pid))"
proof -
  let ?i = "unat pid" and ?P = "\<lambda>r. fst r = fst (rs ! unat pid)"
  note nth = filter_nth_count [OF assms(2), of ?P]
  have slot: "unat (snd (numbered (map fst rs) ! ?i)) = length (filter ?P (take ?i rs))"
    using unat_slot_id [OF assms(1), of ?i] assms(2)
    by (simp add: take_map count_list_map_filter)
  have "getIndexAt pid (register_indexes rs) =
      getIndex (fst (rs ! ?i)) (snd (numbered (map fst rs) ! ?i)) (register_indexes rs)"
    using assms(2)
    by (simp add: getIndexAt_def getIndex_def br_entries_register_indexes number_from_nth split: option.split)
  also have "\<dots> = Some (snd (rs ! ?i))"
    using nth slot by (simp add: getIndex_register_indexes Let_def)
  finally show ?thesis .
qed

text \<open>Registries with exact ids, and updates of their instances.\<close>

definition br_exact :: "('k, 'ix) BackendRegistry \<Rightarrow> bool" where
  "br_exact reg \<longleftrightarrow> br_good reg \<and> br_entries reg = numbered (map fst (br_entries reg)) \<and>
     at_most_256 (map fst (br_entries reg))"

lemma br_exact_register_indexes: "at_most_256 (map fst rs) \<Longrightarrow> br_exact (register_indexes rs)"
  using index_reg.good_register_all [OF index_reg.good_empty, of rs]
  by (simp add: br_exact_def br_entries_register_indexes register_indexes_def [symmetric])

lemma updateIndexAt_exact:
  assumes ok: "br_exact reg" and g: "getIndexAt i reg = Some ix"
  shows "br_exact (updateIndexAt i g reg)" and "br_entries (updateIndexAt i g reg) = br_entries reg"
    and "getIndexAt j (updateIndexAt i g reg) = (if j = i then Some (g ix) else getIndexAt j reg)"
proof -
  let ?e = "br_entries reg ! unat i"
  have i: "unat i < length (br_entries reg)" using g by (simp add: getIndexAt_def split: if_splits)
  obtain fam where fam: "br_families reg (fst ?e) = Some fam" and slot: "unat (snd ?e) < length (if_instances fam)"
    using g i by (auto simp: getIndexAt_def family_get_def Let_def split: option.splits if_splits)
  have ix: "ix = if_instances fam ! unat (snd ?e)"
    using g i fam slot by (simp add: getIndexAt_def family_get_def)
  have upd: "updateIndexAt i g reg = reg\<lparr>br_families := (br_families reg)(fst ?e \<mapsto>
      fam\<lparr>if_instances := (if_instances fam)[unat (snd ?e) := g ix]\<rparr>)\<rparr>"
    using g fam by (simp add: updateIndexAt_def Let_def)
  show ent: "br_entries (updateIndexAt i g reg) = br_entries reg" by (simp add: upd)
  have "map_option family_instanceCount (br_families (updateIndexAt i g reg) k) =
      map_option family_instanceCount (br_families reg k)" for k
    using fam by (simp add: upd family_instanceCount_def)
  then show "br_exact (updateIndexAt i g reg)" using ok by (simp add: br_exact_def br_good_def ent)
  have dist: "distinct (br_entries reg)" using ok numbered_distinct unfolding br_exact_def by metis
  have "br_entries reg ! unat j = ?e \<longleftrightarrow> j = i" if "unat j < length (br_entries reg)"
    using nth_eq_iff_index_eq [OF dist that i] by (simp add: word_to_nat)
  then show "getIndexAt j (updateIndexAt i g reg) = (if j = i then Some (g ix) else getIndexAt j reg)"
    using i fam slot ix
    by (auto simp: getIndexAt_def ent Let_def) (auto simp: upd family_get_def prod_eq_iff nth_list_update word_to_nat split: option.splits)
qed

text \<open>
  (index registry lookup): after the registrations \<open>rs\<close>, the persistent id \<open>i\<close> gives the
  \<open>i\<close>-th registered instance (null past the end), and \<open>index<T>(id)\<close> gives the instance with
  that number among the instances of \<open>T\<close> (null when there is none), provided no type is
  registered more than 256 times.
\<close>

theorem index_registry_lookup:
  assumes "at_most_256 (map fst rs)"
  shows "getIndexAt pid (register_indexes rs) =
      (if unat pid < length rs then Some (snd (rs ! unat pid)) else None) \<and>
    getIndex k slotId (register_indexes rs) =
      (let ixs = map snd (filter (\<lambda>r. fst r = k) rs)
       in if unat slotId < length ixs then Some (ixs ! unat slotId) else None) \<and>
    instanceCount k (register_indexes rs) = count_list (map fst rs) k"
proof -
  have "instanceCount k (register_indexes rs) = count_list (map fst rs) k"
    using br_families_register_indexes [of rs k]
    by (auto simp: instanceCount_def family_instanceCount_def count_list_map_filter Let_def
        split: option.splits if_splits)
  then show ?thesis
    using getIndexAt_register_indexes [OF assms]
    by (simp add: getIndex_register_indexes getIndexAt_def br_entries_register_indexes)
qed

theorem index_registry_lookup_witness:
  "getIndexAt 1 (register_indexes [(''A'', 10 :: nat), (''B'', 20), (''A'', 30)]) = Some 20 \<and>
   getIndex ''A'' 1 (register_indexes [(''A'', 10 :: nat), (''B'', 20), (''A'', 30)]) = Some 30"
  using index_registry_lookup [of "[(''A'', 10 :: nat), (''B'', 20), (''A'', 30)]" 1 "''A''" 1]
  by (simp add: at_most_256_def)

end
