(* ===== verification/CatalogFile.thy ===== *)
theory CatalogFile
  imports Ordered_Store Transaction
begin

text \<open>
  \<^verbatim>\<open>src/storage/CatalogFile.{h,cpp}\<close>: one file of index segments.  Segment payloads lie in
  regions of the file handed out by a \<open>FreeSpaceFile\<close>; a B-tree in the same file maps
  (index id, first block, merge generation) to a segment's region.  The libexcessive parts
  are parameters: the tree (\<open>btree_ops\<close>), the region allocator, the file accesses and the
  checksum (\<open>segfile_ops\<close>).  The bytes of the tree and of the allocator are kept apart from
  the payload bytes, as the allocator keeps them apart in the file.  The sections
  that \<open>createEntry\<close> and \<open>deleteEntry\<close> run under the two mutexes of the class are definitions of
  their own; here they follow one another, in \<open>CatalogFile_Threads\<close> they interleave.
\<close>

record segment_btree_metadata_t =
  sg_blockRangeStart :: u64
  sg_blockRangeEnd :: u64
  sg_byteOffset :: u64
  sg_byteLength :: u64
  sg_checksum :: u64
  sg_mergeGeneration :: u32
  sg_indexId :: u16
  sg_encodingVersion :: u16

definition seg_compare :: "segment_btree_metadata_t \<Rightarrow> segment_btree_metadata_t \<Rightarrow> int" where
  "seg_compare a b =
     (if sg_indexId a < sg_indexId b then - 1
      else if sg_indexId a > sg_indexId b then 1
      else if sg_blockRangeStart a < sg_blockRangeStart b then - 1
      else if sg_blockRangeStart a > sg_blockRangeStart b then 1
      else if sg_mergeGeneration a < sg_mergeGeneration b then - 1
      else if sg_mergeGeneration a > sg_mergeGeneration b then 1
      else 0)"

definition seg_successor :: "segment_btree_metadata_t \<Rightarrow> segment_btree_metadata_t" where
  "seg_successor s =
     (if sg_mergeGeneration s \<noteq> - 1 then s\<lparr>sg_mergeGeneration := sg_mergeGeneration s + 1\<rparr>
      else let s = s\<lparr>sg_mergeGeneration := 0\<rparr>
           in if sg_blockRangeStart s \<noteq> - 1 then s\<lparr>sg_blockRangeStart := sg_blockRangeStart s + 1\<rparr>
              else let s = s\<lparr>sg_blockRangeStart := 0\<rparr>
                   in if sg_indexId s \<noteq> - 1 then s\<lparr>sg_indexId := sg_indexId s + 1\<rparr> else s)"

text \<open>
  \<open>rg_getFreeRegion\<close> returns an \<open>off_t\<close> (negative on failure), \<open>rg_pwrite\<close> the number of
  bytes written or -1, \<open>rg_fileSize\<close> is \<open>seek(0, SEEK_END)\<close>, \<open>rg_mmap\<close> maps a range of
  the file read-only, and \<open>rg_hash bs n\<close> is \<open>excessiveFastHash\<close> over the first \<open>n\<close>
  64-bit words.
\<close>

record ('t, 'r, 'd, 'm) segfile_ops =
  rg_getFreeRegion :: "u32 \<Rightarrow> 'r \<Rightarrow> int \<times> 'r"
  rg_markFreeRegion :: "u64 \<Rightarrow> u64 \<Rightarrow> 'r \<Rightarrow> 'r"
  rg_pwrite :: "byte list \<Rightarrow> int \<Rightarrow> 'd \<Rightarrow> int \<times> 'd"
  rg_fileSize :: "'t \<Rightarrow> 'r \<Rightarrow> 'd \<Rightarrow> u64"
  rg_mmap :: "u64 \<Rightarrow> u64 \<Rightarrow> 'd \<Rightarrow> 'm"
  rg_hash :: "byte list \<Rightarrow> nat \<Rightarrow> u64"

record ('t, 'r, 'd) CatalogFile =
  cf_fd :: 'd
  cf_regions :: 'r
  cf_segmentIndex :: 't
  cf_isSegmentBeingWritten :: bool

text \<open>
  The constructor: the allocator is opened on the file, and the tree behind the header of the
  allocator.  Opening them is code of libexcessive.
\<close>

definition new_CatalogFile ::
  "('d \<Rightarrow> 'r) \<Rightarrow> ('r \<Rightarrow> u64) \<Rightarrow> ('d \<Rightarrow> u64 \<Rightarrow> 't) \<Rightarrow> 'd \<Rightarrow> ('t, 'r, 'd) CatalogFile" where
  "new_CatalogFile openRegions getHeaderEnd openTree fd =
     (let regions = openRegions fd
      in \<lparr>cf_fd = fd, cf_regions = regions, cf_segmentIndex = openTree fd (getHeaderEnd regions),
          cf_isSegmentBeingWritten = False\<rparr>)"

text \<open>The guard object of \<open>createEntry\<close>: its destructor clears the flag on every path.\<close>

definition writer_guard ::
  "(('t, 'r, 'd) CatalogFile \<Rightarrow> unit result \<times> ('t, 'r, 'd) CatalogFile) \<Rightarrow>
   ('t, 'r, 'd) CatalogFile \<Rightarrow> unit result \<times> ('t, 'r, 'd) CatalogFile" where
  "writer_guard body cf =
     (case body (cf\<lparr>cf_isSegmentBeingWritten := True\<rparr>) of
        (r, cf') \<Rightarrow> (r, cf'\<lparr>cf_isSegmentBeingWritten := False\<rparr>))"

text \<open>
  \<open>createEntry\<close> in the sections the code runs under its locks: the region is reserved under
  \<open>appendMutex\<close>, the content is written under a shared \<open>rwMutex\<close>, and the entry is inserted under
  both mutexes.  The length is the size of the content cut to 32 bits.
\<close>

definition create_length :: "byte list \<Rightarrow> u32" where
  "create_length content = word_of_nat (length content)"

definition create_reserve ::
  "('t, 'r, 'd, 'm) segfile_ops \<Rightarrow> byte list \<Rightarrow> ('t, 'r, 'd) CatalogFile \<Rightarrow> int \<times> ('t, 'r, 'd) CatalogFile" where
  "create_reserve R content cf =
     (let (offset, regions') = rg_getFreeRegion R (create_length content) (cf_regions cf)
      in (offset, cf\<lparr>cf_regions := regions'\<rparr>))"

definition create_write ::
  "('t, 'r, 'd, 'm) segfile_ops \<Rightarrow> byte list \<Rightarrow> int \<Rightarrow> ('t, 'r, 'd) CatalogFile \<Rightarrow>
   unit result \<times> ('t, 'r, 'd) CatalogFile" where
  "create_write R content offset cf =
     (let len = create_length content;
          (written, fd') = rg_pwrite R (take (unat len) content) offset (cf_fd cf);
          cf = cf\<lparr>cf_fd := fd'\<rparr>
      in if written \<noteq> int (unat len) then (Inl Runtime_error, cf) else (Inr (), cf))"

definition create_metadata ::
  "('t, 'r, 'd, 'm) segfile_ops \<Rightarrow> u16 \<Rightarrow> u16 \<Rightarrow> u16 \<Rightarrow> u64 \<Rightarrow> u64 \<Rightarrow> byte list \<Rightarrow> int \<Rightarrow>
   segment_btree_metadata_t" where
  "create_metadata R indexId version mergeGeneration startBlock endBlock content offset =
     (let len = create_length content;
          checksum = rg_hash R content (unat (len div 8))
      in \<lparr>sg_blockRangeStart = startBlock, sg_blockRangeEnd = endBlock,
          sg_byteOffset = word_of_int offset, sg_byteLength = ucast len,
          sg_checksum = checksum, sg_mergeGeneration = ucast mergeGeneration,
          sg_indexId = indexId, sg_encodingVersion = version\<rparr>)"

definition create_insert ::
  "('t, segment_btree_metadata_t) btree_ops \<Rightarrow> segment_btree_metadata_t \<Rightarrow>
   ('t, 'r, 'd) CatalogFile \<Rightarrow> ('t, 'r, 'd) CatalogFile" where
  "create_insert B metadata cf = cf\<lparr>cf_segmentIndex := bt_insert B metadata (cf_segmentIndex cf)\<rparr>"

definition createEntry ::
  "('t, segment_btree_metadata_t) btree_ops \<Rightarrow> ('t, 'r, 'd, 'm) segfile_ops \<Rightarrow>
   u16 \<Rightarrow> u16 \<Rightarrow> u16 \<Rightarrow> u64 \<Rightarrow> u64 \<Rightarrow> byte list \<Rightarrow>
   ('t, 'r, 'd) CatalogFile \<Rightarrow> unit result \<times> ('t, 'r, 'd) CatalogFile" where
  "createEntry B R indexId version mergeGeneration startBlock endBlock content =
     writer_guard (\<lambda>cf.
       let (offset, cf) = create_reserve R content cf
       in if offset < 0 then (Inl Runtime_error, cf)
          else case create_write R content offset cf of
                 (Inl e, cf) \<Rightarrow> (Inl e, cf)
               | (Inr _, cf) \<Rightarrow>
                   (Inr (), create_insert B
                      (create_metadata R indexId version mergeGeneration startBlock endBlock content offset) cf))"

lemmas create_sections = create_length_def create_reserve_def create_write_def create_metadata_def create_insert_def

lemmas createEntry_unfold = createEntry_def writer_guard_def create_sections

text \<open>
  \<open>deleteEntry\<close> removes the entry under \<open>rwMutex\<close> and gives its region back under \<open>appendMutex\<close>.
\<close>

definition delete_key :: "u16 \<Rightarrow> u64 \<Rightarrow> u16 \<Rightarrow> segment_btree_metadata_t" where
  "delete_key indexId startBlock mergeGeneration =
     \<lparr>sg_blockRangeStart = startBlock, sg_blockRangeEnd = 0, sg_byteOffset = 0,
      sg_byteLength = 0, sg_checksum = 0, sg_mergeGeneration = ucast mergeGeneration,
      sg_indexId = indexId, sg_encodingVersion = 0\<rparr>"

definition delete_remove ::
  "('t, segment_btree_metadata_t) btree_ops \<Rightarrow> segment_btree_metadata_t \<Rightarrow>
   ('t, 'r, 'd) CatalogFile \<Rightarrow> segment_btree_metadata_t \<times> ('t, 'r, 'd) CatalogFile" where
  "delete_remove B toRemove cf =
     (let (index', removed) = bt_remove B toRemove (cf_segmentIndex cf)
      in (removed, cf\<lparr>cf_segmentIndex := index'\<rparr>))"

definition delete_free ::
  "('t, 'r, 'd, 'm) segfile_ops \<Rightarrow> segment_btree_metadata_t \<Rightarrow>
   ('t, 'r, 'd) CatalogFile \<Rightarrow> ('t, 'r, 'd) CatalogFile" where
  "delete_free R removed cf =
     cf\<lparr>cf_regions := rg_markFreeRegion R (sg_byteOffset removed) (sg_byteLength removed) (cf_regions cf)\<rparr>"

definition deleteEntry ::
  "('t, segment_btree_metadata_t) btree_ops \<Rightarrow> ('t, 'r, 'd, 'm) segfile_ops \<Rightarrow>
   u16 \<Rightarrow> u64 \<Rightarrow> u16 \<Rightarrow> ('t, 'r, 'd) CatalogFile \<Rightarrow> ('t, 'r, 'd) CatalogFile" where
  "deleteEntry B R indexId startBlock mergeGeneration cf =
     (let (removed, cf) = delete_remove B (delete_key indexId startBlock mergeGeneration) cf
      in delete_free R removed cf)"

lemmas delete_sections = delete_key_def delete_remove_def delete_free_def

definition getTotalBytes :: "('t, 'r, 'd, 'm) segfile_ops \<Rightarrow> ('t, 'r, 'd) CatalogFile \<Rightarrow> u64" where
  "getTotalBytes R cf = rg_fileSize R (cf_segmentIndex cf) (cf_regions cf) (cf_fd cf)"

definition isBusy :: "('t, 'r, 'd) CatalogFile \<Rightarrow> bool" where
  "isBusy cf = cf_isSegmentBeingWritten cf"

definition openEntry ::
  "'m mmap_ops \<Rightarrow> ('t, 'r, 'd, 'm) segfile_ops \<Rightarrow> u64 \<Rightarrow> u64 \<Rightarrow> ('t, 'r, 'd) CatalogFile \<Rightarrow> 'm" where
  "openEntry M R offset sz cf =
     (let readOffset = offset AND NOT 4095;
          handle = rg_mmap R readOffset (sz + (offset - readOffset)) (cf_fd cf)
      in if readOffset \<noteq> 0 then mm_seek M (offset - readOffset) handle else handle)"

definition forEachSegment ::
  "('t, segment_btree_metadata_t) btree_ops \<Rightarrow> u16 \<Rightarrow> u64 \<Rightarrow> u64 \<Rightarrow>
   (segment_btree_metadata_t \<Rightarrow> 'a \<Rightarrow> 'a) \<Rightarrow> ('t, 'r, 'd) CatalogFile \<Rightarrow> 'a \<Rightarrow> 'a option" where
  "forEachSegment B indexId startBlock endBlock callback cf acc =
     scan_loop (bt_findNext B (cf_segmentIndex cf))
       (\<lambda>cursor _. sg_indexId cursor \<noteq> indexId \<or> sg_blockRangeStart cursor > endBlock)
       (\<lambda>cursor acc. if sg_blockRangeEnd cursor \<ge> startBlock then callback cursor acc else acc)
       seg_successor
       \<lparr>sg_blockRangeStart = startBlock, sg_blockRangeEnd = 0, sg_byteOffset = 0, sg_byteLength = 0,
        sg_checksum = 0, sg_mergeGeneration = 0, sg_indexId = indexId, sg_encodingVersion = 0\<rparr> acc"

subsection \<open>The key order of segments\<close>

definition seg_key :: "segment_btree_metadata_t \<Rightarrow> nat" where
  "seg_key s = (unat (sg_indexId s) * 2 ^ 64 + unat (sg_blockRangeStart s)) * 2 ^ 32 + unat (sg_mergeGeneration s)"

definition seg_top :: nat where
  "seg_top = ((2 ^ 16 - 1) * 2 ^ 64 + (2 ^ 64 - 1)) * 2 ^ 32 + (2 ^ 32 - 1)"

lemma seg_key_less:
  "seg_key a < seg_key b \<longleftrightarrow> sg_indexId a < sg_indexId b \<or>
     sg_indexId a = sg_indexId b \<and> (sg_blockRangeStart a < sg_blockRangeStart b \<or>
       sg_blockRangeStart a = sg_blockRangeStart b \<and> sg_mergeGeneration a < sg_mergeGeneration b)"
proof -
  have m: "unat (w :: u32) < 2 ^ 32" "unat (v :: u64) < 2 ^ 64" for w v
    using unat_u32_bound [of w] unat_u64_bound [of v] by simp_all
  show ?thesis
    unfolding seg_key_def digits_less [OF m(1) m(1)] digits_less [OF m(2) m(2)] digits_eq [OF m(2) m(2)]
    by (auto simp: word_to_nat)
qed

interpretation seg: key_order seg_compare seg_key
proof unfold_locales
  fix a b
  show "seg_compare a b = (if seg_key a < seg_key b then - 1 else if seg_key b < seg_key a then 1 else 0)"
    unfolding seg_compare_def seg_key_less
    by (cases "sg_indexId a" "sg_indexId b" rule: linorder_cases;
        cases "sg_blockRangeStart a" "sg_blockRangeStart b" rule: linorder_cases) auto
qed

interpretation seg: key_cursor seg_compare seg_key seg_successor seg_top
proof unfold_locales
  fix s
  assume below: "seg_key s < seg_top"
  show "seg_key (seg_successor s) = Suc (seg_key s)"
  proof (cases "sg_mergeGeneration s = - 1")
    case gen: True
    show ?thesis
    proof (cases "sg_blockRangeStart s = - 1")
      case True
      with gen below have "sg_indexId s \<noteq> - 1" by (auto simp: seg_key_def seg_top_def)
      with gen True show ?thesis by (simp add: seg_successor_def seg_key_def unat_inc)
    qed (simp add: gen seg_successor_def seg_key_def unat_inc)
  qed (simp add: seg_successor_def seg_key_def unat_inc)
qed

lemma seg_key_le_top: "seg_key s \<le> seg_top"
  using unat_u64_bound [of "sg_blockRangeStart s"] unat_u32_bound [of "sg_mergeGeneration s"]
    unat_u16_bound [of "sg_indexId s"]
  by (simp add: seg_key_def seg_top_def)

text \<open>The one key at which \<open>successor\<close> wraps.\<close>

definition top_segment :: "segment_btree_metadata_t \<Rightarrow> bool" where
  "top_segment s \<longleftrightarrow> sg_indexId s = - 1 \<and> sg_blockRangeStart s = - 1 \<and> sg_mergeGeneration s = - 1"

lemma seg_key_below_top: "\<not> top_segment s \<Longrightarrow> seg_key s < seg_top"
proof -
  let ?top = "\<lparr>sg_blockRangeStart = - 1, sg_blockRangeEnd = 0, sg_byteOffset = 0, sg_byteLength = 0,
    sg_checksum = 0, sg_mergeGeneration = - 1, sg_indexId = - 1, sg_encodingVersion = 0\<rparr>"
  assume "\<not> top_segment s"
  moreover have "seg_key ?top = seg_top" by (simp add: seg_key_def seg_top_def)
  moreover have "seg_key ?top = seg_key s \<longleftrightarrow> top_segment s"
    using unat_u64_bound [of "sg_blockRangeStart s"] unat_u32_bound [of "sg_mergeGeneration s"]
      digits_eq [of "2 ^ 32 - 1" "2 ^ 32" "unat (sg_mergeGeneration s)"
        "(2 ^ 16 - 1) * 2 ^ 64 + (2 ^ 64 - 1)" "unat (sg_indexId s) * 2 ^ 64 + unat (sg_blockRangeStart s)"]
      digits_eq [of "2 ^ 64 - 1" "2 ^ 64" "unat (sg_blockRangeStart s)" "2 ^ 16 - 1" "unat (sg_indexId s)"]
    by (auto simp: seg_key_def top_segment_def unat_eq_unat [symmetric])
  ultimately show ?thesis using seg_key_le_top [of s] by simp
qed

subsection \<open>Walking the segments of an index\<close>

lemma segment_walk:
  fixes startBlock endBlock :: u64 and indexId :: u16
  assumes "btree_contract B seg_compare ok cont" and "ok t"
  defines "c \<equiv> \<lparr>sg_blockRangeStart = startBlock, sg_blockRangeEnd = 0, sg_byteOffset = 0, sg_byteLength = 0,
        sg_checksum = 0, sg_mergeGeneration = 0, sg_indexId = indexId, sg_encodingVersion = 0\<rparr>"
  shows "takeWhile (\<lambda>e. \<not> (sg_indexId e \<noteq> indexId \<or> sg_blockRangeStart e > endBlock)) (entries_from seg_key (cont t) c) =
    filter (\<lambda>e. sg_indexId e = indexId \<and> sg_blockRangeStart e \<le> endBlock) (entries_from seg_key (cont t) c)"
proof -
  have from_c: "seg_key c \<le> seg_key x \<longleftrightarrow> indexId < sg_indexId x \<or> indexId = sg_indexId x \<and> startBlock \<le> sg_blockRangeStart x" for x
    using seg_key_less [of x c] by (auto simp: c_def not_less [symmetric])
  have "takeWhile (\<lambda>e. sg_indexId e = indexId \<and> sg_blockRangeStart e \<le> endBlock) (entries_from seg_key (cont t) c) =
      filter (\<lambda>e. sg_indexId e = indexId \<and> sg_blockRangeStart e \<le> endBlock) (entries_from seg_key (cont t) c)"
  proof (rule takeWhile_sorted_filter [where f = seg_key])
    show "sorted (map seg_key (entries_from seg_key (cont t) c))"
      by (rule seg.entries_from_contract(2) [OF assms(1,2)])
    fix x y
    assume "x \<in> set (entries_from seg_key (cont t) c)" and "seg_key x \<le> seg_key y"
      and "sg_indexId y = indexId \<and> sg_blockRangeStart y \<le> endBlock"
    then show "sg_indexId x = indexId \<and> sg_blockRangeStart x \<le> endBlock"
      using seg_key_less [of y x] by (auto simp: seg.entries_from_contract(1) [OF assms(1,2)] from_c)
  qed
  then show ?thesis by (simp add: not_less)
qed

lemma forEachSegment_walk:
  fixes cf :: "('t, 'r, 'd) CatalogFile"
  assumes "btree_contract B seg_compare ok cont" and "ok (cf_segmentIndex cf)"
    and top: "\<And>s. s \<in> cont (cf_segmentIndex cf) \<Longrightarrow> \<not> top_segment s"
  shows "\<exists>es. (\<forall>cb (acc :: 'a). forEachSegment B indexId startBlock endBlock cb cf acc = Some (fold cb es acc)) \<and>
    set es = {e \<in> cont (cf_segmentIndex cf). sg_indexId e = indexId \<and>
        startBlock \<le> sg_blockRangeStart e \<and> sg_blockRangeStart e \<le> endBlock \<and> startBlock \<le> sg_blockRangeEnd e} \<and>
    sorted_wrt (\<lambda>a b. seg_compare a b = - 1) es"
proof -
  define c where "c = \<lparr>sg_blockRangeStart = startBlock, sg_blockRangeEnd = 0, sg_byteOffset = 0, sg_byteLength = 0,
        sg_checksum = 0, sg_mergeGeneration = 0, sg_indexId = indexId, sg_encodingVersion = 0\<rparr>"
  let ?t = "cf_segmentIndex cf"
  let ?es = "filter (\<lambda>e. sg_blockRangeEnd e \<ge> startBlock)
      (filter (\<lambda>e. sg_indexId e = indexId \<and> sg_blockRangeStart e \<le> endBlock) (entries_from seg_key (cont ?t) c))"
  have from_c: "seg_key c \<le> seg_key x \<longleftrightarrow> indexId < sg_indexId x \<or> indexId = sg_indexId x \<and> startBlock \<le> sg_blockRangeStart x" for x
    using seg_key_less [of x c] by (auto simp: c_def not_less [symmetric])
  have below: "seg_key x < seg_top" if "x \<in> cont ?t" for x
    using top [OF that] by (rule seg_key_below_top)
  have "forEachSegment B indexId startBlock endBlock cb cf acc = Some (fold cb ?es acc)" for cb and acc :: 'a
    unfolding forEachSegment_def c_def
    by (subst seg.scan_loop_entries [OF assms(1,2)], erule below)
      (simp only: run_stop_fold segment_walk [OF assms(1,2)])
  moreover have "set ?es = {e \<in> cont ?t. sg_indexId e = indexId \<and>
        startBlock \<le> sg_blockRangeStart e \<and> sg_blockRangeStart e \<le> endBlock \<and> startBlock \<le> sg_blockRangeEnd e}"
    by (auto simp: seg.entries_from_contract(1) [OF assms(1,2)] from_c)
  moreover have "sorted_wrt (\<lambda>a b. seg_compare a b = - 1) ?es"
    by (intro sorted_wrt_filter seg.entries_from_contract(3) [OF assms(1,2)])
  ultimately show ?thesis by (intro exI [of _ ?es] conjI) auto
qed

subsection \<open>Payload bytes\<close>

text \<open>
  What a segment's life relies on: a complete \<open>pwrite\<close> stores the bytes, and a read-only
  mapping shows the bytes of its range from its start.
\<close>

definition segfile_contract ::
  "('t, 'r, 'd, 'm) segfile_ops \<Rightarrow> 'm mmap_view \<Rightarrow> ('d \<Rightarrow> memory) \<Rightarrow> bool" where
  "segfile_contract R V bytes \<longleftrightarrow>
     (\<forall>bs off d. 0 \<le> off \<and> fst (rg_pwrite R bs off d) = int (length bs) \<longrightarrow>
        bytes (snd (rg_pwrite R bs off d)) = mem_store (bytes d) (nat off) bs) \<and>
     (\<forall>off len d. vw_pos V (rg_mmap R off len d) = 0 \<and> vw_cap V (rg_mmap R off len d) = unat len \<and>
        (\<forall>i < unat len. vw_mem V (rg_mmap R off len d) i = bytes d (unat off + i)))"

lemma segfile_contractD:
  assumes "segfile_contract R V bytes"
  shows segfile_pwrite: "0 \<le> off \<Longrightarrow> fst (rg_pwrite R bs off d) = int (length bs) \<Longrightarrow>
        bytes (snd (rg_pwrite R bs off d)) = mem_store (bytes d) (nat off) bs"
    and segfile_mmap: "vw_pos V (rg_mmap R o' len d) = 0" "vw_cap V (rg_mmap R o' len d) = unat len"
      "i < unat len \<Longrightarrow> vw_mem V (rg_mmap R o' len d) i = bytes d (unat o' + i)"
  using assms by (simp_all add: segfile_contract_def)

lemma openEntry_view:
  fixes cf :: "('t, 'r, 'd) CatalogFile"
  assumes M: "mmap_contract M V" and R: "segfile_contract R V bytes"
    and fits: "unat off + unat sz < 2 ^ 64"
  defines "h \<equiv> openEntry M R off sz cf"
  shows "vw_pos V h + unat sz \<le> vw_cap V h" and "vw_pos V h < 4096"
    and "n \<le> unat sz \<Longrightarrow> mem_load (vw_mem V h) (vw_pos V h) n =
      mem_load (bytes (cf_fd cf)) (if unat off < 4096 then 0 else unat off) n"
proof -
  define ro where "ro = off AND NOT 4095"
  let ?h = "rg_mmap R ro (sz + (off - ro)) (cf_fd cf)"
  have ro: "unat ro = unat off div 4096 * 4096"
    using unat_page_mask [of off] by (simp add: ro_def)
  then have "ro \<le> off" by (simp add: word_to_nat)
  then have delta: "unat (off - ro) = unat off mod 4096"
    using ro by (simp add: unat_sub word_to_nat minus_mult_div_eq_mod [symmetric] mult.commute)
  have len: "unat (sz + (off - ro)) = unat sz + unat off mod 4096"
    using fits mod_less_eq_dividend [of "unat off" 4096] delta by (simp add: unat_word_ariths)
  have ro0: "ro = 0 \<longleftrightarrow> unat off < 4096"
    unfolding unat_eq_unat [symmetric] ro by (simp add: div_eq_0_iff)
  have h: "h = (if ro \<noteq> 0 then mm_seek M (off - ro) ?h else ?h)"
    by (simp only: h_def openEntry_def Let_def ro_def)
  have view: "vw_mem V h = vw_mem V ?h" "vw_cap V h = unat sz + unat off mod 4096"
    "vw_pos V h = (if unat off < 4096 then 0 else unat off mod 4096)"
    using mmap_seek [OF M] segfile_mmap [OF R] by (auto simp: h ro0 len delta)
  then show "vw_pos V h + unat sz \<le> vw_cap V h" and "vw_pos V h < 4096" by auto
  assume n: "n \<le> unat sz"
  then have "mem_load (vw_mem V h) (vw_pos V h) n = mem_load (bytes (cf_fd cf)) (unat ro + vw_pos V h) n"
    unfolding mem_load_def view(1)
    using segfile_mmap(3) [OF R, of _ "sz + (off - ro)" ro "cf_fd cf"] view(3) len
    by (intro nth_equalityI) (auto simp: add.assoc)
  also have "unat ro + vw_pos V h = (if unat off < 4096 then 0 else unat off)"
    using ro by (simp add: view(3))
  finally show "mem_load (vw_mem V h) (vw_pos V h) n =
      mem_load (bytes (cf_fd cf)) (if unat off < 4096 then 0 else unat off) n" .
qed

lemma openEntry_bytes:
  assumes M: "mmap_contract M V" and R: "segfile_contract R V bytes"
    and fits: "unat off + unat sz < 2 ^ 64"
  shows "fst (mm_read M (unat sz) (openEntry M R off sz cf)) =
    mem_load (bytes (cf_fd cf)) (if unat off < 4096 then 0 else unat off) (unat sz)"
  using openEntry_view [OF assms, where cf = cf] mmap_read(1) [OF M, of "openEntry M R off sz cf" "unat sz"] by simp

lemma openEntry_peek:
  assumes M: "mmap_contract M V" and R: "segfile_contract R V bytes"
    and fits: "unat off + unat sz < 2 ^ 64" and n: "n \<le> unat sz"
  shows "mm_peek M (mm_tell M (openEntry M R off sz cf)) n (openEntry M R off sz cf) =
    mem_load (bytes (cf_fd cf)) (if unat off < 4096 then 0 else unat off) n"
proof -
  note v = openEntry_view [OF M R fits, where cf = cf]
  have "unat (mm_tell M (openEntry M R off sz cf)) = vw_pos V (openEntry M R off sz cf)"
    using v(2) by (intro mmap_tell [OF M]) simp
  then show ?thesis using mmap_peek [OF M] v n by simp
qed

lemma createEntry_success:
  assumes "createEntry B R indexId version gen startBlock endBlock content cf = (Inr (), cf')"
    and "length content < 2 ^ 32"
  defines "off \<equiv> fst (rg_getFreeRegion R (word_of_nat (length content)) (cf_regions cf))"
  defines "md \<equiv> \<lparr>sg_blockRangeStart = startBlock, sg_blockRangeEnd = endBlock,
      sg_byteOffset = word_of_int off, sg_byteLength = word_of_nat (length content),
      sg_checksum = rg_hash R content (length content div 8), sg_mergeGeneration = ucast gen,
      sg_indexId = indexId, sg_encodingVersion = version\<rparr>"
  shows "0 \<le> off" and "fst (rg_pwrite R content off (cf_fd cf)) = int (length content)"
    and "cf_fd cf' = snd (rg_pwrite R content off (cf_fd cf))"
    and "cf_segmentIndex cf' = bt_insert B md (cf_segmentIndex cf)"
proof -
  have len: "unat (word_of_nat (length content) :: u32) = length content"
    using assms(2) by (simp add: unat_of_nat)
  then have ulen: "uint (word_of_nat (length content) :: u32) = int (length content)"
    by (metis uint_nat)
  have cast: "ucast (word_of_nat (length content) :: u32) = (word_of_nat (length content) :: u64)"
    unfolding unat_eq_unat [symmetric] using assms(2) by (simp add: len unat_of_nat)
  have div8: "unat ((word_of_nat (length content) :: u32) div 8) = length content div 8"
    using len by (simp add: unat_div_distrib)
  show "0 \<le> off" and "fst (rg_pwrite R content off (cf_fd cf)) = int (length content)"
    and "cf_fd cf' = snd (rg_pwrite R content off (cf_fd cf))"
    and "cf_segmentIndex cf' = bt_insert B md (cf_segmentIndex cf)"
    using assms(1)
    by (auto simp: createEntry_unfold Let_def case_prod_beta len ulen cast div8 off_def md_def
        split: if_splits)
qed

lemma createEntry_spec:
  "case createEntry B R indexId version gen startBlock endBlock content cf of (r, cf') \<Rightarrow>
     \<not> isBusy cf' \<and>
     (case r of
        Inl err \<Rightarrow> err = Runtime_error \<and> cf_segmentIndex cf' = cf_segmentIndex cf \<and>
          (fst (rg_getFreeRegion R (word_of_nat (length content)) (cf_regions cf)) < 0 \<longrightarrow> cf_fd cf' = cf_fd cf)
      | Inr _ \<Rightarrow> \<exists>md. cf_segmentIndex cf' = bt_insert B md (cf_segmentIndex cf) \<and>
          sg_indexId md = indexId \<and> sg_blockRangeStart md = startBlock \<and> sg_blockRangeEnd md = endBlock \<and>
          sg_mergeGeneration md = ucast gen \<and> sg_encodingVersion md = version)"
  by (auto simp: createEntry_unfold isBusy_def Let_def case_prod_beta)

lemma createEntry_cases:
  assumes "createEntry B R indexId version gen startBlock endBlock content cf = (r, cf')"
  shows "r = Inl Runtime_error \<and> cf_segmentIndex cf' = cf_segmentIndex cf \<or>
    r = Inr () \<and> (\<exists>md. cf_segmentIndex cf' = bt_insert B md (cf_segmentIndex cf) \<and>
          sg_indexId md = indexId \<and> sg_blockRangeStart md = startBlock \<and> sg_blockRangeEnd md = endBlock \<and>
          sg_mergeGeneration md = ucast gen)"
  using createEntry_spec [where B = B and R = R and indexId = indexId and version = version and gen = gen
      and startBlock = startBlock and endBlock = endBlock and content = content and cf = cf] assms
  by (cases r) auto

subsection \<open>Properties\<close>

text \<open>
  C36 (CatalogFile.forEachSegment_exact): \<open>forEachSegment\<close> terminates and calls back, in strictly
  ascending key order, exactly the segments of the index that \<^emph>\<open>start\<close> inside
  \<open>[startBlock, endBlock]\<close> (and do not end before \<open>startBlock\<close>).  A segment that starts before
  \<open>startBlock\<close> and reaches into the range is not visited, although the header promises
  every segment that intersects the range.
\<close>

theorem forEachSegment_exact:
  fixes acc :: 'a
  assumes "btree_contract B seg_compare ok cont" and "ok (cf_segmentIndex cf)"
    and "\<forall>s \<in> cont (cf_segmentIndex cf). \<not> top_segment s"
  shows "\<exists>es. forEachSegment B indexId startBlock endBlock callback cf acc = Some (fold callback es acc) \<and>
    set es = {e \<in> cont (cf_segmentIndex cf). sg_indexId e = indexId \<and>
        startBlock \<le> sg_blockRangeStart e \<and> sg_blockRangeStart e \<le> endBlock \<and> startBlock \<le> sg_blockRangeEnd e} \<and>
    sorted_wrt (\<lambda>a b. seg_compare a b = - 1) es"
proof -
  have "\<not> top_segment s" if "s \<in> cont (cf_segmentIndex cf)" for s using assms(3) that by blast
  from forEachSegment_walk [OF assms(1,2) this, of indexId startBlock endBlock]
  obtain es where "\<forall>cb (acc :: 'a). forEachSegment B indexId startBlock endBlock cb cf acc = Some (fold cb es acc)"
    and "set es = {e \<in> cont (cf_segmentIndex cf). sg_indexId e = indexId \<and>
        startBlock \<le> sg_blockRangeStart e \<and> sg_blockRangeStart e \<le> endBlock \<and> startBlock \<le> sg_blockRangeEnd e}"
    and "sorted_wrt (\<lambda>a b. seg_compare a b = - 1) es" by auto
  then show ?thesis by (intro exI [of _ es]) simp
qed

text \<open>
  C17 (CatalogFile.segment_write_read): when \<open>createEntry\<close> succeeds, the segment index has gained exactly
  one entry, with the coordinates, version and checksum of the segment, and opening the
  region that entry records gives a mapping whose next bytes are the content written,
  provided the region lies beyond the first page.
\<close>

theorem segment_write_read:
  assumes "mmap_contract M V" and "segfile_contract R V bytes"
    and "btree_contract B seg_compare ok cont" and "ok (cf_segmentIndex cf)"
    and "\<forall>e \<in> cont (cf_segmentIndex cf). \<not> (sg_indexId e = indexId \<and> sg_blockRangeStart e = startBlock \<and>
          sg_mergeGeneration e = ucast gen)"
    and "createEntry B R indexId version gen startBlock endBlock content cf = (Inr (), cf')"
    and "length content < 2 ^ 32"
    and "4096 \<le> fst (rg_getFreeRegion R (word_of_nat (length content)) (cf_regions cf))"
      "fst (rg_getFreeRegion R (word_of_nat (length content)) (cf_regions cf)) < 2 ^ 63"
  shows "\<exists>e. cont (cf_segmentIndex cf') = insert e (cont (cf_segmentIndex cf)) \<and> e \<notin> cont (cf_segmentIndex cf) \<and>
    sg_indexId e = indexId \<and> sg_blockRangeStart e = startBlock \<and> sg_blockRangeEnd e = endBlock \<and>
    sg_mergeGeneration e = ucast gen \<and> sg_encodingVersion e = version \<and>
    sg_checksum e = rg_hash R content (length content div 8) \<and>
    fst (mm_read M (length content) (openEntry M R (sg_byteOffset e) (sg_byteLength e) cf')) = content"
proof -
  define off where "off = fst (rg_getFreeRegion R (word_of_nat (length content)) (cf_regions cf))"
  define md where "md = \<lparr>sg_blockRangeStart = startBlock, sg_blockRangeEnd = endBlock,
      sg_byteOffset = word_of_int off, sg_byteLength = word_of_nat (length content),
      sg_checksum = rg_hash R content (length content div 8), sg_mergeGeneration = ucast gen,
      sg_indexId = indexId, sg_encodingVersion = version\<rparr>"
  note ok = createEntry_success [OF assms(6,7), folded off_def, folded md_def]
  have new: "\<forall>y \<in> cont (cf_segmentIndex cf). seg_compare y md \<noteq> 0"
    using assms(5) by (auto simp: seg_compare_def md_def split: if_splits)
  then have ins: "cont (cf_segmentIndex cf') = insert md (cont (cf_segmentIndex cf))"
    using btree_insert [OF assms(3,4) new] ok(4) by simp
  have uoff: "unat (word_of_int off :: u64) = nat off" and range: "4096 \<le> nat off" "nat off < 2 ^ 63"
    using assms(8,9) by (auto simp: off_def unsigned_of_int take_bit_int_eq_self nat_less_iff le_nat_iff)
  have ulen: "unat (word_of_nat (length content) :: u64) = length content"
    using assms(7) by (simp add: unat_of_nat)
  have "bytes (cf_fd cf') = mem_store (bytes (cf_fd cf)) (nat off) content"
    using segfile_pwrite [OF assms(2) ok(1,2)] ok(3) by simp
  then have "fst (mm_read M (length content) (openEntry M R (sg_byteOffset md) (sg_byteLength md) cf')) = content"
    using openEntry_bytes [OF assms(1,2), of "word_of_int off" "word_of_nat (length content)" cf'] uoff ulen range assms(7)
    by (simp add: md_def mem_load_store_same)
  moreover have "md \<notin> cont (cf_segmentIndex cf)" using new by (auto simp: seg_compare_def)
  ultimately show ?thesis using ins by (intro exI [of _ md]) (simp add: md_def)
qed

text \<open>
  (openEntry first page): \<open>openEntry\<close> positions its mapping on the requested byte only
  when the request lies beyond the first page: for an offset inside the first page it skips
  the seek, and the next bytes read are those at offset 0.
\<close>

theorem openEntry_first_page:
  assumes "mmap_contract M V" and "segfile_contract R V bytes" and "unat off + unat sz < 2 ^ 64"
  shows "fst (mm_read M (unat sz) (openEntry M R off sz cf)) =
    mem_load (bytes (cf_fd cf)) (if unat off < 4096 then 0 else unat off) (unat sz)"
  using assms by (rule openEntry_bytes)

text \<open>
  (createEntry outcomes): the outcomes of \<open>createEntry\<close>: when no region can be allocated
  or the write is short it throws and the segment index is as before; otherwise the index
  has one more insertion.  The busy flag is clear on every path.
\<close>

theorem createEntry_outcomes:
  "case createEntry B R indexId version gen startBlock endBlock content cf of (r, cf') \<Rightarrow>
     \<not> isBusy cf' \<and>
     (case r of
        Inl err \<Rightarrow> err = Runtime_error \<and> cf_segmentIndex cf' = cf_segmentIndex cf \<and>
          (fst (rg_getFreeRegion R (word_of_nat (length content)) (cf_regions cf)) < 0 \<longrightarrow> cf_fd cf' = cf_fd cf)
      | Inr _ \<Rightarrow> \<exists>md. cf_segmentIndex cf' = bt_insert B md (cf_segmentIndex cf) \<and>
          sg_indexId md = indexId \<and> sg_blockRangeStart md = startBlock \<and> sg_blockRangeEnd md = endBlock \<and>
          sg_mergeGeneration md = ucast gen \<and> sg_encodingVersion md = version)"
  by (rule createEntry_spec)

text \<open>
  (deleteEntry frees): deleting the segment with a given key removes that entry and no
  other from the index and returns exactly its region to the allocator.
\<close>

theorem deleteEntry_frees:
  assumes "btree_contract B seg_compare ok cont" and "ok (cf_segmentIndex cf)" and "remove_contract B seg_compare ok cont"
    and "e \<in> cont (cf_segmentIndex cf)" and "sg_mergeGeneration e = ucast (gen :: u16)"
  shows "cont (cf_segmentIndex (deleteEntry B R (sg_indexId e) (sg_blockRangeStart e) gen cf)) =
      cont (cf_segmentIndex cf) - {e} \<and>
    cf_regions (deleteEntry B R (sg_indexId e) (sg_blockRangeStart e) gen cf) =
      rg_markFreeRegion R (sg_byteOffset e) (sg_byteLength e) (cf_regions cf)"
proof -
  define k where "k = \<lparr>sg_blockRangeStart = sg_blockRangeStart e, sg_blockRangeEnd = 0, sg_byteOffset = 0,
      sg_byteLength = 0, sg_checksum = 0, sg_mergeGeneration = ucast gen,
      sg_indexId = sg_indexId e, sg_encodingVersion = 0\<rparr>"
  have key: "seg_key k = seg_key e" using assms(5) by (simp add: k_def seg_key_def)
  then have e: "seg_compare e k = 0" by (simp add: seg.cmp_eq_0)
  have "y = e" if "y \<in> cont (cf_segmentIndex cf)" "seg_compare y k = 0" for y
    using btree_cmp_inj [OF assms(1,2) that(1) assms(4)] that(2) key by (simp add: seg.cmp_eq_0)
  with e have "{y \<in> cont (cf_segmentIndex cf). seg_compare y k \<noteq> 0} = cont (cf_segmentIndex cf) - {e}" by auto
  then show ?thesis
    using btree_remove [OF assms(3,2), of k] e assms(4)
    by (simp add: deleteEntry_def delete_sections Let_def case_prod_beta k_def [symmetric])
qed

subsection \<open>Witnesses\<close>

definition sample_segfile :: "(segment_btree_metadata_t list, nat, memory, flat_file) segfile_ops" where
  "sample_segfile =
     \<lparr>rg_getFreeRegion = (\<lambda>len r. if 4096 \<le> r \<and> r < 2 ^ 62 then (int r, r + unat len) else (- 1, r)),
      rg_markFreeRegion = (\<lambda>off len r. r),
      rg_pwrite = (\<lambda>bs off d. (int (length bs), mem_store d (nat off) bs)),
      rg_fileSize = (\<lambda>t r d. word_of_nat r),
      rg_mmap = (\<lambda>off len d. \<lparr>fl_mem = (\<lambda>i. d (unat off + i)), fl_pos = 0, fl_cap = unat len\<rparr>),
      rg_hash = (\<lambda>bs n. 0)\<rparr>"

lemma sample_segfile_contract: "segfile_contract sample_segfile flat_view (\<lambda>d. d)"
  by (simp add: segfile_contract_def sample_segfile_def)

abbreviation sample_segment :: "u16 \<Rightarrow> u64 \<Rightarrow> u64 \<Rightarrow> segment_btree_metadata_t" where
  "sample_segment idx s e \<equiv> \<lparr>sg_blockRangeStart = s, sg_blockRangeEnd = e, sg_byteOffset = 8192,
     sg_byteLength = 2, sg_checksum = 0, sg_mergeGeneration = 0, sg_indexId = idx, sg_encodingVersion = 1\<rparr>"

abbreviation sample_cf :: "(segment_btree_metadata_t list, nat, memory) CatalogFile" where
  "sample_cf \<equiv> \<lparr>cf_fd = (\<lambda>_. 0), cf_regions = 8194, cf_segmentIndex = [sample_segment 3 0 9, sample_segment 3 5 6],
     cf_isSegmentBeingWritten = False\<rparr>"

lemma sample_index_ok: "one_per_key seg_compare (cf_segmentIndex sample_cf)"
  by (simp add: one_per_key_def seg_compare_def)

theorem forEachSegment_exact_witness:
  "\<exists>es. forEachSegment (list_btree seg_compare) 3 4 8 (\<lambda>e acc. e # acc) sample_cf [] = Some (fold (\<lambda>e acc. e # acc) es []) \<and>
     set es = {sample_segment 3 5 6}"
proof -
  have "{e \<in> set (cf_segmentIndex sample_cf). sg_indexId e = 3 \<and> 4 \<le> sg_blockRangeStart e \<and>
      sg_blockRangeStart e \<le> 8 \<and> 4 \<le> sg_blockRangeEnd e} = {sample_segment 3 5 6}" by auto
  then show ?thesis
    using forEachSegment_exact [OF seg.list_btree_contract sample_index_ok, of 3 4 8 "\<lambda>e acc. e # acc" "[]"]
    by (auto simp: top_segment_def)
qed

theorem segment_write_read_witness:
  "\<exists>e :: segment_btree_metadata_t. sg_blockRangeStart e = 7 \<and>
     fst (mm_read flat_mmap (length [1, 2 :: byte]) (openEntry flat_mmap sample_segfile (sg_byteOffset e) (sg_byteLength e)
       (snd (createEntry (list_btree seg_compare) sample_segfile 3 1 0 7 8 [1, 2] sample_cf)))) = [1, 2]"
proof -
  let ?cf = "snd (createEntry (list_btree seg_compare) sample_segfile 3 1 0 7 8 [1, 2] sample_cf)"
  have "fst (createEntry (list_btree seg_compare) sample_segfile 3 1 0 7 8 [1, 2] sample_cf) = Inr ()"
    by (simp add: createEntry_unfold sample_segfile_def Let_def)
  then have run: "createEntry (list_btree seg_compare) sample_segfile 3 1 0 7 8 [1, 2] sample_cf = (Inr (), ?cf)"
    by (metis prod.collapse)
  have region: "fst (rg_getFreeRegion sample_segfile (word_of_nat (length [1, 2 :: byte])) (cf_regions sample_cf)) = 8194"
    by (simp add: sample_segfile_def)
  have new: "\<forall>e \<in> set (cf_segmentIndex sample_cf). \<not> (sg_indexId e = 3 \<and> sg_blockRangeStart e = 7 \<and>
      sg_mergeGeneration e = ucast (0 :: u16))" by simp
  have small: "length [1, 2 :: byte] < 2 ^ 32" "4096 \<le> (8194 :: int)" "(8194 :: int) < 2 ^ 63" by simp_all
  show ?thesis
    using segment_write_read [OF flat_mmap_contract sample_segfile_contract seg.list_btree_contract sample_index_ok
        new run, unfolded region, OF small]
    by blast
qed

theorem openEntry_first_page_witness:
  "fst (mm_read flat_mmap 2 (openEntry flat_mmap sample_segfile 100 2 (sample_cf\<lparr>cf_fd := (\<lambda>a. word_of_nat a)\<rparr>))) = [0, 1]"
  using openEntry_first_page [OF flat_mmap_contract sample_segfile_contract, of 100 2 "sample_cf\<lparr>cf_fd := (\<lambda>a. word_of_nat a)\<rparr>"]
  by (simp add: mem_load_def upt_rec)

theorem deleteEntry_frees_witness:
  "set (cf_segmentIndex (deleteEntry (list_btree seg_compare) sample_segfile 3 5 0 sample_cf)) = {sample_segment 3 0 9}"
proof -
  have "set (cf_segmentIndex sample_cf) - {sample_segment 3 5 6} = {sample_segment 3 0 9}" by auto
  then show ?thesis
    using deleteEntry_frees [OF seg.list_btree_contract sample_index_ok seg.list_btree_remove, of "sample_segment 3 5 6" 0 sample_segfile] by simp
qed

end
