(* ===== verification/Catalog.thy ===== *)
theory Catalog
  imports CatalogFile
begin

text \<open>
  \<^verbatim>\<open>src/storage/Catalog.{h,cpp}\<close>: the multi-file segment store.  The table of contents (TOC) is
  a B-tree of per-file summaries; \<open>writeSegment\<close> picks or creates a file in the
  foreground and hands the write to a thread pool, whose tasks run interleaved with
  everything else.  A task is three atomic steps, between which other steps may happen:
  write the segment into its file, update the TOC under its mutex, clear the file's
  being-written mark.  The parameters are collected in \<open>catalog_env\<close>.
\<close>

subsection \<open>256-bit masks\<close>

text \<open>The operations of \<open>uint256_t\<close> that the catalog uses.\<close>

record 'b u256_ops =
  u_zero :: 'b
  u_setBit :: "u64 \<Rightarrow> 'b \<Rightarrow> 'b"
  u_and :: "'b \<Rightarrow> 'b \<Rightarrow> 'b"
  u_or :: "'b \<Rightarrow> 'b \<Rightarrow> 'b"
  u_eq :: "'b \<Rightarrow> 'b \<Rightarrow> bool"
  u_countBits :: "'b \<Rightarrow> int"

definition u256_contract :: "'b u256_ops \<Rightarrow> ('b \<Rightarrow> nat set) \<Rightarrow> bool" where
  "u256_contract U bits \<longleftrightarrow>
     bits (u_zero U) = {} \<and>
     (\<forall>i b. unat i < 256 \<longrightarrow> bits (u_setBit U i b) = insert (unat i) (bits b)) \<and>
     (\<forall>a b. bits (u_and U a b) = bits a \<inter> bits b) \<and>
     (\<forall>a b. bits (u_or U a b) = bits a \<union> bits b) \<and>
     (\<forall>a b. u_eq U a b \<longleftrightarrow> bits a = bits b) \<and>
     (\<forall>a. u_countBits U a = int (card (bits a)))"

lemma u256_contractD:
  assumes "u256_contract U bits"
  shows "bits (u_zero U) = {}"
    and "unat i < 256 \<Longrightarrow> bits (u_setBit U i b) = insert (unat i) (bits b)"
    and "bits (u_and U a b) = bits a \<inter> bits b"
    and "bits (u_or U a b) = bits a \<union> bits b"
    and "u_eq U a b \<longleftrightarrow> bits a = bits b"
  using assms by (simp_all add: u256_contract_def)

definition word_u256 :: "256 word u256_ops" where
  "word_u256 =
     \<lparr>u_zero = 0, u_setBit = (\<lambda>i b. b OR push_bit (unat i) 1), u_and = (\<lambda>a b. a AND b),
      u_or = (\<lambda>a b. a OR b), u_eq = (\<lambda>a b. a = b),
      u_countBits = (\<lambda>a. int (card {i. bit a i}))\<rparr>"

lemma word_u256_contract: "u256_contract word_u256 (\<lambda>a. {i. bit a i})"
proof -
  have "a = b" if "{i. bit a i} = {i. bit b i}" for a b :: "256 word"
    using that by (intro bit_word_eqI) (simp add: set_eq_iff)
  then have "a = b \<longleftrightarrow> {i. bit a i} = {i. bit b i}" for a b :: "256 word" by blast
  then show ?thesis
    by (auto simp: u256_contract_def word_u256_def bit_or_iff bit_and_iff bit_push_bit_iff bit_1_iff bit_exp_iff)
qed

definition bloomKeyHash :: "'b u256_ops \<Rightarrow> u16 \<Rightarrow> 'b" where
  "bloomKeyHash U indexId =
     (let miniHash = ucast indexId * 15879638260049341073 + 5277654339219660263 :: u64;
          hash1 = miniHash mod 2404975667;
          hash2 = miniHash mod 3414420799;
          output = u_setBit U (hash1 AND 255) (u_zero U)
      in u_setBit U (hash2 AND 255) output)"

definition bloomMaybeContains :: "'b u256_ops \<Rightarrow> 'b \<Rightarrow> u16 \<Rightarrow> bool" where
  "bloomMaybeContains U bits indexId =
     (let h = bloomKeyHash U indexId in u_eq U (u_and U bits h) h)"

subsection \<open>The table of contents\<close>

record 'b catalog_contents_entry_t =
  ce_fileId :: u64
  ce_blockRangeMin :: u64
  ce_blockRangeMax :: u64
  ce_totalBytes :: u64
  ce_bloom :: 'b
  ce_segmentCount :: u32

definition CATALOG_FILE_MAX_BYTES :: u64 where
  "CATALOG_FILE_MAX_BYTES = 2047 * 1024 * 1024"

definition toc_compare :: "'b catalog_contents_entry_t \<Rightarrow> 'b catalog_contents_entry_t \<Rightarrow> int" where
  "toc_compare a b =
     (if ce_fileId a < ce_fileId b then 1 else if ce_fileId a > ce_fileId b then - 1 else 0)"

definition blockRangeDistance :: "'b catalog_contents_entry_t \<Rightarrow> u64 \<Rightarrow> u64 \<Rightarrow> u64" where
  "blockRangeDistance e segStart segEnd =
     (if ce_segmentCount e = 0 then 0
      else if segEnd < ce_blockRangeMin e then ce_blockRangeMin e - segEnd
      else if segStart > ce_blockRangeMax e then segStart - ce_blockRangeMax e
      else 0)"

text \<open>\<open>key.fileId--\<close>, the advance of the TOC loops.\<close>

definition toc_prev :: "'b catalog_contents_entry_t \<Rightarrow> 'b catalog_contents_entry_t" where
  "toc_prev key = key\<lparr>ce_fileId := ce_fileId key - 1\<rparr>"

text \<open>
  \<open>(int)sqrt((double)x)\<close>, as the integer square root: the two agree for \<open>x\<close> below
  \<open>2 ^ 52\<close>, where the \<open>double\<close> operations are exact enough; the value only
  influences the order in which candidate files are tried.
\<close>

fun isqrt :: "nat \<Rightarrow> nat" where
  "isqrt n =
     (if n = 0 then 0
      else let r = 2 * isqrt (n div 4) in if (r + 1) * (r + 1) \<le> n then r + 1 else r)"

declare isqrt.simps [simp del]

subsection \<open>The catalog\<close>

datatype task_stage = Queued | Written | Catalogued

record 'b segment_task =
  tk_indexId :: u16
  tk_version :: u16
  tk_mergeGeneration :: u16
  tk_startBlock :: u64
  tk_endBlock :: u64
  tk_content :: "byte list"
  tk_file :: u64
  tk_key :: "'b catalog_contents_entry_t"
  tk_stage :: task_stage

text \<open>
  A catalog file object is identified with its file id: the file cache hands out the same
  object for the same path while a task holds it.  \<open>ct_files\<close> are the files on disk,
  \<open>ct_tasks\<close> the tasks submitted and not finished.
\<close>

record ('tt, 'b, 't, 'r, 'd) Catalog =
  ct_tocBTree :: 'tt
  ct_lastFileId :: u64
  ct_files :: "u64 \<rightharpoonup> ('t, 'r, 'd) CatalogFile"
  ct_filesBeingWritten :: "u64 set"
  ct_tasks :: "'b segment_task list"

text \<open>
  The parameters: the masks, the two tree types, the file accesses, the sort of the
  candidate queue (\<open>StaticPriorityQueue::sort\<close>), whether a file can be opened, and the
  object built on a newly created file.
\<close>

record ('tt, 'b, 't, 'r, 'd, 'm) catalog_env =
  en_u256 :: "'b u256_ops"
  en_toc :: "('tt, 'b catalog_contents_entry_t) btree_ops"
  en_seg :: "('t, segment_btree_metadata_t) btree_ops"
  en_segfile :: "('t, 'r, 'd, 'm) segfile_ops"
  en_sort :: "(u64 \<times> int) list \<Rightarrow> (u64 \<times> int) list"
  en_opens :: "u64 \<Rightarrow> bool"
  en_newFile :: "('t, 'r, 'd) CatalogFile"

definition empty_entry :: "'b u256_ops \<Rightarrow> u64 \<Rightarrow> u64 \<Rightarrow> 'b catalog_contents_entry_t" where
  "empty_entry U fileId rangeMin =
     \<lparr>ce_fileId = fileId, ce_blockRangeMin = rangeMin, ce_blockRangeMax = 0, ce_totalBytes = 0,
      ce_bloom = u_zero U, ce_segmentCount = 0\<rparr>"

text \<open>The constructor, on a directory without catalog files whose TOC tree is \<open>toc\<close>.\<close>

definition new_Catalog :: "'tt \<Rightarrow> ('tt, 'b, 't, 'r, 'd) Catalog" where
  "new_Catalog toc =
     \<lparr>ct_tocBTree = toc, ct_lastFileId = 0, ct_files = Map.empty, ct_filesBeingWritten = {}, ct_tasks = []\<rparr>"

text \<open>The constructor on a directory that has catalog files already: the TOC is opened, nothing else.\<close>

definition open_Catalog ::
  "'tt \<Rightarrow> (u64 \<rightharpoonup> ('t, 'r, 'd) CatalogFile) \<Rightarrow> ('tt, 'b, 't, 'r, 'd) Catalog" where
  "open_Catalog toc files =
     \<lparr>ct_tocBTree = toc, ct_lastFileId = 0, ct_files = files, ct_filesBeingWritten = {}, ct_tasks = []\<rparr>"

definition getCatalogFile ::
  "('tt, 'b, 't, 'r, 'd, 'm) catalog_env \<Rightarrow> u64 \<Rightarrow> ('tt, 'b, 't, 'r, 'd) Catalog \<Rightarrow> u64 option" where
  "getCatalogFile E fileId cat =
     (if en_opens E fileId \<and> ct_files cat fileId \<noteq> None then Some fileId else None)"

definition rangeScan ::
  "('tt, 'b, 't, 'r, 'd, 'm) catalog_env \<Rightarrow> u64 \<Rightarrow> u16 \<Rightarrow> u64 \<Rightarrow> u64 \<Rightarrow>
   ('tt, 'b, 't, 'r, 'd) Catalog \<Rightarrow> u64 list option" where
  "rangeScan E now indexId startBlock endBlock cat =
     (let indexBloom = bloomKeyHash (en_u256 E) indexId
      in scan_loop (bt_findNext (en_toc E) (ct_tocBTree cat))
           (\<lambda>key out. False)
           (\<lambda>key out. if u_eq (en_u256 E) (u_and (en_u256 E) indexBloom (ce_bloom key)) indexBloom \<and>
                         ce_blockRangeMin key \<le> endBlock \<and> ce_blockRangeMax key \<ge> startBlock
                      then out @ [ce_fileId key] else out)
           toc_prev (empty_entry (en_u256 E) now 0) [])"

definition candidate_score ::
  "('tt, 'b, 't, 'r, 'd, 'm) catalog_env \<Rightarrow> u16 \<Rightarrow> u64 \<Rightarrow> u64 \<Rightarrow> 'b catalog_contents_entry_t \<Rightarrow> int" where
  "candidate_score E indexId startBlock endBlock key =
     (let score = 256 - u_countBits (en_u256 E) (ce_bloom key);
          score = (if bloomMaybeContains (en_u256 E) (ce_bloom key) indexId then score + 100 else score);
          score = score - int (isqrt (unat (blockRangeDistance key startBlock endBlock)) div 10)
      in sint (word_of_int (score - int (unat (ce_segmentCount key))) :: u32))"

definition collect_candidates ::
  "('tt, 'b, 't, 'r, 'd, 'm) catalog_env \<Rightarrow> u64 \<Rightarrow> u16 \<Rightarrow> u64 \<Rightarrow> u64 \<Rightarrow> u32 \<Rightarrow>
   ('tt, 'b, 't, 'r, 'd) Catalog \<Rightarrow> (u64 \<times> int) list option" where
  "collect_candidates E now indexId startBlock endBlock sz cat =
     scan_loop (bt_findNext (en_toc E) (ct_tocBTree cat))
       (\<lambda>key cands. \<not> length cands < 16)
       (\<lambda>key cands. if ce_totalBytes key + ucast sz \<le> CATALOG_FILE_MAX_BYTES
                    then cands @ [(ce_fileId key, candidate_score E indexId startBlock endBlock key)]
                    else cands)
       toc_prev (empty_entry (en_u256 E) now 0) []"

fun pick_candidate ::
  "('tt, 'b, 't, 'r, 'd, 'm) catalog_env \<Rightarrow> ('tt, 'b, 't, 'r, 'd) Catalog \<Rightarrow> (u64 \<times> int) list \<Rightarrow>
   (u64 \<times> 'b catalog_contents_entry_t) option result" where
  "pick_candidate E cat [] = Inr None"
| "pick_candidate E cat (c # cs) =
     (let file = getCatalogFile E (fst c) cat
      in case bt_find (en_toc E) (ct_tocBTree cat) (empty_entry (en_u256 E) (fst c) 0) of
           None \<Rightarrow> Inl Runtime_error
         | Some key \<Rightarrow>
             if file \<noteq> None \<and> fst c \<notin> ct_filesBeingWritten cat
             then Inr (Some (fst c, key))
             else pick_candidate E cat cs)"

definition new_file_id :: "u64 \<Rightarrow> u64 \<Rightarrow> u64" where
  "new_file_id now lastFileId = (if now \<le> lastFileId then now + 1 else now)"

text \<open>
  \<open>now\<close> and \<open>now'\<close> are the two clock readings of the call.  The result is \<open>None\<close> when
  the TOC loop runs forever, otherwise an exception or the selected file (null when it
  cannot be opened) with the key it loads.
\<close>

definition selectFileFor ::
  "('tt, 'b, 't, 'r, 'd, 'm) catalog_env \<Rightarrow> u64 \<Rightarrow> u64 \<Rightarrow> u16 \<Rightarrow> u64 \<Rightarrow> u64 \<Rightarrow> u32 \<Rightarrow>
   ('tt, 'b, 't, 'r, 'd) Catalog \<Rightarrow>
   ((u64 option \<times> 'b catalog_contents_entry_t) result \<times> ('tt, 'b, 't, 'r, 'd) Catalog) option" where
  "selectFileFor E now now' indexId startBlock endBlock sz cat =
     (case collect_candidates E now indexId startBlock endBlock sz cat of
        None \<Rightarrow> None
      | Some cands \<Rightarrow> Some
          (case pick_candidate E cat (en_sort E cands) of
             Inl e \<Rightarrow> (Inl e, cat)
           | Inr (Some (f, key)) \<Rightarrow> (Inr (Some f, key), cat)
           | Inr None \<Rightarrow>
               (let newId = new_file_id now' (ct_lastFileId cat);
                    cat = cat\<lparr>ct_lastFileId := newId\<rparr>;
                    key = empty_entry (en_u256 E) newId (- 1)
                in if en_opens E newId
                   then (Inr (Some newId, key),
                         case ct_files cat newId of
                           Some _ \<Rightarrow> cat
                         | None \<Rightarrow> cat\<lparr>ct_files := (ct_files cat)(newId \<mapsto> en_newFile E)\<rparr>)
                   else (Inr (None, key), cat))))"

definition writeSegment ::
  "('tt, 'b, 't, 'r, 'd, 'm) catalog_env \<Rightarrow> u64 \<Rightarrow> u64 \<Rightarrow> u16 \<Rightarrow> u16 \<Rightarrow> u16 \<Rightarrow> u64 \<Rightarrow> u64 \<Rightarrow> byte list \<Rightarrow>
   ('tt, 'b, 't, 'r, 'd) Catalog \<Rightarrow> (unit result \<times> ('tt, 'b, 't, 'r, 'd) Catalog) option" where
  "writeSegment E now now' indexId version mergeGeneration startBlock endBlock content cat =
     (case selectFileFor E now now' indexId startBlock endBlock (word_of_nat (length content)) cat of
        None \<Rightarrow> None
      | Some (Inl e, cat) \<Rightarrow> Some (Inl e, cat)
      | Some (Inr (None, key), cat) \<Rightarrow> Some (Inl Runtime_error, cat)
      | Some (Inr (Some file, key), cat) \<Rightarrow> Some (Inr (),
          cat\<lparr>ct_filesBeingWritten := insert file (ct_filesBeingWritten cat),
              ct_tasks := ct_tasks cat @
                [\<lparr>tk_indexId = indexId, tk_version = version, tk_mergeGeneration = mergeGeneration,
                  tk_startBlock = startBlock, tk_endBlock = endBlock, tk_content = content,
                  tk_file = file, tk_key = key, tk_stage = Queued\<rparr>]\<rparr>))"

subsection \<open>The background task\<close>

definition end_task :: "nat \<Rightarrow> ('tt, 'b, 't, 'r, 'd) Catalog \<Rightarrow> ('tt, 'b, 't, 'r, 'd) Catalog" where
  "end_task i cat =
     cat\<lparr>ct_filesBeingWritten := ct_filesBeingWritten cat - {tk_file (ct_tasks cat ! i)},
         ct_tasks := take i (ct_tasks cat) @ drop (Suc i) (ct_tasks cat)\<rparr>"

definition task_write ::
  "('tt, 'b, 't, 'r, 'd, 'm) catalog_env \<Rightarrow> nat \<Rightarrow> ('tt, 'b, 't, 'r, 'd) Catalog \<Rightarrow> ('tt, 'b, 't, 'r, 'd) Catalog" where
  "task_write E i cat =
     (let tk = ct_tasks cat ! i
      in case ct_files cat (tk_file tk) of
           None \<Rightarrow> end_task i cat
         | Some file \<Rightarrow>
             (case createEntry (en_seg E) (en_segfile E) (tk_indexId tk) (tk_version tk)
                     (tk_mergeGeneration tk) (tk_startBlock tk) (tk_endBlock tk) (tk_content tk) file of
                (Inl e, file') \<Rightarrow> end_task i (cat\<lparr>ct_files := (ct_files cat)(tk_file tk \<mapsto> file')\<rparr>)
              | (Inr _, file') \<Rightarrow>
                  cat\<lparr>ct_files := (ct_files cat)(tk_file tk \<mapsto> file'),
                      ct_tasks := (ct_tasks cat)[i := tk\<lparr>tk_stage := Written\<rparr>]\<rparr>))"

definition add_to_entry ::
  "'b u256_ops \<Rightarrow> u64 \<Rightarrow> 'b segment_task \<Rightarrow> 'b catalog_contents_entry_t \<Rightarrow> 'b catalog_contents_entry_t" where
  "add_to_entry U totalBytes tk key =
     key\<lparr>ce_totalBytes := totalBytes,
         ce_blockRangeMin := min (ce_blockRangeMin key) (tk_startBlock tk),
         ce_blockRangeMax := max (ce_blockRangeMax key) (tk_endBlock tk),
         ce_bloom := u_or U (ce_bloom key) (bloomKeyHash U (tk_indexId tk)),
         ce_segmentCount := ce_segmentCount key + 1\<rparr>"

definition task_catalogue ::
  "('tt, 'b, 't, 'r, 'd, 'm) catalog_env \<Rightarrow> nat \<Rightarrow> ('tt, 'b, 't, 'r, 'd) Catalog \<Rightarrow> ('tt, 'b, 't, 'r, 'd) Catalog" where
  "task_catalogue E i cat =
     (let tk = ct_tasks cat ! i;
          key = (case bt_find (en_toc E) (ct_tocBTree cat) (tk_key tk) of None \<Rightarrow> tk_key tk | Some k \<Rightarrow> k);
          totalBytes = (case ct_files cat (tk_file tk) of None \<Rightarrow> 0 | Some file \<Rightarrow> getTotalBytes (en_segfile E) file);
          key = add_to_entry (en_u256 E) totalBytes tk key
      in cat\<lparr>ct_tocBTree := bt_overwrite (en_toc E) key (ct_tocBTree cat),
             ct_tasks := (ct_tasks cat)[i := tk\<lparr>tk_stage := Catalogued\<rparr>]\<rparr>)"

subsection \<open>The bloom mask\<close>

lemma unat_and_255: "unat (w AND 255 :: u64) < 256"
proof -
  have "w AND 255 = take_bit 8 w" by (simp add: take_bit_eq_mask mask_eq_exp_minus_1)
  then show ?thesis by (simp add: take_bit_eq_mod unat_mod_distrib)
qed

lemma bloom_test:
  assumes "u256_contract U bits"
  shows "u_eq U (u_and U h b) h \<longleftrightarrow> bits h \<subseteq> bits b"
  using u256_contractD [OF assms] by (auto simp: Int_absorb1)

lemma bloomMaybeContains_subset:
  assumes "u256_contract U bits"
  shows "bloomMaybeContains U b i \<longleftrightarrow> bits (bloomKeyHash U i) \<subseteq> bits b"
  using u256_contractD [OF assms] by (auto simp: bloomMaybeContains_def Let_def Int_absorb2)

lemma bits_bloomKeyHash:
  assumes "u256_contract U bits"
  shows "bits (bloomKeyHash U i) =
    (let h = ucast i * 15879638260049341073 + 5277654339219660263 :: u64
     in {unat ((h mod 2404975667) AND 255), unat ((h mod 3414420799) AND 255)})"
  using u256_contractD(1,2) [OF assms] unat_and_255
  by (simp add: bloomKeyHash_def Let_def insert_commute)

subsection \<open>The order of the table of contents\<close>

definition toc_key :: "'b catalog_contents_entry_t \<Rightarrow> nat" where
  "toc_key e = 2 ^ 64 - 1 - unat (ce_fileId e)"

lemma toc_key_less: "toc_key a < toc_key b \<longleftrightarrow> ce_fileId b < ce_fileId a"
  and toc_key_le: "toc_key a \<le> toc_key b \<longleftrightarrow> ce_fileId b \<le> ce_fileId a"
  and toc_key_eq: "toc_key a = toc_key b \<longleftrightarrow> ce_fileId a = ce_fileId b"
  using unat_u64_bound [of "ce_fileId a"] unat_u64_bound [of "ce_fileId b"]
  by (auto simp: toc_key_def word_less_unat word_le_unat unat_eq_unat [symmetric])

interpretation toc: key_order toc_compare toc_key
proof unfold_locales
  fix a b :: "'b catalog_contents_entry_t"
  show "toc_compare a b = (if toc_key a < toc_key b then - 1 else if toc_key b < toc_key a then 1 else 0)"
    by (auto simp: toc_compare_def toc_key_less)
qed

interpretation toc: key_cursor toc_compare toc_key toc_prev "2 ^ 64 - 1"
proof unfold_locales
  fix e :: "'b catalog_contents_entry_t"
  assume "toc_key e < 2 ^ 64 - 1"
  then have "ce_fileId e \<noteq> 0" by (auto simp: toc_key_def)
  then have "0 < unat (ce_fileId e)" by (simp add: unat_gt_0)
  with \<open>ce_fileId e \<noteq> 0\<close> show "toc_key (toc_prev e) = Suc (toc_key e)"
    using unat_u64_bound [of "ce_fileId e"] by (simp add: toc_key_def toc_prev_def unat_dec)
qed

lemma toc_cmp_0: "toc_compare a b = 0 \<longleftrightarrow> ce_fileId a = ce_fileId b"
  by (simp add: toc.cmp_eq_0 toc_key_eq)

lemma empty_entry_id [simp]: "ce_fileId (empty_entry U f mn) = f"
  by (simp add: empty_entry_def)

lemma rangeScan_entries:
  assumes bt: "btree_contract (en_toc E) toc_compare ok cont" and ok: "ok (ct_tocBTree cat)"
    and u: "u256_contract (en_u256 E) bits"
    and pos: "\<And>e. e \<in> cont (ct_tocBTree cat) \<Longrightarrow> ce_fileId e \<noteq> 0"
  shows "\<exists>es. rangeScan E now indexId startBlock endBlock cat = Some (map ce_fileId es) \<and>
    set es = {e \<in> cont (ct_tocBTree cat). ce_fileId e \<le> now \<and>
        bits (bloomKeyHash (en_u256 E) indexId) \<subseteq> bits (ce_bloom e) \<and>
        ce_blockRangeMin e \<le> endBlock \<and> startBlock \<le> ce_blockRangeMax e} \<and>
    sorted_wrt (\<lambda>a b. ce_fileId a > ce_fileId b) es"
proof -
  let ?t = "ct_tocBTree cat" and ?c = "empty_entry (en_u256 E) now 0"
  let ?Q = "\<lambda>key. u_eq (en_u256 E) (u_and (en_u256 E) (bloomKeyHash (en_u256 E) indexId) (ce_bloom key))
      (bloomKeyHash (en_u256 E) indexId) \<and> ce_blockRangeMin key \<le> endBlock \<and> ce_blockRangeMax key \<ge> startBlock"
  let ?es = "filter ?Q (entries_from toc_key (cont ?t) ?c)"
  have below: "toc_key x < 2 ^ 64 - 1" if "x \<in> cont ?t" for x
    using pos [OF that] unat_u64_bound [of "ce_fileId x"] by (simp add: toc_key_def unat_gt_0)
  note ents = toc.entries_from_contract [OF bt ok, of ?c]
  have "rangeScan E now indexId startBlock endBlock cat = Some (map ce_fileId ?es)"
    unfolding rangeScan_def Let_def
    by (subst toc.scan_loop_entries [OF bt ok], erule below)
      (use run_stop_collect [of "\<lambda>_. False" ?Q ce_fileId "entries_from toc_key (cont ?t) ?c" "[]"]
        in \<open>simp add: takeWhile_eq_all_conv [THEN iffD2]\<close>)
  moreover have "set ?es = {e \<in> cont ?t. ce_fileId e \<le> now \<and>
        bits (bloomKeyHash (en_u256 E) indexId) \<subseteq> bits (ce_bloom e) \<and>
        ce_blockRangeMin e \<le> endBlock \<and> startBlock \<le> ce_blockRangeMax e}"
    by (auto simp: ents(1) toc_key_le bloom_test [OF u] empty_entry_id)
  moreover have "sorted_wrt (\<lambda>a b. ce_fileId a > ce_fileId b) ?es"
    by (intro sorted_wrt_filter sorted_wrt_mono_rel [OF _ ents(3)])
      (auto simp: toc_compare_def split: if_splits)
  ultimately show ?thesis by blast
qed

subsection \<open>Interleavings\<close>

text \<open>\<open>e\<close> is in the segment index of file \<open>f\<close>.\<close>

definition in_files ::
  "('t \<Rightarrow> segment_btree_metadata_t set) \<Rightarrow> ('tt, 'b, 't, 'r, 'd) Catalog \<Rightarrow> u64 \<Rightarrow> segment_btree_metadata_t \<Rightarrow> bool" where
  "in_files segs cat f e \<longleftrightarrow> (\<exists>file. ct_files cat f = Some file \<and> e \<in> segs (cf_segmentIndex file))"

text \<open>No file and no pending task has a segment with this key yet.\<close>

definition fresh_segment ::
  "('t \<Rightarrow> segment_btree_metadata_t set) \<Rightarrow> ('tt, 'b, 't, 'r, 'd) Catalog \<Rightarrow> u16 \<Rightarrow> u64 \<Rightarrow> u16 \<Rightarrow> bool" where
  "fresh_segment segs cat indexId startBlock gen \<longleftrightarrow>
     (\<forall>f e. in_files segs cat f e \<longrightarrow>
        \<not> (sg_indexId e = indexId \<and> sg_blockRangeStart e = startBlock \<and> sg_mergeGeneration e = ucast gen)) \<and>
     (\<forall>tk \<in> set (ct_tasks cat).
        \<not> (tk_indexId tk = indexId \<and> tk_startBlock tk = startBlock \<and> tk_mergeGeneration tk = gen))"

text \<open>The steps of the background tasks, in any order.\<close>

inductive task_step ::
  "('tt, 'b, 't, 'r, 'd, 'm) catalog_env \<Rightarrow>
   ('tt, 'b, 't, 'r, 'd) Catalog \<Rightarrow> ('tt, 'b, 't, 'r, 'd) Catalog \<Rightarrow> bool" for E where
  step_write: "i < length (ct_tasks cat) \<Longrightarrow> tk_stage (ct_tasks cat ! i) = Queued \<Longrightarrow>
     task_step E cat (task_write E i cat)"
| step_catalogue: "i < length (ct_tasks cat) \<Longrightarrow> tk_stage (ct_tasks cat ! i) = Written \<Longrightarrow>
     task_step E cat (task_catalogue E i cat)"
| step_end: "i < length (ct_tasks cat) \<Longrightarrow> tk_stage (ct_tasks cat ! i) = Catalogued \<Longrightarrow>
     task_step E cat (end_task i cat)"

text \<open>
  One step of the catalog: a \<open>writeSegment\<close> call of a client that never writes the same
  segment twice, or one step of a background task.
\<close>

inductive cat_step ::
  "('tt, 'b, 't, 'r, 'd, 'm) catalog_env \<Rightarrow> ('t \<Rightarrow> segment_btree_metadata_t set) \<Rightarrow>
   ('tt, 'b, 't, 'r, 'd) Catalog \<Rightarrow> ('tt, 'b, 't, 'r, 'd) Catalog \<Rightarrow> bool" for E segs where
  step_submit: "fresh_segment segs cat indexId startBlock gen \<Longrightarrow>
     writeSegment E now now' indexId version gen startBlock endBlock content cat = Some (r, cat') \<Longrightarrow>
     cat_step E segs cat cat'"
| step_task: "task_step E cat cat' \<Longrightarrow> cat_step E segs cat cat'"

inductive_cases task_stepE: "task_step E cat cat'"
inductive_cases cat_stepE: "cat_step E segs cat cat'"

definition covers :: "'b u256_ops \<Rightarrow> ('b \<Rightarrow> nat set) \<Rightarrow> 'b catalog_contents_entry_t \<Rightarrow> u16 \<Rightarrow> u64 \<Rightarrow> u64 \<Rightarrow> bool" where
  "covers U bits e indexId startBlock endBlock \<longleftrightarrow>
     bits (bloomKeyHash U indexId) \<subseteq> bits (ce_bloom e) \<and>
     ce_blockRangeMin e \<le> startBlock \<and> endBlock \<le> ce_blockRangeMax e"

definition task_of :: "'b segment_task \<Rightarrow> u64 \<Rightarrow> segment_btree_metadata_t \<Rightarrow> bool" where
  "task_of tk f e \<longleftrightarrow> tk_file tk = f \<and> tk_indexId tk = sg_indexId e \<and>
     tk_startBlock tk = sg_blockRangeStart e \<and> tk_endBlock tk = sg_blockRangeEnd e"

text \<open>The segments of queued tasks are in no file yet, and no two tasks have the same segment.\<close>

abbreviation tk_segment :: "'b segment_task \<Rightarrow> u16 \<times> u64 \<times> u16" where
  "tk_segment tk \<equiv> (tk_indexId tk, tk_startBlock tk, tk_mergeGeneration tk)"

definition tasks_fresh ::
  "('t \<Rightarrow> segment_btree_metadata_t set) \<Rightarrow> ('tt, 'b, 't, 'r, 'd) Catalog \<Rightarrow> bool" where
  "tasks_fresh segs cat \<longleftrightarrow>
     (\<forall>tk f e. tk \<in> set (ct_tasks cat) \<and> tk_stage tk = Queued \<and> in_files segs cat f e \<longrightarrow>
        \<not> (sg_indexId e = tk_indexId tk \<and> sg_blockRangeStart e = tk_startBlock tk \<and>
           sg_mergeGeneration e = ucast (tk_mergeGeneration tk))) \<and>
     distinct (map tk_segment (ct_tasks cat))"

text \<open>
  The invariant of the store: every segment in a file is covered by the TOC entry of its
  file, or its task has still to catalogue it.
\<close>

definition accounted ::
  "('tt, 'b, 't, 'r, 'd, 'm) catalog_env \<Rightarrow> ('b \<Rightarrow> nat set) \<Rightarrow> ('tt \<Rightarrow> 'b catalog_contents_entry_t set) \<Rightarrow>
   ('tt, 'b, 't, 'r, 'd) Catalog \<Rightarrow> u64 \<Rightarrow> segment_btree_metadata_t \<Rightarrow> bool" where
  "accounted E bits toc cat f e \<longleftrightarrow>
     (\<exists>k \<in> toc (ct_tocBTree cat). ce_fileId k = f \<and>
        covers (en_u256 E) bits k (sg_indexId e) (sg_blockRangeStart e) (sg_blockRangeEnd e)) \<or>
     (\<exists>tk \<in> set (ct_tasks cat). tk_stage tk = Written \<and> task_of tk f e)"

definition cat_inv ::
  "('tt, 'b, 't, 'r, 'd, 'm) catalog_env \<Rightarrow> ('b \<Rightarrow> nat set) \<Rightarrow> ('tt \<Rightarrow> bool) \<Rightarrow> ('tt \<Rightarrow> 'b catalog_contents_entry_t set) \<Rightarrow>
   ('t \<Rightarrow> bool) \<Rightarrow> ('t \<Rightarrow> segment_btree_metadata_t set) \<Rightarrow> ('tt, 'b, 't, 'r, 'd) Catalog \<Rightarrow> bool" where
  "cat_inv E bits okT toc okS segs cat \<longleftrightarrow>
     okT (ct_tocBTree cat) \<and>
     (\<forall>f file. ct_files cat f = Some file \<longrightarrow> okS (cf_segmentIndex file)) \<and>
     (\<forall>tk \<in> set (ct_tasks cat). ct_files cat (tk_file tk) \<noteq> None \<and> ce_fileId (tk_key tk) = tk_file tk) \<and>
     tasks_fresh segs cat \<and>
     (\<forall>f e. in_files segs cat f e \<longrightarrow> accounted E bits toc cat f e)"

lemma cat_invI:
  assumes "okT (ct_tocBTree cat)"
    and "\<And>f file. ct_files cat f = Some file \<Longrightarrow> okS (cf_segmentIndex file)"
    and "\<And>tk. tk \<in> set (ct_tasks cat) \<Longrightarrow> ct_files cat (tk_file tk) \<noteq> None \<and> ce_fileId (tk_key tk) = tk_file tk"
    and "tasks_fresh segs cat"
    and "\<And>f e. in_files segs cat f e \<Longrightarrow> accounted E bits toc cat f e"
  shows "cat_inv E bits okT toc okS segs cat"
  using assms by (simp add: cat_inv_def)

lemma cat_invD:
  assumes "cat_inv E bits okT toc okS segs cat"
  shows "okT (ct_tocBTree cat)"
    and "\<And>f file. ct_files cat f = Some file \<Longrightarrow> okS (cf_segmentIndex file)"
    and "\<And>tk. tk \<in> set (ct_tasks cat) \<Longrightarrow> ct_files cat (tk_file tk) \<noteq> None \<and> ce_fileId (tk_key tk) = tk_file tk"
    and "tasks_fresh segs cat"
    and "\<And>f e. in_files segs cat f e \<Longrightarrow> accounted E bits toc cat f e"
  using assms by (simp_all add: cat_inv_def)

text \<open>What the store relies on.\<close>

definition catalog_contract ::
  "('tt, 'b, 't, 'r, 'd, 'm) catalog_env \<Rightarrow> ('b \<Rightarrow> nat set) \<Rightarrow> ('tt \<Rightarrow> bool) \<Rightarrow> ('tt \<Rightarrow> 'b catalog_contents_entry_t set) \<Rightarrow>
   ('t \<Rightarrow> bool) \<Rightarrow> ('t \<Rightarrow> segment_btree_metadata_t set) \<Rightarrow> bool" where
  "catalog_contract E bits okT toc okS segs \<longleftrightarrow>
     u256_contract (en_u256 E) bits \<and>
     btree_contract (en_toc E) toc_compare okT toc \<and>
     btree_contract (en_seg E) seg_compare okS segs \<and>
     okS (cf_segmentIndex (en_newFile E)) \<and> segs (cf_segmentIndex (en_newFile E)) = {} \<and>
     (\<forall>cs. mset (en_sort E cs) = mset cs)"

subsection \<open>Each step keeps the invariant\<close>

lemma in_set_list_update: "x \<in> set (xs[i := y]) \<Longrightarrow> x = y \<or> (\<exists>j < length xs. j \<noteq> i \<and> x = xs ! j)"
  by (metis in_set_conv_nth length_list_update nth_list_update_eq nth_list_update_neq)

lemma in_set_list_updateI: "t \<in> set xs \<Longrightarrow> t \<noteq> xs ! i \<Longrightarrow> t \<in> set (xs[i := y])"
  by (metis in_set_conv_nth length_list_update nth_list_update_neq)

lemma set_without_nth:
  assumes "i < length xs"
  shows "set (take i xs @ drop (Suc i) xs) \<subseteq> set xs"
    and "x \<in> set xs \<Longrightarrow> x \<noteq> xs ! i \<Longrightarrow> x \<in> set (take i xs @ drop (Suc i) xs)"
    and "distinct (map g xs) \<Longrightarrow> distinct (map g (take i xs @ drop (Suc i) xs))"
proof -
  have xs: "xs = take i xs @ xs ! i # drop (Suc i) xs" using assms by (rule id_take_nth_drop)
  show "set (take i xs @ drop (Suc i) xs) \<subseteq> set xs"
    by (simp add: set_take_subset set_drop_subset)
  show "x \<in> set (take i xs @ drop (Suc i) xs)" if "x \<in> set xs" "x \<noteq> xs ! i"
    using that arg_cong [OF xs, of set] by auto
  show "distinct (map g (take i xs @ drop (Suc i) xs))" if "distinct (map g xs)"
    using that by (subst (asm) xs) auto
qed

lemma tasks_freshI:
  assumes "\<And>tk f e. tk \<in> set (ct_tasks cat) \<Longrightarrow> tk_stage tk = Queued \<Longrightarrow> in_files segs cat f e \<Longrightarrow>
        \<not> (sg_indexId e = tk_indexId tk \<and> sg_blockRangeStart e = tk_startBlock tk \<and>
           sg_mergeGeneration e = ucast (tk_mergeGeneration tk))"
    and "distinct (map tk_segment (ct_tasks cat))"
  shows "tasks_fresh segs cat"
  using assms unfolding tasks_fresh_def by blast

lemma tasks_freshD:
  assumes "tasks_fresh segs cat"
  shows "tk \<in> set (ct_tasks cat) \<Longrightarrow> tk_stage tk = Queued \<Longrightarrow> in_files segs cat f e \<Longrightarrow>
        \<not> (sg_indexId e = tk_indexId tk \<and> sg_blockRangeStart e = tk_startBlock tk \<and>
           sg_mergeGeneration e = ucast (tk_mergeGeneration tk))"
    and "distinct (map tk_segment (ct_tasks cat))"
  using assms unfolding tasks_fresh_def by blast+

lemma end_task_inv:
  assumes "cat_inv E bits okT toc okS segs cat" and "i < length (ct_tasks cat)"
    and "tk_stage (ct_tasks cat ! i) \<noteq> Written"
  shows "cat_inv E bits okT toc okS segs (end_task i cat)"
proof -
  note inv = cat_invD [OF assms(1)] and rest = set_without_nth [OF assms(2)]
  have "tasks_fresh segs (end_task i cat)"
  proof (rule tasks_freshI)
    fix tk f e
    assume "tk \<in> set (ct_tasks (end_task i cat))" and "tk_stage tk = Queued" and "in_files segs (end_task i cat) f e"
    moreover from this have "tk \<in> set (ct_tasks cat)" and "in_files segs cat f e"
      using rest(1) by (auto simp: end_task_def in_files_def)
    ultimately show "\<not> (sg_indexId e = tk_indexId tk \<and> sg_blockRangeStart e = tk_startBlock tk \<and>
           sg_mergeGeneration e = ucast (tk_mergeGeneration tk))"
      by (intro tasks_freshD(1) [OF inv(4)])
  next
    show "distinct (map tk_segment (ct_tasks (end_task i cat)))"
      using rest(3) tasks_freshD(2) [OF inv(4)] by (simp add: end_task_def)
  qed
  moreover have "accounted E bits toc (end_task i cat) f e" if "in_files segs (end_task i cat) f e" for f e
  proof -
    have "accounted E bits toc cat f e" using inv(5) that by (simp add: in_files_def end_task_def)
    then show ?thesis
      using rest(2) assms(3) unfolding accounted_def end_task_def by fastforce
  qed
  ultimately show ?thesis
    using inv(1-3) rest(1) by (intro cat_invI) (auto simp: end_task_def)
qed

lemma add_to_entry_covers:
  assumes "u256_contract U bits"
  shows "covers U bits key x s e \<Longrightarrow> covers U bits (add_to_entry U totalBytes tk key) x s e"
    and "covers U bits (add_to_entry U totalBytes tk key) (tk_indexId tk) (tk_startBlock tk) (tk_endBlock tk)"
    and "ce_fileId (add_to_entry U totalBytes tk key) = ce_fileId key"
  using u256_contractD(4) [OF assms] by (auto simp: covers_def add_to_entry_def min_def max_def)

text \<open>Moving one task to a later stage, on the same or grown files.\<close>

lemma tasks_fresh_stage:
  assumes fresh: "tasks_fresh segs cat" and i: "i < length (ct_tasks cat)" and "st \<noteq> Queued"
    and tasks: "ct_tasks cat' = (ct_tasks cat)[i := (ct_tasks cat ! i)\<lparr>tk_stage := st\<rparr>]"
    and files: "\<And>f e. in_files segs cat' f e \<Longrightarrow> in_files segs cat f e \<or>
      (sg_indexId e, sg_blockRangeStart e, sg_mergeGeneration e) =
        (tk_indexId (ct_tasks cat ! i), tk_startBlock (ct_tasks cat ! i), ucast (tk_mergeGeneration (ct_tasks cat ! i)))"
  shows "tasks_fresh segs cat'"
proof (rule tasks_freshI)
  have keys: "map tk_segment (ct_tasks cat') = map tk_segment (ct_tasks cat)"
    using i by (simp add: tasks map_update list_update_same_conv)
  then show "distinct (map tk_segment (ct_tasks cat'))" using tasks_freshD(2) [OF fresh] by simp
  fix t f e
  assume t: "t \<in> set (ct_tasks cat')" "tk_stage t = Queued" and e: "in_files segs cat' f e"
  then have "t = (ct_tasks cat ! i)\<lparr>tk_stage := st\<rparr> \<or> (\<exists>j < length (ct_tasks cat). j \<noteq> i \<and> t = ct_tasks cat ! j)"
    by (intro in_set_list_update) (simp add: tasks)
  with t(2) \<open>st \<noteq> Queued\<close> obtain j where j: "j < length (ct_tasks cat)" "j \<noteq> i" "t = ct_tasks cat ! j"
    by auto
  then have other: "tk_segment t \<noteq> tk_segment (ct_tasks cat ! i)"
    using tasks_freshD(2) [OF fresh] i by (auto simp: distinct_conv_nth dest!: spec [of _ i])
  with other files [OF e] j t(2) show "\<not> (sg_indexId e = tk_indexId t \<and> sg_blockRangeStart e = tk_startBlock t \<and>
         sg_mergeGeneration e = ucast (tk_mergeGeneration t))"
    using tasks_freshD(1) [OF fresh, of t f e] by auto
qed

lemma task_catalogue_toc:
  assumes bt: "btree_contract (en_toc E) toc_compare okT toc" and ok: "okT (ct_tocBTree cat)"
    and fid: "ce_fileId (tk_key (ct_tasks cat ! i)) = tk_file (ct_tasks cat ! i)"
  obtains old totalBytes where "ce_fileId old = tk_file (ct_tasks cat ! i)"
    and "\<And>k. k \<in> toc (ct_tocBTree cat) \<Longrightarrow> ce_fileId k = tk_file (ct_tasks cat ! i) \<Longrightarrow> old = k"
    and "okT (ct_tocBTree (task_catalogue E i cat))"
    and "toc (ct_tocBTree (task_catalogue E i cat)) =
      insert (add_to_entry (en_u256 E) totalBytes (ct_tasks cat ! i) old)
        {y \<in> toc (ct_tocBTree cat). ce_fileId y \<noteq> tk_file (ct_tasks cat ! i)}"
proof -
  define tk where "tk = ct_tasks cat ! i"
  define old where "old = (case bt_find (en_toc E) (ct_tocBTree cat) (tk_key tk) of None \<Rightarrow> tk_key tk | Some k \<Rightarrow> k)"
  define totalBytes where "totalBytes = (case ct_files cat (tk_file tk) of None \<Rightarrow> 0 | Some file \<Rightarrow> getTotalBytes (en_segfile E) file)"
  let ?key = "add_to_entry (en_u256 E) totalBytes tk old"
  have toc': "ct_tocBTree (task_catalogue E i cat) = bt_overwrite (en_toc E) ?key (ct_tocBTree cat)"
    by (simp add: task_catalogue_def Let_def old_def totalBytes_def flip: tk_def)
  have fid': "ce_fileId (tk_key tk) = tk_file tk" using fid by (simp add: tk_def)
  have old_id: "ce_fileId old = tk_file tk"
    using fid' btree_find [OF bt ok] by (auto simp: old_def toc_cmp_0 split: option.splits)
  have found: "old = k" if "k \<in> toc (ct_tocBTree cat)" "ce_fileId k = tk_file tk" for k
    using btree_find [OF bt ok, of "tk_key tk" k] that fid' by (simp add: old_def toc_cmp_0)
  have "ce_fileId ?key = tk_file tk" using old_id by (simp add: add_to_entry_def)
  then show thesis
    using that [of old totalBytes] old_id found btree_overwrite [OF bt ok, of ?key]
    by (simp add: toc' toc_cmp_0 tk_def)
qed

lemma task_catalogue_accounted:
  assumes C: "catalog_contract E bits okT toc okS segs" and I: "cat_inv E bits okT toc okS segs cat"
    and i: "i < length (ct_tasks cat)" and e: "in_files segs (task_catalogue E i cat) f e"
  shows "accounted E bits toc (task_catalogue E i cat) f e"
proof -
  note inv = cat_invD [OF I]
  let ?tk = "ct_tasks cat ! i" and ?cat = "task_catalogue E i cat"
  have u: "u256_contract (en_u256 E) bits" and bt: "btree_contract (en_toc E) toc_compare okT toc"
    using C by (simp_all add: catalog_contract_def)
  note grow = add_to_entry_covers [OF u]
  have "ce_fileId (tk_key ?tk) = tk_file ?tk" using inv(3) i by simp
  then obtain old totalBytes where old_id: "ce_fileId old = tk_file ?tk"
    and found: "\<And>k. k \<in> toc (ct_tocBTree cat) \<Longrightarrow> ce_fileId k = tk_file ?tk \<Longrightarrow> old = k"
    and "okT (ct_tocBTree ?cat)"
    and toc': "toc (ct_tocBTree ?cat) = insert (add_to_entry (en_u256 E) totalBytes ?tk old)
        {y \<in> toc (ct_tocBTree cat). ce_fileId y \<noteq> tk_file ?tk}"
    by (rule task_catalogue_toc [OF bt inv(1)]) blast
  let ?key = "add_to_entry (en_u256 E) totalBytes ?tk old"
  have key_id: "ce_fileId ?key = tk_file ?tk" using grow(3) old_id by simp
  have "accounted E bits toc cat f e"
    using inv(5) e by (simp add: in_files_def task_catalogue_def Let_def)
  then consider k where "k \<in> toc (ct_tocBTree cat)" "ce_fileId k = f"
        "covers (en_u256 E) bits k (sg_indexId e) (sg_blockRangeStart e) (sg_blockRangeEnd e)"
    | t where "t \<in> set (ct_tasks cat)" "tk_stage t = Written" "task_of t f e"
    unfolding accounted_def by blast
  then show ?thesis
  proof cases
    case 1
    then show ?thesis
      using found [of k] grow(1) key_id by (cases "f = tk_file ?tk") (auto simp: accounted_def toc')
  next
    case 2
    show ?thesis
    proof (cases "t = ?tk")
      case True
      then show ?thesis
        using 2(3) grow(2) [of totalBytes ?tk old] key_id by (auto simp: accounted_def task_of_def toc')
    next
      case False
      then have "t \<in> set (ct_tasks ?cat)"
        using in_set_list_updateI [OF 2(1)] by (simp add: task_catalogue_def Let_def)
      with 2 show ?thesis by (auto simp: accounted_def)
    qed
  qed
qed

lemma task_catalogue_inv:
  assumes C: "catalog_contract E bits okT toc okS segs" and I: "cat_inv E bits okT toc okS segs cat"
    and i: "i < length (ct_tasks cat)"
  shows "cat_inv E bits okT toc okS segs (task_catalogue E i cat)"
proof (rule cat_invI)
  note inv = cat_invD [OF I]
  let ?cat = "task_catalogue E i cat"
  have bt: "btree_contract (en_toc E) toc_compare okT toc" using C by (simp add: catalog_contract_def)
  have fid: "ce_fileId (tk_key (ct_tasks cat ! i)) = tk_file (ct_tasks cat ! i)" using inv(3) i by simp
  show "okT (ct_tocBTree ?cat)" by (rule task_catalogue_toc [OF bt inv(1) fid])
  show "okS (cf_segmentIndex cf)" if "ct_files ?cat f = Some cf" for f cf
    using inv(2) that by (simp add: task_catalogue_def Let_def)
  show "ct_files ?cat (tk_file t) \<noteq> None \<and> ce_fileId (tk_key t) = tk_file t" if "t \<in> set (ct_tasks ?cat)" for t
    using in_set_list_update [of t "ct_tasks cat" i] that inv(3) i nth_mem [OF i]
    by (fastforce simp: task_catalogue_def Let_def)
  show "tasks_fresh segs ?cat"
    by (rule tasks_fresh_stage [OF inv(4) i, of Catalogued])
      (auto simp: task_catalogue_def Let_def in_files_def)
qed (rule task_catalogue_accounted [OF C I i])

lemma task_segment_new:
  assumes C: "catalog_contract E bits okT toc okS segs" and I: "cat_inv E bits okT toc okS segs cat"
    and i: "i < length (ct_tasks cat)" and stage: "tk_stage (ct_tasks cat ! i) = Queued"
    and cf: "ct_files cat (tk_file (ct_tasks cat ! i)) = Some cf"
    and md: "sg_indexId md = tk_indexId (ct_tasks cat ! i)" "sg_blockRangeStart md = tk_startBlock (ct_tasks cat ! i)"
      "sg_mergeGeneration md = ucast (tk_mergeGeneration (ct_tasks cat ! i))"
  shows "okS (bt_insert (en_seg E) md (cf_segmentIndex cf)) \<and>
    segs (bt_insert (en_seg E) md (cf_segmentIndex cf)) = insert md (segs (cf_segmentIndex cf))"
proof -
  note inv = cat_invD [OF I]
  let ?tk = "ct_tasks cat ! i"
  have bt: "btree_contract (en_seg E) seg_compare okS segs" using C by (simp add: catalog_contract_def)
  have "in_files segs cat (tk_file ?tk) y" if "y \<in> segs (cf_segmentIndex cf)" for y
    using that cf by (simp add: in_files_def)
  then have new: "\<forall>y \<in> segs (cf_segmentIndex cf). seg_compare y md \<noteq> 0"
    using tasks_freshD(1) [OF inv(4), of ?tk "tk_file ?tk"] i stage md
    by (fastforce simp: seg_compare_def split: if_splits)
  from btree_insert [OF bt inv(2) [OF cf] new] show ?thesis by simp
qed

lemma task_write_success_inv:
  assumes C: "catalog_contract E bits okT toc okS segs" and I: "cat_inv E bits okT toc okS segs cat"
    and i: "i < length (ct_tasks cat)" and stage: "tk_stage (ct_tasks cat ! i) = Queued"
    and cf: "ct_files cat (tk_file (ct_tasks cat ! i)) = Some cf"
    and cf': "cf_segmentIndex cf' = bt_insert (en_seg E) md (cf_segmentIndex cf)"
    and md: "sg_indexId md = tk_indexId (ct_tasks cat ! i)" "sg_blockRangeStart md = tk_startBlock (ct_tasks cat ! i)"
      "sg_blockRangeEnd md = tk_endBlock (ct_tasks cat ! i)"
      "sg_mergeGeneration md = ucast (tk_mergeGeneration (ct_tasks cat ! i))"
  shows "cat_inv E bits okT toc okS segs
    (cat\<lparr>ct_files := (ct_files cat)(tk_file (ct_tasks cat ! i) \<mapsto> cf'),
         ct_tasks := (ct_tasks cat)[i := (ct_tasks cat ! i)\<lparr>tk_stage := Written\<rparr>]\<rparr>)" (is "cat_inv _ _ _ _ _ _ ?cat")
proof (rule cat_invI)
  note inv = cat_invD [OF I]
  let ?tk = "ct_tasks cat ! i"
  note ins = task_segment_new [OF C I i stage cf md(1,2,4)]
  have files: "in_files segs ?cat f e \<longleftrightarrow> in_files segs cat f e \<or> f = tk_file ?tk \<and> e = md" for f e
    using ins cf cf' by (auto simp: in_files_def)
  show "okT (ct_tocBTree ?cat)" using inv(1) by simp
  show "okS (cf_segmentIndex x)" if "ct_files ?cat f = Some x" for f x
    using that inv(2) ins cf' by (auto split: if_splits)
  show "ct_files ?cat (tk_file t) \<noteq> None \<and> ce_fileId (tk_key t) = tk_file t" if "t \<in> set (ct_tasks ?cat)" for t
    using in_set_list_update [of t "ct_tasks cat" i] that inv(3) i nth_mem [OF i] by fastforce
  show "tasks_fresh segs ?cat"
    by (rule tasks_fresh_stage [OF inv(4) i, of Written]) (auto simp: files md)
  show "accounted E bits toc ?cat f e" if "in_files segs ?cat f e" for f e
  proof (cases "in_files segs cat f e")
    case True
    have "t \<in> set (ct_tasks ?cat)" if "t \<in> set (ct_tasks cat)" "tk_stage t = Written" for t
    proof -
      have "t \<noteq> ?tk" using that stage by auto
      from in_set_list_updateI [OF that(1) this] show ?thesis by simp
    qed
    with inv(5) [OF True] show ?thesis unfolding accounted_def by auto
  next
    case False
    then have "task_of (?tk\<lparr>tk_stage := Written\<rparr>) f e" using that files md by (simp add: task_of_def)
    moreover have "?tk\<lparr>tk_stage := Written\<rparr> \<in> set (ct_tasks ?cat)" using i by (simp add: set_update_memI)
    ultimately show ?thesis unfolding accounted_def by (intro disjI2 bexI) auto
  qed
qed

lemma task_write_inv:
  assumes C: "catalog_contract E bits okT toc okS segs" and I: "cat_inv E bits okT toc okS segs cat"
    and i: "i < length (ct_tasks cat)" and stage: "tk_stage (ct_tasks cat ! i) = Queued"
  shows "cat_inv E bits okT toc okS segs (task_write E i cat)"
proof -
  note inv = cat_invD [OF I]
  let ?tk = "ct_tasks cat ! i"
  obtain cf where cf: "ct_files cat (tk_file ?tk) = Some cf" using inv(3) i nth_mem by blast
  obtain r cf' where ce: "createEntry (en_seg E) (en_segfile E) (tk_indexId ?tk) (tk_version ?tk)
      (tk_mergeGeneration ?tk) (tk_startBlock ?tk) (tk_endBlock ?tk) (tk_content ?tk) cf = (r, cf')" by fastforce
  from createEntry_cases [OF ce] consider "r = Inl Runtime_error" "cf_segmentIndex cf' = cf_segmentIndex cf"
    | md where "r = Inr ()" "cf_segmentIndex cf' = bt_insert (en_seg E) md (cf_segmentIndex cf)"
      "sg_indexId md = tk_indexId ?tk" "sg_blockRangeStart md = tk_startBlock ?tk"
      "sg_blockRangeEnd md = tk_endBlock ?tk" "sg_mergeGeneration md = ucast (tk_mergeGeneration ?tk)" by blast
  then show ?thesis
  proof cases
    case 1
    let ?cat = "cat\<lparr>ct_files := (ct_files cat)(tk_file ?tk \<mapsto> cf')\<rparr>"
    have same: "in_files segs ?cat f e = in_files segs cat f e" for f e
      using 1 cf by (auto simp: in_files_def)
    have "cat_inv E bits okT toc okS segs ?cat"
      using inv 1 cf same by (intro cat_invI) (auto simp: tasks_fresh_def accounted_def split: if_splits)
    then show ?thesis
      using end_task_inv [of E bits okT toc okS segs ?cat i] i stage cf ce 1 by (simp add: task_write_def)
  next
    case 2
    then show ?thesis
      using task_write_success_inv [OF C I i stage cf 2(2-6)] ce cf by (simp add: task_write_def Let_def)
  qed
qed

lemma pick_candidate_Some:
  "pick_candidate E cat cs = Inr (Some (f, key)) \<Longrightarrow>
     f \<in> fst ` set cs \<and> ct_files cat f \<noteq> None \<and> f \<notin> ct_filesBeingWritten cat \<and>
     bt_find (en_toc E) (ct_tocBTree cat) (empty_entry (en_u256 E) f 0) = Some key"
  by (induction E cat cs rule: pick_candidate.induct)
    (auto simp: getCatalogFile_def split: option.splits if_splits)

text \<open>What \<open>selectFileFor\<close> may do to the catalog: take a new file id and create its file.\<close>

lemma selectFileFor_frame:
  assumes "selectFileFor E now now' indexId startBlock endBlock sz cat = Some (r, cat')"
  shows "ct_tocBTree cat' = ct_tocBTree cat" and "ct_tasks cat' = ct_tasks cat"
    and "ct_filesBeingWritten cat' = ct_filesBeingWritten cat"
    and "ct_files cat' f = ct_files cat f \<or> ct_files cat f = None \<and> ct_files cat' f = Some (en_newFile E)"
  using assms
  by (auto simp: selectFileFor_def Let_def split: option.splits sum.splits prod.splits if_splits)

lemma selectFileFor_file:
  assumes bt: "btree_contract (en_toc E) toc_compare okT toc" and ok: "okT (ct_tocBTree cat)"
    and sel: "selectFileFor E now now' indexId startBlock endBlock sz cat = Some (Inr (Some f, key), cat')"
  shows "ct_files cat' f \<noteq> None \<and> ce_fileId key = f"
proof (cases "\<exists>cs. pick_candidate E cat cs = Inr (Some (f, key))")
  case True
  then obtain cs where "pick_candidate E cat cs = Inr (Some (f, key))" by blast
  from pick_candidate_Some [OF this] have "ct_files cat f \<noteq> None" "ce_fileId key = f"
    using btree_find [OF bt ok] by (auto simp: toc_cmp_0)
  then show ?thesis using selectFileFor_frame(4) [OF sel, of f] by auto
next
  case False
  then show ?thesis
    using sel by (auto simp: selectFileFor_def Let_def split: option.splits sum.splits prod.splits if_splits)
qed

lemma writeSegment_cases:
  assumes "writeSegment E now now' indexId version gen startBlock endBlock content cat = Some (r, cat')"
  obtains (failed) q where "r \<noteq> Inr ()"
      "selectFileFor E now now' indexId startBlock endBlock (word_of_nat (length content)) cat = Some (q, cat')"
  | (submitted) f key cat1 where "r = Inr ()"
      "selectFileFor E now now' indexId startBlock endBlock (word_of_nat (length content)) cat = Some (Inr (Some f, key), cat1)"
      "cat' = cat1\<lparr>ct_filesBeingWritten := insert f (ct_filesBeingWritten cat1),
        ct_tasks := ct_tasks cat1 @
          [\<lparr>tk_indexId = indexId, tk_version = version, tk_mergeGeneration = gen,
            tk_startBlock = startBlock, tk_endBlock = endBlock, tk_content = content,
            tk_file = f, tk_key = key, tk_stage = Queued\<rparr>]\<rparr>"
  using assms by (auto simp: writeSegment_def split: option.splits prod.splits sum.splits)

lemma selectFileFor_inv:
  assumes C: "catalog_contract E bits okT toc okS segs" and I: "cat_inv E bits okT toc okS segs cat"
    and sel: "selectFileFor E now now' indexId startBlock endBlock sz cat = Some (r, cat')"
  shows "cat_inv E bits okT toc okS segs cat'" and "in_files segs cat' f e = in_files segs cat f e"
proof -
  note inv = cat_invD [OF I] and frame = selectFileFor_frame [OF sel]
  have new: "okS (cf_segmentIndex (en_newFile E))" "segs (cf_segmentIndex (en_newFile E)) = {}"
    using C by (simp_all add: catalog_contract_def)
  show files: "in_files segs cat' f e = in_files segs cat f e" for f e
    using frame(4) [of f] new(2) unfolding in_files_def by (cases "ct_files cat f") auto
  show "cat_inv E bits okT toc okS segs cat'"
  proof (rule cat_invI)
    show "okT (ct_tocBTree cat')" using inv(1) frame(1) by simp
    show "okS (cf_segmentIndex x)" if "ct_files cat' g = Some x" for g x
      using frame(4) [of g] inv(2) [of g] new(1) that by auto
    show "ct_files cat' (tk_file t) \<noteq> None \<and> ce_fileId (tk_key t) = tk_file t" if "t \<in> set (ct_tasks cat')" for t
      using frame(2) frame(4) [of "tk_file t"] inv(3) [of t] that by auto
    show "tasks_fresh segs cat'" using inv(4) unfolding tasks_fresh_def frame(2) files by blast
    show "accounted E bits toc cat' g e" if "in_files segs cat' g e" for g e
      using inv(5) that by (simp add: files accounted_def frame(1,2))
  qed
qed

lemma writeSegment_inv:
  assumes C: "catalog_contract E bits okT toc okS segs" and I: "cat_inv E bits okT toc okS segs cat"
    and fresh: "fresh_segment segs cat indexId startBlock gen"
    and ws: "writeSegment E now now' indexId version gen startBlock endBlock content cat = Some (r, cat')"
  shows "cat_inv E bits okT toc okS segs cat'"
  using ws
proof (cases rule: writeSegment_cases)
  case failed
  then show ?thesis using selectFileFor_inv(1) [OF C I] by blast
next
  case (submitted f key cat1)
  have bt: "btree_contract (en_toc E) toc_compare okT toc" using C by (simp add: catalog_contract_def)
  note inv = cat_invD [OF I] and inv1 = cat_invD [OF selectFileFor_inv(1) [OF C I submitted(2)]]
  note files1 = selectFileFor_inv(2) [OF C I submitted(2)]
  note frame = selectFileFor_frame [OF submitted(2)] and sel = selectFileFor_file [OF bt inv(1) submitted(2)]
  have files: "in_files segs cat' = in_files segs cat"
    using files1 by (auto simp: submitted(3) in_files_def fun_eq_iff)
  show ?thesis
  proof (rule cat_invI)
    show "tasks_fresh segs cat'"
    proof (rule tasks_freshI)
      fix t f e
      assume t: "t \<in> set (ct_tasks cat')" "tk_stage t = Queued" and e: "in_files segs cat' f e"
      have "in_files segs cat f e" using e by (simp add: files)
      with t show "\<not> (sg_indexId e = tk_indexId t \<and> sg_blockRangeStart e = tk_startBlock t \<and>
           sg_mergeGeneration e = ucast (tk_mergeGeneration t))"
        using tasks_freshD(1) [OF inv(4), of t f e] fresh
        by (cases "t \<in> set (ct_tasks cat)") (auto simp: submitted(3) frame(2) fresh_segment_def)
    next
      show "distinct (map tk_segment (ct_tasks cat'))"
        using tasks_freshD(2) [OF inv(4)] fresh by (auto simp: submitted(3) frame(2) fresh_segment_def)
    qed
    show "accounted E bits toc cat' f e" if "in_files segs cat' f e" for f e
    proof -
      have "in_files segs cat f e" using that by (simp only: files)
      from inv(5) [OF this] show ?thesis by (auto simp: accounted_def submitted(3) frame(1,2))
    qed
  qed (use inv1(1-3) sel in \<open>auto simp: submitted(3)\<close>)
qed

lemma cat_step_inv:
  assumes "catalog_contract E bits okT toc okS segs" and "cat_inv E bits okT toc okS segs cat"
    and "cat_step E segs cat cat'"
  shows "cat_inv E bits okT toc okS segs cat'"
  using assms(3)
proof (rule cat_stepE)
  assume "task_step E cat cat'"
  then show ?thesis
    by (rule task_stepE)
      (use task_write_inv [OF assms(1,2)] task_catalogue_inv [OF assms(1,2)] end_task_inv [OF assms(2)] in auto)
qed (rule writeSegment_inv [OF assms(1,2)])

lemma cat_reach_inv:
  assumes "catalog_contract E bits okT toc okS segs" and "okT t0"
    and "(cat_step E segs)\<^sup>*\<^sup>* (new_Catalog t0) cat"
  shows "cat_inv E bits okT toc okS segs cat"
  using assms(3)
proof (induction rule: rtranclp_induct)
  case base
  show ?case
    using assms(2) by (intro cat_invI) (auto simp: new_Catalog_def tasks_fresh_def in_files_def)
next
  case (step cat1 cat2)
  show ?case by (rule cat_step_inv [OF assms(1) step.IH step.hyps(2)])
qed

subsection \<open>Candidate files\<close>

lemma isqrt_bounds: "isqrt n * isqrt n \<le> n \<and> n < Suc (isqrt n) * Suc (isqrt n)"
proof (induction n rule: isqrt.induct)
  case (1 n)
  show ?case
  proof (cases "n = 0")
    case False
    let ?r = "isqrt (n div 4)"
    have "?r * ?r \<le> n div 4" "n div 4 < Suc ?r * Suc ?r" using "1.IH" [OF False] by blast+
    then have "4 * (?r * ?r) \<le> n" "n < 4 * (Suc ?r * Suc ?r)" by linarith+
    moreover have "isqrt n = (if (2 * ?r + 1) * (2 * ?r + 1) \<le> n then 2 * ?r + 1 else 2 * ?r)"
      using False by (simp add: isqrt.simps [of n] Let_def)
    ultimately show ?thesis by (cases "(2 * ?r + 1) * (2 * ?r + 1) \<le> n") (simp_all add: algebra_simps)
  qed (simp add: isqrt.simps)
qed

lemma collect_candidates_within:
  assumes bt: "btree_contract (en_toc E) toc_compare ok toc" and ok: "ok (ct_tocBTree cat)"
    and pos: "\<And>e. e \<in> toc (ct_tocBTree cat) \<Longrightarrow> ce_fileId e \<noteq> 0"
  shows "\<exists>cs. collect_candidates E now indexId startBlock endBlock sz cat = Some cs \<and> length cs \<le> 16 \<and>
    (\<forall>c \<in> set cs. \<exists>k \<in> toc (ct_tocBTree cat). ce_fileId k = fst c \<and> ce_fileId k \<le> now \<and>
       ce_totalBytes k + ucast sz \<le> CATALOG_FILE_MAX_BYTES)"
proof -
  let ?t = "ct_tocBTree cat" and ?c = "empty_entry (en_u256 E) now 0"
  have below: "toc_key x < 2 ^ 64 - 1" if "x \<in> toc ?t" for x
    using pos [OF that] unat_u64_bound [of "ce_fileId x"] by (simp add: toc_key_def unat_gt_0)
  note ents = toc.entries_from_contract(1) [OF bt ok, of ?c]
  let ?I = "\<lambda>cs. length cs \<le> 16 \<and> (\<forall>c \<in> set cs. \<exists>k \<in> toc ?t. ce_fileId k = fst c \<and> ce_fileId k \<le> now \<and>
       ce_totalBytes k + ucast sz \<le> CATALOG_FILE_MAX_BYTES)"
  let ?cs = "run_stop (\<lambda>key cands. \<not> length cands < 16)
       (\<lambda>key cands. if ce_totalBytes key + ucast sz \<le> CATALOG_FILE_MAX_BYTES
                    then cands @ [(ce_fileId key, candidate_score E indexId startBlock endBlock key)]
                    else cands) (entries_from toc_key (toc ?t) ?c) []"
  have "?I ?cs" by (rule run_stop_invariant [of ?I]) (auto simp: ents toc_key_le)
  moreover have "collect_candidates E now indexId startBlock endBlock sz cat = Some ?cs"
    unfolding collect_candidates_def by (subst toc.scan_loop_entries [OF bt ok], erule below) simp
  ultimately show ?thesis by blast
qed

subsection \<open>Draining the tasks\<close>

lemma drain_first:
  assumes "ct_tasks cat = tk # tks"
  shows "\<exists>cat'. (task_step E)\<^sup>*\<^sup>* cat cat' \<and> ct_tasks cat' = tks"
proof -
  have fin: "\<exists>cat'. (task_step E)\<^sup>*\<^sup>* c cat' \<and> ct_tasks cat' = tks"
    if "ct_tasks c = t # tks" "tk_stage t = Catalogued" for c t
    using step_end [of 0 c E] that by (intro exI [of _ "end_task 0 c"]) (auto simp: end_task_def)
  have cata: "\<exists>cat'. (task_step E)\<^sup>*\<^sup>* c cat' \<and> ct_tasks cat' = tks"
    if t: "ct_tasks c = t # tks" "tk_stage t = Written" for c t
  proof -
    have "ct_tasks (task_catalogue E 0 c) = t\<lparr>tk_stage := Catalogued\<rparr> # tks"
      using t by (simp add: task_catalogue_def Let_def)
    then obtain cat' where "(task_step E)\<^sup>*\<^sup>* (task_catalogue E 0 c) cat'" "ct_tasks cat' = tks"
      using fin by fastforce
    moreover have "task_step E c (task_catalogue E 0 c)" using t by (intro step_catalogue) auto
    ultimately show ?thesis by (blast intro: converse_rtranclp_into_rtranclp)
  qed
  show ?thesis
  proof (cases "tk_stage tk")
    case Queued
    have "ct_tasks (task_write E 0 cat) = tks \<or> ct_tasks (task_write E 0 cat) = tk\<lparr>tk_stage := Written\<rparr> # tks"
      using assms by (simp add: task_write_def end_task_def split: option.splits prod.splits sum.splits)
    then obtain cat' where "(task_step E)\<^sup>*\<^sup>* (task_write E 0 cat) cat'" "ct_tasks cat' = tks"
      using cata by fastforce
    moreover have "task_step E cat (task_write E 0 cat)" using assms Queued by (intro step_write) auto
    ultimately show ?thesis by (blast intro: converse_rtranclp_into_rtranclp)
  next
    case Written
    then show ?thesis using cata assms by blast
  next
    case Catalogued
    then show ?thesis using fin assms by blast
  qed
qed

lemma drain_all: "\<exists>cat'. (task_step E)\<^sup>*\<^sup>* cat cat' \<and> ct_tasks cat' = []"
proof (induction "ct_tasks cat" arbitrary: cat)
  case (Cons tk tks)
  from drain_first [of cat tk tks E] Cons(2) obtain cat1
    where "(task_step E)\<^sup>*\<^sup>* cat cat1" "ct_tasks cat1 = tks" by auto
  with Cons(1) [of cat1] show ?case by (meson rtranclp_trans)
qed auto

text \<open>Every step of a task brings it closer to its end, and a pending task can always take one.\<close>

primrec stage_left :: "task_stage \<Rightarrow> nat" where
  "stage_left Queued = 3"
| "stage_left Written = 2"
| "stage_left Catalogued = 1"

definition tasks_left :: "('tt, 'b, 't, 'r, 'd) Catalog \<Rightarrow> nat" where
  "tasks_left cat = sum_list (map (stage_left \<circ> tk_stage) (ct_tasks cat))"

lemma tasks_left_update:
  assumes "i < length tks"
  shows "sum_list (map (stage_left \<circ> tk_stage) (tks[i := t])) + stage_left (tk_stage (tks ! i)) =
      sum_list (map (stage_left \<circ> tk_stage) tks) + stage_left (tk_stage t)"
    and "sum_list (map (stage_left \<circ> tk_stage) (take i tks @ drop (Suc i) tks)) + stage_left (tk_stage (tks ! i)) =
      sum_list (map (stage_left \<circ> tk_stage) tks)"
proof -
  have tks: "tks = take i tks @ tks ! i # drop (Suc i) tks" using assms by (rule id_take_nth_drop)
  have upd: "tks[i := t] = take i tks @ t # drop (Suc i) tks" using assms by (rule upd_conv_take_nth_drop)
  have all: "sum_list (map (stage_left \<circ> tk_stage) tks) = sum_list (map (stage_left \<circ> tk_stage) (take i tks)) +
      (stage_left (tk_stage (tks ! i)) + sum_list (map (stage_left \<circ> tk_stage) (drop (Suc i) tks)))"
    by (subst tks) simp
  show "sum_list (map (stage_left \<circ> tk_stage) (tks[i := t])) + stage_left (tk_stage (tks ! i)) =
      sum_list (map (stage_left \<circ> tk_stage) tks) + stage_left (tk_stage t)" unfolding upd all by simp
  show "sum_list (map (stage_left \<circ> tk_stage) (take i tks @ drop (Suc i) tks)) + stage_left (tk_stage (tks ! i)) =
      sum_list (map (stage_left \<circ> tk_stage) tks)" unfolding all by simp
qed

lemma task_step_left: "task_step E cat cat' \<Longrightarrow> tasks_left cat' < tasks_left cat"
proof (erule task_stepE)
  fix i
  assume i: "i < length (ct_tasks cat)" and st: "tk_stage (ct_tasks cat ! i) = Queued" and c: "cat' = task_write E i cat"
  have "ct_tasks cat' = take i (ct_tasks cat) @ drop (Suc i) (ct_tasks cat) \<or>
      ct_tasks cat' = (ct_tasks cat)[i := (ct_tasks cat ! i)\<lparr>tk_stage := Written\<rparr>]"
    by (auto simp: c task_write_def end_task_def Let_def split: option.splits prod.splits sum.splits)
  then show ?thesis
    using tasks_left_update(1) [OF i, of "(ct_tasks cat ! i)\<lparr>tk_stage := Written\<rparr>"] tasks_left_update(2) [OF i] st
    unfolding tasks_left_def by (elim disjE) simp_all
next
  fix i
  assume i: "i < length (ct_tasks cat)" and st: "tk_stage (ct_tasks cat ! i) = Written" and c: "cat' = task_catalogue E i cat"
  then show ?thesis using tasks_left_update(1) [OF i, of "(ct_tasks cat ! i)\<lparr>tk_stage := Catalogued\<rparr>"]
    by (simp add: tasks_left_def task_catalogue_def Let_def)
next
  fix i
  assume i: "i < length (ct_tasks cat)" and st: "tk_stage (ct_tasks cat ! i) = Catalogued" and c: "cat' = end_task i cat"
  then show ?thesis using tasks_left_update(2) [OF i] by (simp add: tasks_left_def end_task_def)
qed

lemma task_step_enabled: "(\<exists>c. task_step E cat c) \<longleftrightarrow> ct_tasks cat \<noteq> []"
proof
  assume ne: "ct_tasks cat \<noteq> []"
  show "\<exists>c. task_step E cat c"
    using ne task_step.intros [of 0 cat E] by (cases "tk_stage (ct_tasks cat ! 0)") auto
qed (auto elim: task_stepE)

text \<open>Segments stay where they are, and a task past its write has put its segment into its file.\<close>

definition segment_of :: "'b segment_task \<Rightarrow> segment_btree_metadata_t \<Rightarrow> bool" where
  "segment_of tk e \<longleftrightarrow> sg_indexId e = tk_indexId tk \<and> sg_blockRangeStart e = tk_startBlock tk \<and>
     sg_blockRangeEnd e = tk_endBlock tk \<and> sg_mergeGeneration e = ucast (tk_mergeGeneration tk)"

lemma task_write_stores:
  assumes C: "catalog_contract E bits okT toc okS segs" and I: "cat_inv E bits okT toc okS segs cat"
    and i: "i < length (ct_tasks cat)" and stage: "tk_stage (ct_tasks cat ! i) = Queued"
  shows "in_files segs cat f e \<Longrightarrow> in_files segs (task_write E i cat) f e"
    and "t \<in> set (ct_tasks (task_write E i cat)) \<Longrightarrow> t \<in> set (ct_tasks cat) \<or>
      (\<exists>e. in_files segs (task_write E i cat) (tk_file t) e \<and> segment_of t e)"
proof -
  let ?tk = "ct_tasks cat ! i" and ?cat = "task_write E i cat"
  obtain cf where cf: "ct_files cat (tk_file ?tk) = Some cf" using cat_invD(3) [OF I] i nth_mem by blast
  obtain r cf' where ce: "createEntry (en_seg E) (en_segfile E) (tk_indexId ?tk) (tk_version ?tk)
      (tk_mergeGeneration ?tk) (tk_startBlock ?tk) (tk_endBlock ?tk) (tk_content ?tk) cf = (r, cf')" by fastforce
  have files: "ct_files ?cat = (ct_files cat)(tk_file ?tk \<mapsto> cf')"
    using cf ce by (cases r) (simp_all add: task_write_def end_task_def Let_def)
  have "(in_files segs cat f e \<longrightarrow> in_files segs ?cat f e) \<and> (t \<in> set (ct_tasks ?cat) \<longrightarrow> t \<in> set (ct_tasks cat) \<or>
      (\<exists>e. in_files segs ?cat (tk_file t) e \<and> segment_of t e))"
    using createEntry_cases [OF ce]
  proof (elim disjE exE conjE)
    assume r: "r = Inl Runtime_error" "cf_segmentIndex cf' = cf_segmentIndex cf"
    have "set (ct_tasks ?cat) \<subseteq> set (ct_tasks cat)"
      using cf ce r(1) by (auto simp: task_write_def end_task_def Let_def dest: in_set_takeD in_set_dropD)
    with r(2) cf show ?thesis by (auto simp: in_files_def files)
  next
    fix md
    assume r: "r = Inr ()" and cf': "cf_segmentIndex cf' = bt_insert (en_seg E) md (cf_segmentIndex cf)"
      and md: "sg_indexId md = tk_indexId ?tk" "sg_blockRangeStart md = tk_startBlock ?tk"
        "sg_blockRangeEnd md = tk_endBlock ?tk" "sg_mergeGeneration md = ucast (tk_mergeGeneration ?tk)"
    have stored: "segs (cf_segmentIndex cf') = insert md (segs (cf_segmentIndex cf))"
      using task_segment_new [OF C I i stage cf md(1,2,4)] by (simp add: cf')
    have tks: "ct_tasks ?cat = (ct_tasks cat)[i := ?tk\<lparr>tk_stage := Written\<rparr>]" using cf ce r by (simp add: task_write_def Let_def)
    have "in_files segs ?cat (tk_file ?tk) md" by (simp add: in_files_def files stored)
    moreover have "segment_of (?tk\<lparr>tk_stage := Written\<rparr>) md" using md by (simp add: segment_of_def)
    ultimately have "t \<in> set (ct_tasks cat) \<or> (\<exists>e. in_files segs ?cat (tk_file t) e \<and> segment_of t e)" if "t \<in> set (ct_tasks ?cat)"
      using that in_set_list_update [of t "ct_tasks cat" i] unfolding tks by (metis nth_mem segment_task.select_convs(7) segment_task.surjective segment_task.update_convs(9))
    moreover have "in_files segs cat f e \<longrightarrow> in_files segs ?cat f e" using cf by (auto simp: in_files_def files stored)
    ultimately show ?thesis by blast
  qed
  then show "in_files segs cat f e \<Longrightarrow> in_files segs ?cat f e"
    and "t \<in> set (ct_tasks ?cat) \<Longrightarrow> t \<in> set (ct_tasks cat) \<or> (\<exists>e. in_files segs ?cat (tk_file t) e \<and> segment_of t e)" by blast+
qed

lemma task_step_stores:
  assumes C: "catalog_contract E bits okT toc okS segs" and I: "cat_inv E bits okT toc okS segs cat"
    and step: "task_step E cat cat'"
  shows "in_files segs cat f e \<Longrightarrow> in_files segs cat' f e"
    and "t \<in> set (ct_tasks cat') \<Longrightarrow> tk_stage t \<noteq> Queued \<Longrightarrow>
      (\<exists>t' \<in> set (ct_tasks cat). tk_stage t' \<noteq> Queued \<and> tk_file t' = tk_file t \<and> segment_of t' = segment_of t) \<or>
      (\<exists>e. in_files segs cat' (tk_file t) e \<and> segment_of t e)"
proof -
  show "in_files segs cat f e \<Longrightarrow> in_files segs cat' f e" using step
    by cases
      (auto simp: task_catalogue_def end_task_def in_files_def Let_def intro: task_write_stores(1) [OF C I, unfolded in_files_def])
  show "(\<exists>t' \<in> set (ct_tasks cat). tk_stage t' \<noteq> Queued \<and> tk_file t' = tk_file t \<and> segment_of t' = segment_of t) \<or>
      (\<exists>e. in_files segs cat' (tk_file t) e \<and> segment_of t e)" if t: "t \<in> set (ct_tasks cat')" "tk_stage t \<noteq> Queued"
    using step
  proof cases
    case (step_write i)
    then show ?thesis using task_write_stores(2) [OF C I step_write(2,3), of t] t by auto
  next
    case (step_catalogue i)
    let ?t = "ct_tasks cat ! i"
    have "t = ?t\<lparr>tk_stage := Catalogued\<rparr> \<or> t \<in> set (ct_tasks cat)"
      using t(1) step_catalogue(1) in_set_list_update [of t "ct_tasks cat" i "?t\<lparr>tk_stage := Catalogued\<rparr>"]
      by (auto simp: task_catalogue_def Let_def)
    moreover have "segment_of (?t\<lparr>tk_stage := Catalogued\<rparr>) = segment_of ?t" by (simp add: segment_of_def fun_eq_iff)
    ultimately show ?thesis using t(2) step_catalogue(3) nth_mem [OF step_catalogue(2)] by (elim disjE) fastforce+
  next
    case (step_end i)
    then show ?thesis using t by (auto simp: end_task_def dest: in_set_takeD in_set_dropD)
  qed
qed

text \<open>A file is marked as being written only while a task on it is pending.\<close>

lemma task_step_busy:
  assumes "task_step E cat cat'" and "ct_filesBeingWritten cat \<subseteq> tk_file ` set (ct_tasks cat)"
  shows "ct_filesBeingWritten cat' \<subseteq> tk_file ` set (ct_tasks cat')"
proof -
  have ended: "ct_filesBeingWritten (end_task i c) \<subseteq> tk_file ` set (ct_tasks (end_task i c))"
    if "i < length (ct_tasks c)" "ct_filesBeingWritten c \<subseteq> tk_file ` set (ct_tasks c)" for i c
  proof -
    have "set (ct_tasks c) = insert (ct_tasks c ! i) (set (take i (ct_tasks c)) \<union> set (drop (Suc i) (ct_tasks c)))"
      by (subst id_take_nth_drop [OF that(1)]) simp
    with that(2) show ?thesis by (auto simp: end_task_def)
  qed
  have stage: "tk_file ` set ((ct_tasks cat)[i := (ct_tasks cat ! i)\<lparr>tk_stage := st\<rparr>]) = tk_file ` set (ct_tasks cat)"
    if "i < length (ct_tasks cat)" for i st
  proof -
    have "map tk_file ((ct_tasks cat)[i := (ct_tasks cat ! i)\<lparr>tk_stage := st\<rparr>]) = map tk_file (ct_tasks cat)"
      using that by (simp add: map_update list_update_same_conv)
    then show ?thesis by (metis set_map)
  qed
  from assms show ?thesis
    by (elim task_stepE)
      (auto simp: task_write_def task_catalogue_def Let_def stage ended split: option.splits prod.splits sum.splits)
qed

lemma busy_files:
  assumes "(cat_step E segs)\<^sup>*\<^sup>* (new_Catalog t0) cat"
  shows "ct_filesBeingWritten cat \<subseteq> tk_file ` set (ct_tasks cat)"
  using assms
proof (induction rule: rtranclp_induct)
  case (step cat cat')
  from step.hyps(2) show ?case
  proof (rule cat_stepE)
    fix indexId startBlock gen now now' version endBlock content r
    assume "writeSegment E now now' indexId version gen startBlock endBlock content cat = Some (r, cat')"
    then show ?thesis
    proof (cases rule: writeSegment_cases)
      case failed
      then show ?thesis using step.IH selectFileFor_frame(2,3) [OF failed(2)] by simp
    next
      case (submitted f key cat1)
      then show ?thesis using step.IH selectFileFor_frame(2,3) [OF submitted(2)] by auto
    qed
  qed (rule task_step_busy [OF _ step.IH])
qed (simp add: new_Catalog_def)

lemma written_segments:
  assumes "catalog_contract E bits okT toc okS segs" and "okT t0" and "(cat_step E segs)\<^sup>*\<^sup>* (new_Catalog t0) cat"
    and "t \<in> set (ct_tasks cat)" and "tk_stage t \<noteq> Queued"
  shows "\<exists>e. in_files segs cat (tk_file t) e \<and> segment_of t e"
  using assms(3-)
proof (induction arbitrary: t rule: rtranclp_induct)
  case (step cat cat')
  note I = cat_reach_inv [OF assms(1,2) step.hyps(1)]
  from step.hyps(2) show ?case
  proof (rule cat_stepE)
    fix indexId startBlock gen now now' version endBlock content r
    assume "writeSegment E now now' indexId version gen startBlock endBlock content cat = Some (r, cat')"
    then obtain q cat1 where sel: "selectFileFor E now now' indexId startBlock endBlock (word_of_nat (length content)) cat = Some (q, cat1)"
      and cat1: "ct_files cat' = ct_files cat1" "t \<in> set (ct_tasks cat1)"
      using step.prems by (cases rule: writeSegment_cases) auto
    have "in_files segs cat' f e = in_files segs cat f e" for f e
      using selectFileFor_inv(2) [OF assms(1) I sel] cat1(1) by (simp add: in_files_def)
    then show ?thesis using step.IH [of t] step.prems(2) cat1(2) selectFileFor_frame(2) [OF sel] by simp
  next
    assume ts: "task_step E cat cat'"
    from task_step_stores(2) [OF assms(1) I ts step.prems] step.IH task_step_stores(1) [OF assms(1) I ts]
    show ?thesis by metis
  qed
qed (simp add: new_Catalog_def)

subsection \<open>What a scan of a drained catalog finds\<close>

lemma rangeScan_finds:
  assumes C: "catalog_contract E bits okT toc okS segs" and I: "cat_inv E bits okT toc okS segs cat"
    and drained: "ct_tasks cat = []" and clock: "\<forall>k \<in> toc (ct_tocBTree cat). ce_fileId k \<noteq> 0 \<and> ce_fileId k \<le> now"
  shows "\<exists>out. rangeScan E now indexId startBlock endBlock cat = Some out \<and>
    (\<forall>f cf e. ct_files cat f = Some cf \<and> e \<in> segs (cf_segmentIndex cf) \<and> sg_indexId e = indexId \<and>
       sg_blockRangeStart e \<le> endBlock \<and> startBlock \<le> sg_blockRangeEnd e \<longrightarrow> f \<in> set out)"
proof -
  note inv = cat_invD [OF I]
  have "u256_contract (en_u256 E) bits" and "btree_contract (en_toc E) toc_compare okT toc"
    using C by (simp_all add: catalog_contract_def)
  from rangeScan_entries [OF this(2) inv(1) this(1), of now indexId startBlock endBlock] clock
  obtain es where scan: "rangeScan E now indexId startBlock endBlock cat = Some (map ce_fileId es)"
    and es: "set es = {e \<in> toc (ct_tocBTree cat). ce_fileId e \<le> now \<and>
        bits (bloomKeyHash (en_u256 E) indexId) \<subseteq> bits (ce_bloom e) \<and>
        ce_blockRangeMin e \<le> endBlock \<and> startBlock \<le> ce_blockRangeMax e}" by blast
  have "f \<in> set (map ce_fileId es)"
    if seg: "ct_files cat f = Some cf" "e \<in> segs (cf_segmentIndex cf)" "sg_indexId e = indexId"
      "sg_blockRangeStart e \<le> endBlock" "startBlock \<le> sg_blockRangeEnd e" for f cf e
  proof -
    have "accounted E bits toc cat f e" using seg(1,2) by (intro inv(5)) (auto simp: in_files_def)
    then obtain k where "k \<in> toc (ct_tocBTree cat)" "ce_fileId k = f"
      "covers (en_u256 E) bits k indexId (sg_blockRangeStart e) (sg_blockRangeEnd e)"
      using drained seg(3) by (auto simp: accounted_def)
    then have "k \<in> set es" using seg(4,5) clock by (auto simp: es covers_def)
    with \<open>ce_fileId k = f\<close> show ?thesis by auto
  qed
  with scan show ?thesis by blast
qed

subsection \<open>Properties\<close>

text \<open>
  C8 (Catalog.catalog_keeps_segments): start from an empty catalog and let \<open>writeSegment\<close> calls
  (of pairwise different segments) and the steps of their background tasks happen in any
  interleaving.  Whenever no task is pending, \<open>rangeScan\<close> terminates and its answer contains
  the file of every segment of the index whose block range meets the query, provided the
  clock has not run behind the file ids.
\<close>

theorem catalog_keeps_segments:
  assumes "catalog_contract E bits okT toc okS segs" and "okT t0"
    and "(cat_step E segs)\<^sup>*\<^sup>* (new_Catalog t0) cat" and "ct_tasks cat = []"
    and "\<forall>k \<in> toc (ct_tocBTree cat). ce_fileId k \<noteq> 0 \<and> ce_fileId k \<le> now"
  shows "\<exists>out. rangeScan E now indexId startBlock endBlock cat = Some out \<and>
    (\<forall>f cf e. ct_files cat f = Some cf \<and> e \<in> segs (cf_segmentIndex cf) \<and> sg_indexId e = indexId \<and>
       sg_blockRangeStart e \<le> endBlock \<and> startBlock \<le> sg_blockRangeEnd e \<longrightarrow> f \<in> set out)"
  using rangeScan_finds [OF assms(1) cat_reach_inv [OF assms(1-3)] assms(4,5)] by blast

text \<open>
  C16 (Catalog.catalog_toc_invariant): in every state the catalog can reach, in the middle of any
  interleaving, each segment present in a file is either covered by the TOC entry of that
  file (bloom mask and block range) or belongs to a task that has written it and has still
  to update the TOC.
\<close>

theorem catalog_toc_invariant:
  assumes "catalog_contract E bits okT toc okS segs" and "okT t0"
    and "(cat_step E segs)\<^sup>*\<^sup>* (new_Catalog t0) cat"
    and "ct_files cat f = Some cf" and "e \<in> segs (cf_segmentIndex cf)"
  shows "(\<exists>k \<in> toc (ct_tocBTree cat). ce_fileId k = f \<and>
       bits (bloomKeyHash (en_u256 E) (sg_indexId e)) \<subseteq> bits (ce_bloom k) \<and>
       ce_blockRangeMin k \<le> sg_blockRangeStart e \<and> sg_blockRangeEnd e \<le> ce_blockRangeMax k) \<or>
    (\<exists>tk \<in> set (ct_tasks cat). tk_stage tk = Written \<and> tk_file tk = f \<and> tk_indexId tk = sg_indexId e \<and>
       tk_startBlock tk = sg_blockRangeStart e \<and> tk_endBlock tk = sg_blockRangeEnd e)"
proof -
  have "accounted E bits toc cat f e"
    using assms(4,5) by (intro cat_invD(5) [OF cat_reach_inv [OF assms(1-3)]]) (auto simp: in_files_def)
  then show ?thesis unfolding accounted_def covers_def task_of_def .
qed

text \<open>
  C39 (Catalog.catalog_tasks_drain): after any interleaving of \<open>writeSegment\<close> calls (of pairwise different segments) and steps
  of their background tasks, starting from an empty catalog: there is no infinite sequence of task
  steps, and some task can take a step as long as one is pending.  However the tasks run from there,
  the segment of every task that is past its write is in the file of the task, under its index and
  block range.  When no task is left, no file is marked as being written, and every segment in a file is
  covered by the TOC entry of that file (bloom mask and block range).
\<close>

theorem catalog_tasks_drain:
  assumes "catalog_contract E bits okT toc okS segs" and "okT t0"
    and "(cat_step E segs)\<^sup>*\<^sup>* (new_Catalog t0) cat" and "(task_step E)\<^sup>*\<^sup>* cat cat'"
  shows "wfP (\<lambda>c' c. task_step E c c') \<and> ((\<exists>c. task_step E cat' c) \<longleftrightarrow> ct_tasks cat' \<noteq> []) \<and>
    (\<forall>t \<in> set (ct_tasks cat'). tk_stage t \<noteq> Queued \<longrightarrow> (\<exists>e. in_files segs cat' (tk_file t) e \<and> segment_of t e)) \<and>
    (ct_tasks cat' = [] \<longrightarrow> ct_filesBeingWritten cat' = {} \<and>
       (\<forall>f e. in_files segs cat' f e \<longrightarrow> (\<exists>k \<in> toc (ct_tocBTree cat'). ce_fileId k = f \<and>
          bits (bloomKeyHash (en_u256 E) (sg_indexId e)) \<subseteq> bits (ce_bloom k) \<and>
          ce_blockRangeMin k \<le> sg_blockRangeStart e \<and> sg_blockRangeEnd e \<le> ce_blockRangeMax k)))"
proof (intro conjI impI)
  have reach: "(cat_step E segs)\<^sup>*\<^sup>* (new_Catalog t0) cat'"
    using assms(4,3) by (induction rule: rtranclp_induct) (auto intro: step_task rtranclp.rtrancl_into_rtrancl)
  show "wfP (\<lambda>c' c. task_step E c c')"
    by (rule wfp_if_convertible_to_nat [where f = tasks_left]) (rule task_step_left)
  show "(\<exists>c. task_step E cat' c) \<longleftrightarrow> ct_tasks cat' \<noteq> []" by (rule task_step_enabled)
  show "\<forall>t \<in> set (ct_tasks cat'). tk_stage t \<noteq> Queued \<longrightarrow> (\<exists>e. in_files segs cat' (tk_file t) e \<and> segment_of t e)"
    using written_segments [OF assms(1,2) reach] by blast
  assume idle: "ct_tasks cat' = []"
  show "ct_filesBeingWritten cat' = {}" using busy_files [OF reach] idle by simp
  show "\<forall>f e. in_files segs cat' f e \<longrightarrow> (\<exists>k \<in> toc (ct_tocBTree cat'). ce_fileId k = f \<and>
      bits (bloomKeyHash (en_u256 E) (sg_indexId e)) \<subseteq> bits (ce_bloom k) \<and>
      ce_blockRangeMin k \<le> sg_blockRangeStart e \<and> sg_blockRangeEnd e \<le> ce_blockRangeMax k)"
    using cat_invD(5) [OF cat_reach_inv [OF assms(1,2) reach]] idle by (simp add: accounted_def covers_def task_of_def)
qed

text \<open>
  (rangeScan exact): \<open>rangeScan\<close> terminates when no file has id 0 and returns, newest file
  first, exactly the files in the TOC that are not newer than the clock, whose mask may
  contain the index and whose block range meets the query.
\<close>

theorem rangeScan_exact:
  assumes "btree_contract (en_toc E) toc_compare ok cont" and "ok (ct_tocBTree cat)"
    and "u256_contract (en_u256 E) bits" and "\<forall>e \<in> cont (ct_tocBTree cat). ce_fileId e \<noteq> 0"
  shows "\<exists>es. rangeScan E now indexId startBlock endBlock cat = Some (map ce_fileId es) \<and>
    set es = {e \<in> cont (ct_tocBTree cat). ce_fileId e \<le> now \<and>
        bloomMaybeContains (en_u256 E) (ce_bloom e) indexId \<and>
        ce_blockRangeMin e \<le> endBlock \<and> startBlock \<le> ce_blockRangeMax e} \<and>
    sorted_wrt (\<lambda>a b. ce_fileId a > ce_fileId b) es"
  unfolding bloomMaybeContains_subset [OF assms(3)]
  using assms(4) by (intro rangeScan_entries [OF assms(1-3)]) blast

text \<open>
  (selectFileFor suitable): \<open>selectFileFor\<close> terminates, changes neither the TOC nor the
  pending tasks, and what it selects is either a file of the TOC that is on disk, is not
  being written and has room for the segment (with its TOC entry as the key), or a newly
  numbered file with an empty key.
\<close>

theorem selectFileFor_suitable:
  assumes "btree_contract (en_toc E) toc_compare ok toc" and "ok (ct_tocBTree cat)"
    and "\<forall>cs. mset (en_sort E cs) = mset cs" and "\<forall>e \<in> toc (ct_tocBTree cat). ce_fileId e \<noteq> 0"
  shows "\<exists>r cat'. selectFileFor E now now' indexId startBlock endBlock sz cat = Some (r, cat') \<and>
    ct_tocBTree cat' = ct_tocBTree cat \<and> ct_tasks cat' = ct_tasks cat \<and>
    (\<forall>f key. r = Inr (Some f, key) \<longrightarrow>
       (key \<in> toc (ct_tocBTree cat) \<and> ce_fileId key = f \<and> ct_files cat f \<noteq> None \<and>
        f \<notin> ct_filesBeingWritten cat \<and> ce_totalBytes key + ucast sz \<le> CATALOG_FILE_MAX_BYTES \<and> cat' = cat) \<or>
       (f = new_file_id now' (ct_lastFileId cat) \<and> key = empty_entry (en_u256 E) f (- 1) \<and>
        ct_files cat' f \<noteq> None \<and> ct_lastFileId cat' = f))"
proof -
  from collect_candidates_within [OF assms(1,2), of now indexId startBlock endBlock sz] assms(4)
  obtain cs where cs: "collect_candidates E now indexId startBlock endBlock sz cat = Some cs"
    and within: "\<And>c. c \<in> set cs \<Longrightarrow> \<exists>k \<in> toc (ct_tocBTree cat). ce_fileId k = fst c \<and>
       ce_totalBytes k + ucast sz \<le> CATALOG_FILE_MAX_BYTES" by blast
  have sorted: "set (en_sort E cs) = set cs" using assms(3) by (metis set_mset_mset)
  have picked: "key \<in> toc (ct_tocBTree cat) \<and> ce_fileId key = f \<and> ct_files cat f \<noteq> None \<and>
      f \<notin> ct_filesBeingWritten cat \<and> ce_totalBytes key + ucast sz \<le> CATALOG_FILE_MAX_BYTES"
    if "pick_candidate E cat (en_sort E cs) = Inr (Some (f, key))" for f key
  proof -
    note pick = pick_candidate_Some [OF that]
    then have key: "key \<in> toc (ct_tocBTree cat)" "ce_fileId key = f"
      using btree_find [OF assms(1,2)] by (auto simp: toc_cmp_0)
    obtain k where k: "k \<in> toc (ct_tocBTree cat)" "ce_fileId k = f" "ce_totalBytes k + ucast sz \<le> CATALOG_FILE_MAX_BYTES"
      using pick within by (force simp: sorted)
    then have "k = key" using btree_cmp_inj [OF assms(1,2), of k key] key by (simp add: toc_cmp_0)
    with key k(3) pick show ?thesis by simp
  qed
  obtain r cat' where sel: "selectFileFor E now now' indexId startBlock endBlock sz cat = Some (r, cat')"
    by (cases "selectFileFor E now now' indexId startBlock endBlock sz cat") (auto simp: selectFileFor_def cs)
  have "(key \<in> toc (ct_tocBTree cat) \<and> ce_fileId key = f \<and> ct_files cat f \<noteq> None \<and>
        f \<notin> ct_filesBeingWritten cat \<and> ce_totalBytes key + ucast sz \<le> CATALOG_FILE_MAX_BYTES \<and> cat' = cat) \<or>
       (f = new_file_id now' (ct_lastFileId cat) \<and> key = empty_entry (en_u256 E) f (- 1) \<and>
        ct_files cat' f \<noteq> None \<and> ct_lastFileId cat' = f)" if "r = Inr (Some f, key)" for f key
    using sel that picked [of f key]
    by (auto simp: selectFileFor_def cs Let_def split: sum.splits option.splits prod.splits if_splits)
  with sel selectFileFor_frame(1,2) [OF sel] show ?thesis by blast
qed

text \<open>
  (new file id reuse): a newly numbered file gets an id greater than every id before it
  exactly when the clock has reached the last id.  Since the id is advanced at most once, the
  third file created within one millisecond gets the id of the second one again.
\<close>

theorem new_file_id_reuse:
  "(now \<noteq> - 1 \<longrightarrow> (lastFileId < new_file_id now lastFileId \<longleftrightarrow> lastFileId \<le> now)) \<and>
   new_file_id 5 (new_file_id 5 (new_file_id 5 0)) = new_file_id 5 (new_file_id 5 0)"
proof -
  have "lastFileId < new_file_id now lastFileId \<longleftrightarrow> lastFileId \<le> now" if "now \<noteq> - 1"
    using unat_inc [OF that] by (auto simp: new_file_id_def word_less_unat word_le_unat)
  then show ?thesis by (simp add: new_file_id_def)
qed

text \<open>
  (bloom no false negatives): once the hash of an index has been or-ed into a mask, the
  mask answers \<open>maybe\<close> for it, whatever else is or-ed in before or after.
\<close>

theorem bloom_no_false_negatives:
  assumes "u256_contract U bits" and "i \<in> set ids"
  shows "bloomMaybeContains U (fold (\<lambda>i b. u_or U b (bloomKeyHash U i)) ids b) i"
proof -
  have "bits (fold (\<lambda>i b. u_or U b (bloomKeyHash U i)) ids b) = bits b \<union> (\<Union>i \<in> set ids. bits (bloomKeyHash U i))"
    by (induction ids arbitrary: b) (auto simp: u256_contractD(4) [OF assms(1)])
  with assms(2) show ?thesis by (auto simp: bloomMaybeContains_subset [OF assms(1)])
qed

subsection \<open>Witnesses\<close>

abbreviation sample_env ::
  "(256 word catalog_contents_entry_t list, 256 word, segment_btree_metadata_t list, nat, memory, flat_file) catalog_env" where
  "sample_env \<equiv>
     \<lparr>en_u256 = word_u256, en_toc = list_btree toc_compare, en_seg = list_btree seg_compare,
      en_segfile = sample_segfile, en_sort = (\<lambda>cs. cs), en_opens = (\<lambda>_. True),
      en_newFile = \<lparr>cf_fd = (\<lambda>_. 0), cf_regions = 8192, cf_segmentIndex = [], cf_isSegmentBeingWritten = False\<rparr>\<rparr>"

lemma sample_env_contract:
  "catalog_contract sample_env (\<lambda>a. {i. bit a i}) (one_per_key toc_compare) set (one_per_key seg_compare) set"
  by (simp add: catalog_contract_def word_u256_contract toc.list_btree_contract seg.list_btree_contract)

text \<open>A catalog while the first write, of block 5 of index 3, goes through its stages.\<close>

definition "sample_submitted = snd (the (writeSegment sample_env 7 7 3 1 0 5 6 [1, 2] (new_Catalog [])))"
definition "sample_written = task_write sample_env 0 sample_submitted"
definition "sample_catalogued = task_catalogue sample_env 0 sample_written"
definition "sample_done = end_task 0 sample_catalogued"

lemmas sample_run = writeSegment_def selectFileFor_def collect_candidates_def scan_loop.simps new_Catalog_def
  list_btree_def list_findNext_def new_file_id_def task_write_def createEntry_unfold sample_segfile_def
  task_catalogue_def add_to_entry_def empty_entry_def end_task_def

lemma sample_submit:
  "writeSegment sample_env 7 7 3 1 0 5 6 [1, 2] (new_Catalog []) = Some (Inr (), sample_submitted)"
  by (simp add: sample_submitted_def sample_run)

lemma sample_written_state:
  "ct_files sample_written 7 = Some (snd (createEntry (list_btree seg_compare) sample_segfile 3 1 0 5 6 [1, 2] (en_newFile sample_env)))"
  "map tk_stage (ct_tasks sample_submitted) = [Queued]" "map tk_stage (ct_tasks sample_written) = [Written]"
  "ct_tocBTree sample_written = []"
  by (simp_all add: sample_submitted_def sample_written_def sample_run)

lemma sample_written_segment:
  "set (cf_segmentIndex (snd (createEntry (list_btree seg_compare) sample_segfile 3 1 0 5 6 [1, 2] (en_newFile sample_env)))) =
     {sample_segment 3 5 6}"
  by (simp add: sample_run)

lemma sample_done_state:
  "map tk_stage (ct_tasks sample_catalogued) = [Catalogued]" "ct_tasks sample_done = []"
  "ct_files sample_done = ct_files sample_written" "map ce_fileId (ct_tocBTree sample_done) = [7]"
  using sample_written_state(3,4)
  by (auto simp: sample_done_def sample_catalogued_def task_catalogue_def end_task_def add_to_entry_def
      list_btree_def Let_def sample_submitted_def sample_written_def sample_run)

lemma sample_reach:
  "(cat_step sample_env set)\<^sup>*\<^sup>* (new_Catalog []) sample_written"
  "(cat_step sample_env set)\<^sup>*\<^sup>* (new_Catalog []) sample_done"
proof -
  have 1: "cat_step sample_env set (new_Catalog []) sample_submitted"
    by (rule step_submit [OF _ sample_submit]) (simp add: fresh_segment_def in_files_def new_Catalog_def)
  have 2: "cat_step sample_env set sample_submitted sample_written"
    unfolding sample_written_def using sample_written_state(2) by (intro step_task step_write) auto
  have 3: "cat_step sample_env set sample_written sample_catalogued"
    unfolding sample_catalogued_def using sample_written_state(3) by (intro step_task step_catalogue) auto
  have 4: "cat_step sample_env set sample_catalogued sample_done"
    unfolding sample_done_def using sample_done_state(1) by (intro step_task step_end) auto
  show r: "(cat_step sample_env set)\<^sup>*\<^sup>* (new_Catalog []) sample_written"
    by (rule rtranclp.rtrancl_into_rtrancl [OF r_into_rtranclp [of "cat_step sample_env set", OF 1] 2])
  show "(cat_step sample_env set)\<^sup>*\<^sup>* (new_Catalog []) sample_done"
    by (rule rtranclp.rtrancl_into_rtrancl [OF rtranclp.rtrancl_into_rtrancl [OF r 3] 4])
qed

theorem catalog_keeps_segments_witness:
  "\<exists>out. rangeScan sample_env 9 3 5 5 sample_done = Some out \<and> 7 \<in> set out"
proof -
  have "ct_files sample_done 7 = Some (snd (createEntry (list_btree seg_compare) sample_segfile 3 1 0 5 6 [1, 2] (en_newFile sample_env)))"
    using sample_written_state(1) sample_done_state(3) by simp
  moreover have "\<forall>k \<in> set (ct_tocBTree sample_done). ce_fileId k \<noteq> 0 \<and> ce_fileId k \<le> 9"
    using sample_done_state(4) by auto
  ultimately show ?thesis
    using catalog_keeps_segments [OF sample_env_contract one_per_key_Nil sample_reach(2) sample_done_state(2), of 9 3 5 5]
      sample_written_segment by (auto dest!: spec [of _ 7])
qed

theorem catalog_toc_invariant_witness:
  "\<exists>tk \<in> set (ct_tasks sample_written). tk_stage tk = Written \<and> tk_file tk = 7 \<and> tk_startBlock tk = 5"
  using catalog_toc_invariant [OF sample_env_contract one_per_key_Nil sample_reach(1) sample_written_state(1),
      of "sample_segment 3 5 6"] sample_written_segment sample_written_state(4) by auto

theorem catalog_tasks_drain_witness:
  "ct_filesBeingWritten sample_done = {} \<and> (\<exists>k \<in> set (ct_tocBTree sample_done). ce_fileId k = 7 \<and> ce_blockRangeMin k \<le> 5) \<and>
   (\<exists>e. in_files set sample_written 7 e \<and> sg_blockRangeStart e = 5)"
proof -
  have seg: "in_files set sample_done 7 (sample_segment 3 5 6)"
    using sample_written_state(1) sample_done_state(3) sample_written_segment by (simp add: in_files_def)
  obtain t where t: "t \<in> set (ct_tasks sample_written)" "tk_stage t = Written"
    using sample_written_state(3) by (metis list.set_intros(1) map_eq_Cons_D)
  have "tk_file t = 7 \<and> tk_startBlock t = 5" using t(1) by (auto simp: sample_submitted_def sample_written_def sample_run)
  with catalog_tasks_drain [OF sample_env_contract one_per_key_Nil sample_reach(2), of sample_done]
    catalog_tasks_drain [OF sample_env_contract one_per_key_Nil sample_reach(1), of sample_written]
    seg sample_done_state(2) t show ?thesis by (fastforce simp: segment_of_def)
qed

lemma sample_toc_contract: "btree_contract (en_toc sample_env) toc_compare (one_per_key toc_compare) set"
  and sample_u256_contract: "u256_contract (en_u256 sample_env) (\<lambda>a. {i. bit a i})"
  by (simp_all add: toc.list_btree_contract word_u256_contract)

abbreviation sample_toc_catalog ::
  "(256 word catalog_contents_entry_t list, 256 word, segment_btree_metadata_t list, nat, memory) Catalog" where
  "sample_toc_catalog \<equiv> new_Catalog [empty_entry word_u256 4 0]"

theorem rangeScan_exact_witness:
  "\<exists>es :: 256 word catalog_contents_entry_t list. rangeScan sample_env 9 3 5 5 sample_toc_catalog = Some (map ce_fileId es) \<and> set es = {}"
proof -
  have ok: "one_per_key toc_compare (ct_tocBTree sample_toc_catalog)"
    by (simp add: one_per_key_def new_Catalog_def)
  have pos: "\<forall>e \<in> set (ct_tocBTree sample_toc_catalog). ce_fileId e \<noteq> 0"
    by (simp add: new_Catalog_def empty_entry_def)
  have "{e \<in> set (ct_tocBTree sample_toc_catalog). ce_fileId e \<le> 9 \<and>
      bloomMaybeContains (en_u256 sample_env) (ce_bloom e) 3 \<and> ce_blockRangeMin e \<le> 5 \<and> 5 \<le> ce_blockRangeMax e} = {}"
    by (auto simp: new_Catalog_def empty_entry_def)
  with rangeScan_exact [OF sample_toc_contract ok sample_u256_contract pos, of 9 3 5 5]
  show ?thesis by (elim exE conjE) (intro exI conjI, assumption, simp only:)
qed

theorem selectFileFor_suitable_witness:
  "\<exists>r cat'. selectFileFor sample_env 7 7 3 5 6 2 sample_toc_catalog = Some (r, cat') \<and>
     ct_tocBTree cat' = ct_tocBTree sample_toc_catalog"
proof -
  have ok: "one_per_key toc_compare (ct_tocBTree sample_toc_catalog)"
    by (simp add: one_per_key_def new_Catalog_def)
  have pos: "\<forall>e \<in> set (ct_tocBTree sample_toc_catalog). ce_fileId e \<noteq> 0"
    by (simp add: new_Catalog_def empty_entry_def)
  have "\<forall>cs. mset (en_sort sample_env cs) = mset cs" by simp
  from selectFileFor_suitable [OF sample_toc_contract ok this pos, of 7 7 3 5 6 2]
  show ?thesis by (elim exE conjE) (intro exI conjI, assumption+)
qed

theorem new_file_id_reuse_witness: "(4 :: u64) < new_file_id 9 4"
  using new_file_id_reuse [of 9 4] by simp

theorem bloom_no_false_negatives_witness:
  "bloomMaybeContains word_u256 (fold (\<lambda>i b. u_or word_u256 b (bloomKeyHash word_u256 i)) [3, 8] 0) 3"
  using bloom_no_false_negatives [OF word_u256_contract, of 3 "[3, 8]" 0] by simp

end
