(* ===== verification/BlockchainBackend.thy ===== *)
theory BlockchainBackend
  imports Journal BlockTimestampTracker BackendRegistry Catalog
begin

text \<open>
  \<^verbatim>\<open>src/blockchain/BlockchainBackend.{h,cpp}\<close>, \<^verbatim>\<open>BlockchainConfig.h\<close> and the hooks of
  \<^verbatim>\<open>ChainDesign.h\<close> and \<^verbatim>\<open>IndexOverride.h\<close>: the commit path (\<open>addBlock\<close>), the read path and the
  wiring of indexes and override families.  The backend's state is one record: the metadata
  header, the epoch files by epoch number, the timestamp tracker, the registries and the
  catalog.  Transactions and override families may read committed state through the catalog,
  so the application's functions take the catalog as an argument.
\<close>

record BlockchainConfig =
  cg_targetBlockTimeMs :: u32
  cg_targetThroughput :: u32
  cg_maxSegmentsPerIndex :: u32
  cg_maxMergeableSegmentBytes :: u64

definition default_config :: BlockchainConfig where
  "default_config = \<lparr>cg_targetBlockTimeMs = 60000, cg_targetThroughput = 180,
     cg_maxSegmentsPerIndex = 64, cg_maxMergeableSegmentBytes = 512 * 1024 * 1024\<rparr>"

definition LONG_TIME_MILLIS :: u64 where "LONG_TIME_MILLIS = 1000 * 3600"
definition WANTED_TX_PER_BLOCK :: nat where "WANTED_TX_PER_BLOCK = 180"
definition MAX_TX_PER_BLOCK :: nat where "MAX_TX_PER_BLOCK = 1024"

text \<open>
  What the application supplies: its transactions, the virtual functions \<open>seal\<close> and
  \<open>attach\<close> of its override families, and its \<open>ChainDesign\<close>.  A catalog pointer held by an
  index is represented by the directory of the catalog.
\<close>

record ('tx, 'k, 'f, 'm, 'cat) app_ops =
  ap_tx :: "'cat \<Rightarrow> ('tx, ('k, 'f) StateOverride, 'm) tx_ops"
  ap_seal :: "'cat \<Rightarrow> 'f \<Rightarrow> byte list"
  ap_attach :: "string BlockchainIndex \<Rightarrow> 'f \<Rightarrow> 'f"

record ('tx, 'k, 'f, 'm) ChainDesign =
  cd_registerIndexes :: "('k, string BlockchainIndex) BackendRegistry \<Rightarrow> ('k, string BlockchainIndex) BackendRegistry"
  cd_registerOverrides :: "('k, 'f) StateOverrideRegistry \<Rightarrow> ('k, 'f) StateOverrideRegistry"
  cd_registerTransactionTypes :: "('m, 'tx) TransactionTypeRegistry \<Rightarrow> ('m, 'tx) TransactionTypeRegistry"

text \<open>
  The rest of the environment: mapped files, the tracker's tree, the catalog's environment,
  and the file obtained when the file of an epoch has to be created (\<open>None\<close> when that fails).
\<close>

record ('ts, 'tt, 'b, 't, 'r, 'd, 'm) backend_env =
  be_mmap :: "'m mmap_ops"
  be_tracker :: "('ts, block_timestamp_entry_t) btree_ops"
  be_catalog :: "('tt, 'b, 't, 'r, 'd, 'm) catalog_env"
  be_createEpoch :: "u32 \<Rightarrow> 'm option"

record ('tx, 'k, 'f, 'm, 'ts, 'cat) BlockchainBackend =
  bk_config :: BlockchainConfig
  bk_dataDir :: string
  bk_epochs :: "u32 \<rightharpoonup> 'm"
  bk_version :: u32
  bk_lastBlockTimestamp :: u64
  bk_currentBlockHeight :: u64
  bk_indexes :: "('k, string BlockchainIndex) BackendRegistry"
  bk_overrideReg :: "('k, 'f) StateOverrideRegistry"
  bk_txTypes :: "('m, 'tx) TransactionTypeRegistry"
  bk_catalog :: 'cat
  bk_timestampTracker :: 'ts
  bk_lastBlockTime :: u64

text \<open>The header in \<^verbatim>\<open>metadata.bin\<close>; the backend's record has its fields in place of the pointer.\<close>

record blockchain_metadata_header_t =
  mh_version :: u32
  mh_lastBlockTimestamp :: u64
  mh_currentBlockHeight :: u64

subsection \<open>Construction\<close>

definition attachIndexesToStorage ::
  "string \<Rightarrow> ('k, string BlockchainIndex) BackendRegistry \<Rightarrow> ('k, string BlockchainIndex) BackendRegistry" where
  "attachIndexesToStorage catalog indexes =
     fold (\<lambda>i indexes.
         let indexId = word_of_nat i
         in case getIndexAt indexId indexes of
              None \<Rightarrow> indexes
            | Some idx \<Rightarrow> updateIndexAt indexId (index_attach catalog indexId) indexes)
       [0 ..< length (br_entries indexes)] indexes"

text \<open>
  \<open>metadata\<close> is the header found on disk (\<open>None\<close> for a new file); \<open>epochs\<close>, \<open>tracker\<close> and
  \<open>catalog\<close> are what the data directory holds.
\<close>

definition new_BlockchainBackend ::
  "('tx, 'k, 'f, 'm) ChainDesign \<Rightarrow> BlockchainConfig \<Rightarrow> string \<Rightarrow> blockchain_metadata_header_t option \<Rightarrow>
   (u32 \<rightharpoonup> 'm) \<Rightarrow> 'ts \<Rightarrow> 'cat \<Rightarrow> ('tx, 'k, 'f, 'm, 'ts, 'cat) BlockchainBackend" where
  "new_BlockchainBackend design config dataDir metadata epochs tracker catalog =
     (let header = (case metadata of
            None \<Rightarrow> \<lparr>mh_version = CURRENT_FILE_VERSION, mh_lastBlockTimestamp = 0, mh_currentBlockHeight = 0\<rparr>
          | Some h \<Rightarrow> h);
          indexes = cd_registerIndexes design new_BackendRegistry;
          overrideReg = cd_registerOverrides design new_StateOverrideRegistry;
          txTypes = cd_registerTransactionTypes design new_TransactionTypeRegistry
      in \<lparr>bk_config = config, bk_dataDir = dataDir, bk_epochs = epochs, bk_version = mh_version header,
          bk_lastBlockTimestamp = mh_lastBlockTimestamp header, bk_currentBlockHeight = mh_currentBlockHeight header,
          bk_indexes = attachIndexesToStorage (dataDir @ ''/catalog'') indexes,
          bk_overrideReg = overrideReg, bk_txTypes = txTypes, bk_catalog = catalog,
          bk_timestampTracker = tracker, bk_lastBlockTime = 0\<rparr>)"

subsection \<open>State overrides\<close>

fun attach_families ::
  "('tx, 'k, 'f, 'm, 'cat) app_ops \<Rightarrow> ('k, string BlockchainIndex) BackendRegistry \<Rightarrow> nat list \<Rightarrow>
   ('k, 'f) StateOverride \<Rightarrow> ('k, 'f) StateOverride result" where
  "attach_families A indexes [] state = Inr state"
| "attach_families A indexes (i # is) state =
     (case getIndexAt (word_of_nat i) indexes of
        None \<Rightarrow> attach_families A indexes is state
      | Some idx \<Rightarrow> bind_result (familyAt_mut i (ap_attach A idx) state) (attach_families A indexes is))"

definition attachOverrideFamilies ::
  "('tx, 'k, 'f, 'm, 'cat) app_ops \<Rightarrow> ('k, string BlockchainIndex) BackendRegistry \<Rightarrow>
   ('k, 'f) StateOverride \<Rightarrow> ('k, 'f) StateOverride result" where
  "attachOverrideFamilies A indexes state =
     (let n = familySize state;
          pairCount = (if n < length (br_entries indexes) then n else length (br_entries indexes))
      in attach_families A indexes [0 ..< pairCount] state)"

definition newStateOverride ::
  "('tx, 'k, 'f, 'm, 'cat) app_ops \<Rightarrow> ('tx, 'k, 'f, 'm, 'ts, 'cat) BlockchainBackend \<Rightarrow>
   ('k, 'f) StateOverride result" where
  "newStateOverride A b = attachOverrideFamilies A (bk_indexes b) (new_StateOverride (bk_overrideReg b))"

subsection \<open>The commit path\<close>

text \<open>The target block time for a block of \<open>n\<close> transactions.\<close>

definition block_time :: "BlockchainConfig \<Rightarrow> u32 \<Rightarrow> u64" where
  "block_time config n =
     max (min (ucast (cg_targetBlockTimeMs config) * ucast (cg_targetThroughput config) div ucast n)
              (600 * 1000)) 100"

fun verify_all ::
  "('tx, 's, 'm) tx_ops \<Rightarrow> 'tx list \<Rightarrow> 's \<Rightarrow> 's result" where
  "verify_all T [] s = Inr s"
| "verify_all T (tx # txs) s =
     (if \<not> tx_verify T tx s then Inl Runtime_error else verify_all T txs (snd (tx_apply T tx s)))"

definition getEpochFile ::
  "('ts, 'tt, 'b, 't, 'r, 'd, 'm) backend_env \<Rightarrow> u64 \<Rightarrow> ('tx, 'k, 'f, 'm, 'ts, 'cat) BlockchainBackend \<Rightarrow>
   'm option \<times> ('tx, 'k, 'f, 'm, 'ts, 'cat) BlockchainBackend" where
  "getEpochFile N blockNumber b =
     (let epochNumber = epoch_number blockNumber
      in case bk_epochs b epochNumber of
           Some file \<Rightarrow> (Some file, b)
         | None \<Rightarrow>
             (case be_createEpoch N epochNumber of
                None \<Rightarrow> (None, b)
              | Some handle \<Rightarrow>
                  let file = new_EpochFile (be_mmap N) True handle
                  in (Some file, b\<lparr>bk_epochs := (bk_epochs b)(epochNumber \<mapsto> file)\<rparr>)))"

text \<open>
  The loop of \<open>sealOverrideToSegments\<close> over the paired slots.  \<open>clock i\<close> are the two clock
  readings of the \<open>writeSegment\<close> call for slot \<open>i\<close>; \<open>None\<close> is a call that never returns.
\<close>

fun seal_families ::
  "('tx, 'k, 'f, 'm, ('tt, 'b, 't, 'r, 'd) Catalog) app_ops \<Rightarrow> ('tt, 'b, 't, 'r, 'd, 'm) catalog_env \<Rightarrow>
   ('k, string BlockchainIndex) BackendRegistry \<Rightarrow> (nat \<Rightarrow> u64 \<times> u64) \<Rightarrow> u64 \<Rightarrow> nat list \<Rightarrow>
   ('k, 'f) StateOverride \<Rightarrow> ('tt, 'b, 't, 'r, 'd) Catalog \<Rightarrow>
   (unit result \<times> ('tt, 'b, 't, 'r, 'd) Catalog) option" where
  "seal_families A E indexes clock blockNumber [] state cat = Some (Inr (), cat)"
| "seal_families A E indexes clock blockNumber (i # is) state cat =
     (case familyAt i state of
        Inl e \<Rightarrow> Some (Inl e, cat)
      | Inr fam \<Rightarrow>
          let payload = ap_seal A cat fam
          in if length payload = 0 then seal_families A E indexes clock blockNumber is state cat
             else case getIndexAt (word_of_nat i) indexes of
               None \<Rightarrow> seal_families A E indexes clock blockNumber is state cat
             | Some idx \<Rightarrow>
                 (case writeSegment E (fst (clock i)) (snd (clock i)) (word_of_nat i) (ix_encodingVersion idx) 0
                         blockNumber (blockNumber + 1) payload cat of
                    None \<Rightarrow> None
                  | Some (Inl e, cat) \<Rightarrow> Some (Inl e, cat)
                  | Some (Inr _, cat) \<Rightarrow> seal_families A E indexes clock blockNumber is state cat))"

definition sealOverrideToSegments ::
  "('tx, 'k, 'f, 'm, ('tt, 'b, 't, 'r, 'd) Catalog) app_ops \<Rightarrow> ('tt, 'b, 't, 'r, 'd, 'm) catalog_env \<Rightarrow>
   ('k, string BlockchainIndex) BackendRegistry \<Rightarrow> (nat \<Rightarrow> u64 \<times> u64) \<Rightarrow> u64 \<Rightarrow>
   ('k, 'f) StateOverride \<Rightarrow> ('tt, 'b, 't, 'r, 'd) Catalog \<Rightarrow>
   (unit result \<times> ('tt, 'b, 't, 'r, 'd) Catalog) option" where
  "sealOverrideToSegments A E indexes clock blockNumber state cat =
     (let n = familySize state;
          pairCount = (if n < length (br_entries indexes) then n else length (br_entries indexes))
      in seal_families A E indexes clock blockNumber [0 ..< pairCount] state cat)"

text \<open>The timing gate: the block is refused (\<open>addBlock\<close> returns -1).\<close>

definition gate_rejects :: "BlockchainConfig \<Rightarrow> u64 \<Rightarrow> nat \<Rightarrow> bool" where
  "gate_rejects config duration n \<longleftrightarrow>
     duration < block_time config (word_of_nat n) \<or>
     (duration > LONG_TIME_MILLIS \<and> n > WANTED_TX_PER_BLOCK div 2) \<or> n > MAX_TX_PER_BLOCK"

text \<open>
  The part of \<open>addBlock\<close> behind the gate and the verification, in the order in which it
  changes what is on disk: the height in the header, the block in its epoch file, the last
  timestamp and the tracker, and the segments.  Each is a definition of its own because the
  process may end between any two of them.
\<close>

definition commit_height ::
  "('tx, 'k, 'f, 'm, 'ts, 'cat) BlockchainBackend \<Rightarrow> ('tx, 'k, 'f, 'm, 'ts, 'cat) BlockchainBackend" where
  "commit_height b = b\<lparr>bk_currentBlockHeight := bk_currentBlockHeight b + 1\<rparr>"

definition commit_journal ::
  "('tx, 'k, 'f, 'm, 'cat) app_ops \<Rightarrow> ('ts, 'tt, 'b, 't, 'r, 'd, 'm) backend_env \<Rightarrow> u64 \<Rightarrow> 'tx list \<Rightarrow> u64 \<Rightarrow>
   ('tx, 'k, 'f, 'm, 'ts, 'cat) BlockchainBackend \<Rightarrow> unit result \<times> ('tx, 'k, 'f, 'm, 'ts, 'cat) BlockchainBackend" where
  "commit_journal A N millis transactions blockNumber b =
     (case getEpochFile N blockNumber b of
        (None, b) \<Rightarrow> (Inl Null_dereference, b)
      | (Some epochFile, b) \<Rightarrow>
          (Inr (), b\<lparr>bk_epochs := (bk_epochs b)(epoch_number blockNumber \<mapsto>
             appendBlock (be_mmap N) (ap_tx A (bk_catalog b)) blockNumber millis transactions epochFile)\<rparr>))"

definition commit_timestamp ::
  "('ts, 'tt, 'b, 't, 'r, 'd, 'm) backend_env \<Rightarrow> u64 \<Rightarrow> u64 \<Rightarrow>
   ('tx, 'k, 'f, 'm, 'ts, 'cat) BlockchainBackend \<Rightarrow> ('tx, 'k, 'f, 'm, 'ts, 'cat) BlockchainBackend" where
  "commit_timestamp N millis blockNumber b =
     (let b = b\<lparr>bk_lastBlockTimestamp := millis\<rparr>
      in b\<lparr>bk_timestampTracker := tracker_addBlock (be_tracker N) millis blockNumber (bk_timestampTracker b)\<rparr>)"

text \<open>The segments, and the log line, whose rate divides by the duration.\<close>

definition commit_segments ::
  "('tx, 'k, 'f, 'm, ('tt, 'b, 't, 'r, 'd) Catalog) app_ops \<Rightarrow> ('ts, 'tt, 'b, 't, 'r, 'd, 'm) backend_env \<Rightarrow>
   (nat \<Rightarrow> u64 \<times> u64) \<Rightarrow> u64 \<Rightarrow> 'tx list \<Rightarrow> u64 \<Rightarrow>
   ('tx, 'k, 'f, 'm, 'ts, ('tt, 'b, 't, 'r, 'd) Catalog) BlockchainBackend \<Rightarrow>
   (int result \<times> ('tx, 'k, 'f, 'm, 'ts, ('tt, 'b, 't, 'r, 'd) Catalog) BlockchainBackend) option" where
  "commit_segments A N clock duration transactions blockNumber b =
     (case newStateOverride A b of
        Inl e \<Rightarrow> Some (Inl e, b)
      | Inr blockOverride \<Rightarrow>
          (case sealOverrideToSegments A (be_catalog N) (bk_indexes b) clock blockNumber
                  (apply_all (ap_tx A (bk_catalog b)) transactions blockOverride) (bk_catalog b) of
             None \<Rightarrow> None
           | Some (Inl e, cat) \<Rightarrow> Some (Inl e, b\<lparr>bk_catalog := cat\<rparr>)
           | Some (Inr _, cat) \<Rightarrow>
               let b = b\<lparr>bk_catalog := cat\<rparr>
               in if duration = 0 then Some (Inl Division_by_zero, b)
                  else Some (Inr (sint blockNumber), b\<lparr>bk_lastBlockTime := duration\<rparr>)))"

definition commit_block ::
  "('tx, 'k, 'f, 'm, ('tt, 'b, 't, 'r, 'd) Catalog) app_ops \<Rightarrow> ('ts, 'tt, 'b, 't, 'r, 'd, 'm) backend_env \<Rightarrow>
   (nat \<Rightarrow> u64 \<times> u64) \<Rightarrow> u64 \<Rightarrow> u64 \<Rightarrow> 'tx list \<Rightarrow>
   ('tx, 'k, 'f, 'm, 'ts, ('tt, 'b, 't, 'r, 'd) Catalog) BlockchainBackend \<Rightarrow>
   (int result \<times> ('tx, 'k, 'f, 'm, 'ts, ('tt, 'b, 't, 'r, 'd) Catalog) BlockchainBackend) option" where
  "commit_block A N clock millis duration transactions b =
     (let blockNumber = bk_currentBlockHeight b
      in case commit_journal A N millis transactions blockNumber (commit_height b) of
           (Inl e, b) \<Rightarrow> Some (Inl e, b)
         | (Inr _, b) \<Rightarrow>
             commit_segments A N clock duration transactions blockNumber (commit_timestamp N millis blockNumber b))"

lemmas commit_block_steps = commit_block_def commit_height_def commit_journal_def commit_timestamp_def commit_segments_def

definition addBlock ::
  "('tx, 'k, 'f, 'm, ('tt, 'b, 't, 'r, 'd) Catalog) app_ops \<Rightarrow> ('ts, 'tt, 'b, 't, 'r, 'd, 'm) backend_env \<Rightarrow>
   (nat \<Rightarrow> u64 \<times> u64) \<Rightarrow> u64 \<Rightarrow> 'tx list \<Rightarrow>
   ('tx, 'k, 'f, 'm, 'ts, ('tt, 'b, 't, 'r, 'd) Catalog) BlockchainBackend \<Rightarrow>
   (int result \<times> ('tx, 'k, 'f, 'm, 'ts, ('tt, 'b, 't, 'r, 'd) Catalog) BlockchainBackend) option" where
  "addBlock A N clock millis transactions b =
     (let duration = millis - bk_lastBlockTimestamp b;
          n = length transactions
      in if n \<noteq> MAX_TX_PER_BLOCK \<and> (word_of_nat n :: u32) = 0 then Some (Inl Division_by_zero, b)
         else if n \<noteq> MAX_TX_PER_BLOCK \<and> gate_rejects (bk_config b) duration n then Some (Inr (- 1), b)
         else case newStateOverride A b of
                Inl e \<Rightarrow> Some (Inl e, b)
              | Inr verificationOverride \<Rightarrow>
                  (case verify_all (ap_tx A (bk_catalog b)) transactions verificationOverride of
                     Inl e \<Rightarrow> Some (Inl e, b)
                   | Inr _ \<Rightarrow> commit_block A N clock millis duration transactions b))"

subsection \<open>The read path\<close>

definition getBlock ::
  "('ts, 'tt, 'b, 't, 'r, 'd, 'm) backend_env \<Rightarrow> u64 \<Rightarrow> ('tx, 'k, 'f, 'm, 'ts, 'cat) BlockchainBackend \<Rightarrow>
   'tx list result \<times> ('tx, 'k, 'f, 'm, 'ts, 'cat) BlockchainBackend" where
  "getBlock N blockNumber b =
     (if blockNumber \<ge> bk_currentBlockHeight b then (Inl Range_error, b)
      else case getEpochFile N blockNumber b of
        (None, b) \<Rightarrow> (Inl Runtime_error, b)
      | (Some epochFile, b) \<Rightarrow>
          (case readBlock (be_mmap N) (bk_txTypes b) blockNumber epochFile of
             Inl e \<Rightarrow> (Inl e, b)
           | Inr (txs, epochFile) \<Rightarrow>
               (Inr txs, b\<lparr>bk_epochs := (bk_epochs b)(epoch_number blockNumber \<mapsto> epochFile)\<rparr>)))"

fun get_blocks ::
  "('ts, 'tt, 'b, 't, 'r, 'd, 'm) backend_env \<Rightarrow> u64 list \<Rightarrow> 'tx list \<Rightarrow>
   ('tx, 'k, 'f, 'm, 'ts, 'cat) BlockchainBackend \<Rightarrow>
   'tx list result \<times> ('tx, 'k, 'f, 'm, 'ts, 'cat) BlockchainBackend" where
  "get_blocks N [] allTransactions b = (Inr allTransactions, b)"
| "get_blocks N (n # ns) allTransactions b =
     (case getBlock N n b of
        (Inl e, b) \<Rightarrow> (Inl e, b)
      | (Inr blockTxs, b) \<Rightarrow> get_blocks N ns (allTransactions @ blockTxs) b)"

definition getTransactionsByTimeWindow ::
  "('ts, 'tt, 'b, 't, 'r, 'd, 'm) backend_env \<Rightarrow> u64 \<Rightarrow> u64 \<Rightarrow>
   ('tx, 'k, 'f, 'm, 'ts, 'cat) BlockchainBackend \<Rightarrow>
   ('tx list result \<times> ('tx, 'k, 'f, 'm, 'ts, 'cat) BlockchainBackend) option" where
  "getTransactionsByTimeWindow N startMillis endMillis b =
     (if startMillis > endMillis then Some (Inl Invalid_argument, b)
      else case getBlocksInWindow (be_tracker N) (bk_timestampTracker b) startMillis endMillis of
             None \<Rightarrow> None
           | Some blockNumbers \<Rightarrow> Some (get_blocks N blockNumbers [] b))"

definition getBlockHeight :: "('tx, 'k, 'f, 'm, 'ts, 'cat) BlockchainBackend \<Rightarrow> int" where
  "getBlockHeight b = sint (bk_currentBlockHeight b)"

definition getLastBlockTimestamp :: "('tx, 'k, 'f, 'm, 'ts, 'cat) BlockchainBackend \<Rightarrow> u64" where
  "getLastBlockTimestamp b = bk_lastBlockTimestamp b"

definition getLastBlockTime :: "('tx, 'k, 'f, 'm, 'ts, 'cat) BlockchainBackend \<Rightarrow> u64" where
  "getLastBlockTime b = bk_lastBlockTime b"

definition getConfig :: "('tx, 'k, 'f, 'm, 'ts, 'cat) BlockchainBackend \<Rightarrow> BlockchainConfig" where
  "getConfig b = bk_config b"

definition getDataDir :: "('tx, 'k, 'f, 'm, 'ts, 'cat) BlockchainBackend \<Rightarrow> string" where
  "getDataDir b = bk_dataDir b"

definition backend_index ::
  "'k \<Rightarrow> u8 \<Rightarrow> ('tx, 'k, 'f, 'm, 'ts, 'cat) BlockchainBackend \<Rightarrow> string BlockchainIndex option" where
  "backend_index key slotId b = getIndex key slotId (bk_indexes b)"

definition getTransactionTypeRegistry ::
  "('tx, 'k, 'f, 'm, 'ts, 'cat) BlockchainBackend \<Rightarrow> ('m, 'tx) TransactionTypeRegistry" where
  "getTransactionTypeRegistry b = bk_txTypes b"

definition getStateOverrideRegistry ::
  "('tx, 'k, 'f, 'm, 'ts, 'cat) BlockchainBackend \<Rightarrow> ('k, 'f) StateOverrideRegistry" where
  "getStateOverrideRegistry b = bk_overrideReg b"

subsection \<open>The chain a backend holds\<close>

text \<open>What the backend relies on in its environment, relative to a registry of transaction types.\<close>

definition backend_contract ::
  "('tx, 'k, 'f, 'm, 'cat) app_ops \<Rightarrow> ('ts, 'tt, 'b, 't, 'r, 'd, 'm) backend_env \<Rightarrow> ('m, 'tx) TransactionTypeRegistry \<Rightarrow>
   'm mmap_view \<Rightarrow> ('tx \<Rightarrow> byte list) \<Rightarrow> ('ts \<Rightarrow> bool) \<Rightarrow> ('ts \<Rightarrow> block_timestamp_entry_t set) \<Rightarrow> bool" where
  "backend_contract A N txTypes V enc okT cont \<longleftrightarrow>
     mmap_contract (be_mmap N) V \<and>
     (\<forall>c. tx_codec (ap_tx A c) (factories txTypes) V enc) \<and>
     btree_contract (be_tracker N) ts_compare okT cont \<and>
     (\<forall>e h. be_createEpoch N e = Some h \<longrightarrow> 266240 \<le> vw_cap V h)"

definition tracked :: "'tx block list \<Rightarrow> nat \<Rightarrow> block_timestamp_entry_t" where
  "tracked bs i = \<lparr>ts_timestamp = fst (bs ! i), ts_blockNumber = word_of_nat i\<rparr>"

text \<open>
  The abstraction: a backend holds the chain \<open>bs\<close> when its height is the length of the
  chain, its epoch files hold the blocks and its tracker has one entry per block.
\<close>

definition chain_holds ::
  "'m mmap_view \<Rightarrow> ('tx \<Rightarrow> byte list) \<Rightarrow> ('ts \<Rightarrow> bool) \<Rightarrow> ('ts \<Rightarrow> block_timestamp_entry_t set) \<Rightarrow>
   ('tx, 'k, 'f, 'm, 'ts, 'cat) BlockchainBackend \<Rightarrow> 'tx block list \<Rightarrow> bool" where
  "chain_holds V enc okT cont b bs \<longleftrightarrow>
     unat (bk_currentBlockHeight b) = length bs \<and> length bs \<le> 2 ^ 48 \<and>
     files_hold (\<lambda>m. epoch_mem enc (vw_cap V m) (vw_mem V m)) (bk_epochs b) bs \<and>
     okT (bk_timestampTracker b) \<and> cont (bk_timestampTracker b) = tracked bs ` {..< length bs}"

lemma chain_holdsD:
  assumes "chain_holds V enc okT cont b bs"
  shows "unat (bk_currentBlockHeight b) = length bs" and "length bs \<le> 2 ^ 48"
    and "files_hold (\<lambda>m. epoch_mem enc (vw_cap V m) (vw_mem V m)) (bk_epochs b) bs"
    and "okT (bk_timestampTracker b)" and "cont (bk_timestampTracker b) = tracked bs ` {..< length bs}"
  using assms by (simp_all add: chain_holds_def)

lemma epoch_holds_contract:
  assumes "mmap_contract M V" and "tx_codec T (factories txTypes) V enc"
  shows "epoch_holds M V T txTypes enc = (\<lambda>m. epoch_mem enc (vw_cap V m) (vw_mem V m))"
  using assms by (simp add: epoch_holds_def fun_eq_iff)

lemma getEpochFile_cases:
  assumes "getEpochFile N blk b = (r, b')"
  shows "b' = b\<lparr>bk_epochs := bk_epochs b'\<rparr>"
    and "r = Some f \<Longrightarrow> bk_epochs b' (epoch_number blk) = Some f \<and>
      (\<forall>e. e \<noteq> epoch_number blk \<longrightarrow> bk_epochs b' e = bk_epochs b e) \<and>
      (bk_epochs b (epoch_number blk) = Some f \<or>
       bk_epochs b (epoch_number blk) = None \<and>
       (\<exists>h. be_createEpoch N (epoch_number blk) = Some h \<and> f = new_EpochFile (be_mmap N) True h))"
  using assms by (auto simp: getEpochFile_def Let_def split: option.splits)

lemma getEpochFile_upd:
  "getEpochFile N blk b = (Some f, b') \<Longrightarrow>
     (bk_epochs b')(epoch_number blk \<mapsto> g) = (bk_epochs b)(epoch_number blk \<mapsto> g)"
  by (auto simp: getEpochFile_def Let_def split: option.splits)

lemma append_next_block:
  assumes C: "backend_contract A N txTypes V enc okT cont"
    and files: "files_hold (\<lambda>m. epoch_mem enc (vw_cap V m) (vw_mem V m)) (bk_epochs b) bs"
    and n: "unat blk = length bs" "length bs < 2 ^ 48"
    and f: "getEpochFile N blk b = (Some f, b')"
    and fits: "block_fits enc (vw_cap V f) (epoch_slice (length bs div 65536) bs) (millis, txs)"
  shows "files_hold (\<lambda>m. epoch_mem enc (vw_cap V m) (vw_mem V m))
    ((bk_epochs b)(epoch_number blk \<mapsto> appendBlock (be_mmap N) (ap_tx A c) blk millis txs f)) (bs @ [(millis, txs)])"
proof -
  have M: "mmap_contract (be_mmap N) V" and T: "tx_codec (ap_tx A c) (factories txTypes) V enc"
    using C by (auto simp: backend_contract_def)
  have "epoch_mem enc (vw_cap V f) (vw_mem V f) []" if "bk_epochs b (epoch_number blk) = None"
  proof -
    from getEpochFile_cases(2) [OF f] that obtain h
      where h: "be_createEpoch N (epoch_number blk) = Some h" and f: "f = new_EpochFile (be_mmap N) True h" by auto
    have "266240 \<le> vw_cap V h" using C h by (auto simp: backend_contract_def)
    then show ?thesis unfolding f by (rule new_EpochFile_content(1) [OF M])
  qed
  then show ?thesis
    using epoch.files_hold_append [of "be_mmap N" V "ap_tx A c" txTypes enc "bk_epochs b" bs blk f millis txs]
      files n fits getEpochFile_cases(2) [OF f]
    by (auto simp: epoch_holds_contract [OF M T])
qed

lemma tracked_new:
  assumes "length bs < 2 ^ 48" and "unat blk = length bs"
  shows "\<lparr>ts_timestamp = millis, ts_blockNumber = blk\<rparr> \<notin> tracked bs ` {..< length bs}"
    and "insert \<lparr>ts_timestamp = millis, ts_blockNumber = blk\<rparr> (tracked bs ` {..< length bs}) =
      tracked (bs @ [(millis, txs)]) ` {..< Suc (length bs)}"
proof -
  have blk: "blk = word_of_nat (length bs)" using assms(2) by (simp flip: assms(2))
  have "unat (word_of_nat i :: u64) = i" if "i < length bs" for i
    using that assms(1) by (simp add: unat_of_nat)
  then show "\<lparr>ts_timestamp = millis, ts_blockNumber = blk\<rparr> \<notin> tracked bs ` {..< length bs}"
    using assms(2) by (force simp: tracked_def)
  have "tracked (bs @ [(millis, txs)]) ` {..< length bs} = tracked bs ` {..< length bs}"
    by (intro image_cong) (auto simp: tracked_def nth_append)
  then show "insert \<lparr>ts_timestamp = millis, ts_blockNumber = blk\<rparr> (tracked bs ` {..< length bs}) =
      tracked (bs @ [(millis, txs)]) ` {..< Suc (length bs)}"
    by (simp add: lessThan_Suc) (simp add: tracked_def blk)
qed

lemma tracker_holds:
  assumes bt: "btree_contract B ts_compare okT cont" and tr: "okT tr" "cont tr = tracked bs ` {..< length bs}"
    and n: "length bs < 2 ^ 48" "unat blk = length bs"
  shows "okT (tracker_addBlock B millis blk tr)"
    and "cont (tracker_addBlock B millis blk tr) = tracked (bs @ [(millis, txs)]) ` {..< Suc (length bs)}"
proof -
  let ?e = "\<lparr>ts_timestamp = millis, ts_blockNumber = blk\<rparr>"
  have "?e \<notin> cont tr" unfolding tr(2) by (rule tracked_new(1) [OF n])
  then have "\<forall>y \<in> cont tr. ts_compare y ?e \<noteq> 0" by (auto simp: ts.cmp_eq_0 ts_key_eq)
  from btree_insert [OF bt tr(1) this]
  show "okT (tracker_addBlock B millis blk tr)"
    and "cont (tracker_addBlock B millis blk tr) = tracked (bs @ [(millis, txs)]) ` {..< Suc (length bs)}"
    using tracked_new(2) [OF n, of millis txs] tr(2) by (simp_all add: tracker_addBlock_def)
qed

lemma commit_journal_run:
  assumes "getEpochFile N (bk_currentBlockHeight b) b = (Some f, b1)"
  shows "commit_journal A N millis txs (bk_currentBlockHeight b) (commit_height b) =
    (Inr (), b\<lparr>bk_currentBlockHeight := bk_currentBlockHeight b + 1,
       bk_epochs := (bk_epochs b)(epoch_number (bk_currentBlockHeight b) \<mapsto>
         appendBlock (be_mmap N) (ap_tx A (bk_catalog b)) (bk_currentBlockHeight b) millis txs f)\<rparr>)"
  using assms by (auto simp: commit_journal_def commit_height_def getEpochFile_def Let_def split: option.splits)

lemma commit_segments_frame:
  assumes "commit_segments A N clock duration txs blk b = Some (r, b')"
  shows "b' = b\<lparr>bk_catalog := bk_catalog b', bk_lastBlockTime := bk_lastBlockTime b'\<rparr>"
    and "r = Inr k \<Longrightarrow> k = sint blk"
  using assms by (auto simp: commit_segments_def Let_def split: sum.splits option.splits prod.splits if_splits)

lemma commit_block_appends:
  assumes C: "backend_contract A N (bk_txTypes b) V enc okT cont"
    and chain: "chain_holds V enc okT cont b bs" and small: "length bs < 2 ^ 48"
    and f: "getEpochFile N (bk_currentBlockHeight b) b = (Some f, b1)"
    and fits: "block_fits enc (vw_cap V f) (epoch_slice (length bs div 65536) bs) (millis, txs)"
    and commit: "commit_block A N clock millis duration txs b = Some (r, b')"
  shows "chain_holds V enc okT cont b' (bs @ [(millis, txs)])"
    and "bk_txTypes b' = bk_txTypes b" and "bk_lastBlockTimestamp b' = millis"
    and "r = Inr k \<Longrightarrow> k = int (length bs)"
proof -
  note inv = chain_holdsD [OF chain]
  let ?blk = "bk_currentBlockHeight b"
  let ?file = "appendBlock (be_mmap N) (ap_tx A (bk_catalog b)) ?blk millis txs f"
  have bt: "btree_contract (be_tracker N) ts_compare okT cont" using C by (simp add: backend_contract_def)
  define b3 where "b3 = b\<lparr>bk_currentBlockHeight := ?blk + 1,
      bk_epochs := (bk_epochs b)(epoch_number ?blk \<mapsto> ?file), bk_lastBlockTimestamp := millis,
      bk_timestampTracker := tracker_addBlock (be_tracker N) millis ?blk (bk_timestampTracker b)\<rparr>"
  have "commit_segments A N clock duration txs ?blk b3 = Some (r, b')"
    using commit by (simp add: commit_block_def Let_def commit_journal_run [OF f] commit_timestamp_def b3_def)
  note out = commit_segments_frame [OF this]
  note tr = tracker_holds(1) [OF bt inv(4,5) small inv(1), of millis] tracker_holds(2) [OF bt inv(4,5) small inv(1), of millis txs]
  have "unat (?blk + 1) = Suc (length bs)"
    using small inv(1) by (simp add: unat_word_ariths)
  moreover note append_next_block [OF C inv(3) inv(1) small f fits]
  ultimately have "chain_holds V enc okT cont b3 (bs @ [(millis, txs)])"
    using small tr by (simp add: chain_holds_def b3_def)
  then show "chain_holds V enc okT cont b' (bs @ [(millis, txs)])"
    by (subst out(1)) (simp add: chain_holds_def)
  show "bk_txTypes b' = bk_txTypes b" and "bk_lastBlockTimestamp b' = millis"
    by (subst out(1), simp add: b3_def)+
  have "sint ?blk = int (unat ?blk)" using inv(1) small by (intro sint_u64_small) simp
  then show "k = int (length bs)" if "r = Inr k" using out(2) [OF that] inv(1) by simp
qed

subsection \<open>Reading the chain\<close>

lemma getBlock_chain:
  assumes C: "backend_contract A N (bk_txTypes b) V enc okT cont"
    and chain: "chain_holds V enc okT cont b bs" and n: "unat blk < length bs"
  shows "\<exists>b'. getBlock N blk b = (Inr (snd (bs ! unat blk)), b') \<and>
    chain_holds V enc okT cont b' bs \<and> bk_txTypes b' = bk_txTypes b"
proof -
  note inv = chain_holdsD [OF chain]
  have M: "mmap_contract (be_mmap N) V" and T: "tx_codec (ap_tx A undefined) (factories (bk_txTypes b)) V enc"
    using C by (auto simp: backend_contract_def)
  obtain f f' where f: "bk_epochs b (epoch_number blk) = Some f"
    and rd: "readBlock (be_mmap N) (bk_txTypes b) blk f = Inr (snd (bs ! unat blk), f')"
    and hold: "files_hold (\<lambda>m. epoch_mem enc (vw_cap V m) (vw_mem V m)) ((bk_epochs b)(epoch_number blk \<mapsto> f')) bs"
    using epoch.files_hold_read [of "be_mmap N" V "ap_tx A undefined" "bk_txTypes b" enc "bk_epochs b" bs blk] inv(2,3) n
    unfolding epoch_holds_contract [OF M T] by blast
  have "\<not> blk \<ge> bk_currentBlockHeight b" using n inv(1) by (simp add: word_to_nat)
  then have "getBlock N blk b = (Inr (snd (bs ! unat blk)), b\<lparr>bk_epochs := (bk_epochs b)(epoch_number blk \<mapsto> f')\<rparr>)"
    by (simp add: getBlock_def getEpochFile_def f rd)
  then show ?thesis using inv hold by (simp add: chain_holds_def)
qed

lemma get_blocks_chain:
  assumes "backend_contract A N (bk_txTypes b) V enc okT cont"
    and "chain_holds V enc okT cont b bs" and "\<forall>n \<in> set ns. unat n < length bs"
  shows "\<exists>b'. get_blocks N ns acc b = (Inr (acc @ concat (map (\<lambda>n. snd (bs ! unat n)) ns)), b') \<and>
    chain_holds V enc okT cont b' bs \<and> bk_txTypes b' = bk_txTypes b"
  using assms
proof (induction ns arbitrary: acc b)
  case (Cons n ns)
  from getBlock_chain [OF Cons.prems(1,2), of n] Cons.prems(3) obtain b1
    where b1: "getBlock N n b = (Inr (snd (bs ! unat n)), b1)" "chain_holds V enc okT cont b1 bs"
      "bk_txTypes b1 = bk_txTypes b" by auto
  with Cons.IH [of b1 "acc @ snd (bs ! unat n)"] Cons.prems show ?case by auto
qed simp

text \<open>With timestamps in ascending order the window query lists the blocks in chain order.\<close>

lemma listed_tracked:
  assumes sorted: "sorted (map fst bs)" and small: "length bs \<le> 2 ^ 48"
  shows "listed_by ts_key {e \<in> tracked bs ` {..< length bs}. in_window s t e} =
    map (tracked bs) (filter (\<lambda>i. s \<le> fst (bs ! i) \<and> fst (bs ! i) \<le> t) [0 ..< length bs])" (is "_ = map _ ?is")
proof -
  have num: "unat (word_of_nat i :: u64) = i" if "i < length bs" for i
    using that small by (simp add: unat_of_nat)
  have less: "ts_key (tracked bs i) < ts_key (tracked bs j)" if "i < j" "j < length bs" for i j
    using sorted_nth_mono [OF sorted, of i j] that num [of i] num [of j]
    by (auto simp: ts_key_less tracked_def word_less_unat word_le_unat unat_eq_unat [symmetric])
  have "sorted_wrt (<) ?is" by (intro sorted_wrt_filter) simp
  then have "sorted_wrt (<) (map (\<lambda>i. ts_key (tracked bs i)) ?is)"
    unfolding sorted_wrt_map by (rule sorted_wrt_mono_rel [rotated]) (auto intro: less)
  then have "sorted (map ts_key (map (tracked bs) ?is))" "distinct (map (tracked bs) ?is)"
    by (auto simp: strict_sorted_iff comp_def distinct_map inj_on_def)
  moreover have "set (map (tracked bs) ?is) = {e \<in> tracked bs ` {..< length bs}. in_window s t e}"
    by (auto simp: tracked_def in_window_def)
  ultimately show ?thesis using listed_by_unique [of ts_key "map (tracked bs) ?is"] by simp
qed

lemma window_numbers:
  assumes bt: "btree_contract (be_tracker N) ts_compare okT cont" and ok: "okT tr"
    and cont: "cont tr = tracked bs ` {..< length bs}" and small: "length bs \<le> 2 ^ 48"
    and sorted: "sorted (map fst bs)" and top: "\<forall>x \<in> set bs. fst x \<noteq> - 1"
  shows "getBlocksInWindow (be_tracker N) tr s t =
    Some (map word_of_nat (filter (\<lambda>i. s \<le> fst (bs ! i) \<and> fst (bs ! i) \<le> t) [0 ..< length bs]))"
proof -
  have "\<lparr>ts_timestamp = - 1, ts_blockNumber = - 1\<rparr> \<notin> cont tr" using top by (force simp: cont tracked_def)
  from window_query [OF bt ok this, of s t] show ?thesis
    by (simp add: cont listed_tracked [OF sorted small] comp_def) (simp add: tracked_def)
qed

lemma window_blocks:
  assumes "length bs \<le> 2 ^ 48"
  shows "map (\<lambda>n :: u64. snd (bs ! unat n)) (map word_of_nat (filter (\<lambda>i. P (bs ! i)) [0 ..< length bs])) = map snd (filter P bs)"
    and "\<forall>n \<in> set (map (word_of_nat :: nat \<Rightarrow> u64) (filter (\<lambda>i. P (bs ! i)) [0 ..< length bs])). unat n < length bs"
proof -
  have num: "unat (word_of_nat i :: u64) = i" if "i < length bs" for i
    using that assms by (simp add: unat_of_nat)
  then show "\<forall>n \<in> set (map (word_of_nat :: nat \<Rightarrow> u64) (filter (\<lambda>i. P (bs ! i)) [0 ..< length bs])). unat n < length bs"
    by auto
  have "map (\<lambda>n :: u64. snd (bs ! unat n)) (map word_of_nat (filter (\<lambda>i. P (bs ! i)) [0 ..< length bs])) =
      map (\<lambda>i. snd (bs ! i)) (filter (\<lambda>i. P (bs ! i)) [0 ..< length bs])"
    using num by (auto simp: comp_def)
  also have "\<dots> = map snd (filter P (map ((!) bs) [0 ..< length bs]))"
    by (simp add: filter_map comp_def)
  finally show "map (\<lambda>n :: u64. snd (bs ! unat n)) (map word_of_nat (filter (\<lambda>i. P (bs ! i)) [0 ..< length bs])) = map snd (filter P bs)"
    by (simp add: map_nth)
qed

lemma window_chain:
  assumes C: "backend_contract A N (bk_txTypes b) V enc okT cont"
    and chain: "chain_holds V enc okT cont b bs" and sorted: "sorted (map fst bs)"
    and top: "\<forall>x \<in> set bs. fst x \<noteq> - 1" and "s \<le> t"
  shows "\<exists>b'. getTransactionsByTimeWindow N s t b =
      Some (Inr (concat (map snd (filter (\<lambda>x. s \<le> fst x \<and> fst x \<le> t) bs))), b') \<and>
    chain_holds V enc okT cont b' bs"
proof -
  note inv = chain_holdsD [OF chain]
  have bt: "btree_contract (be_tracker N) ts_compare okT cont" using C by (simp add: backend_contract_def)
  let ?P = "\<lambda>x. s \<le> fst x \<and> fst x \<le> t"
  let ?ns = "map (word_of_nat :: nat \<Rightarrow> u64) (filter (\<lambda>i. ?P (bs ! i)) [0 ..< length bs])"
  note w = window_blocks [OF inv(2), of ?P]
  show ?thesis
    using get_blocks_chain [OF C chain w(2), of "[]", unfolded w(1)] window_numbers [OF bt inv(4,5,2) sorted top, of s t] \<open>s \<le> t\<close>
    by (auto simp: getTransactionsByTimeWindow_def)
qed

end
