(* ===== verification/Backend_Commit.thy ===== *)
theory Backend_Commit
  imports BlockchainBackend
begin

text \<open>
  The correctness of the commit path of \<^verbatim>\<open>src/blockchain/BlockchainBackend.cpp\<close>: the timing
  gate, the verification pass, the wiring of overrides, the routing of sealed payloads to the
  catalog, and \<open>addBlock\<close> as a whole, which appends exactly one block to the chain or leaves
  the backend as it was.
\<close>

subsection \<open>The timing gate\<close>

lemma unat_block_time:
  assumes "n \<noteq> 0"
  shows "unat (block_time c n) =
    max (min (unat (cg_targetBlockTimeMs c) * unat (cg_targetThroughput c) div unat n) 600000) 100"
proof -
  have "unat (cg_targetBlockTimeMs c) * unat (cg_targetThroughput c) \<le> (2 ^ 32 - 1) * (2 ^ 32 - 1)"
    using unat_u32_bound [of "cg_targetBlockTimeMs c"] unat_u32_bound [of "cg_targetThroughput c"]
    by (intro mult_le_mono) simp_all
  then have "unat (ucast (cg_targetBlockTimeMs c) * ucast (cg_targetThroughput c) :: u64) =
      unat (cg_targetBlockTimeMs c) * unat (cg_targetThroughput c)"
    by (simp add: unat_word_ariths)
  then have "unat (ucast (cg_targetBlockTimeMs c) * ucast (cg_targetThroughput c) div ucast n :: u64) =
      unat (cg_targetBlockTimeMs c) * unat (cg_targetThroughput c) div unat n"
    by (simp add: unat_div_distrib)
  then show ?thesis by (simp add: block_time_def min_def max_def word_le_nat_alt)
qed

text \<open>The gate, on numbers.\<close>

definition too_early :: "BlockchainConfig \<Rightarrow> nat \<Rightarrow> nat \<Rightarrow> bool" where
  "too_early c duration n \<longleftrightarrow>
     duration < max (min (unat (cg_targetBlockTimeMs c) * unat (cg_targetThroughput c) div n) 600000) 100 \<or>
     (3600000 < duration \<and> 90 < n) \<or> 1024 < n"

lemma gate_rejects_iff:
  assumes "0 < n" and "n < 2 ^ 31"
  shows "(word_of_nat n :: u32) \<noteq> 0" and "gate_rejects c d n \<longleftrightarrow> too_early c (unat d) n"
proof -
  have n: "unat (word_of_nat n :: u32) = n" using assms(2) by (simp add: unat_of_nat)
  then show nz: "(word_of_nat n :: u32) \<noteq> 0" using assms(1) by auto
  show "gate_rejects c d n \<longleftrightarrow> too_early c (unat d) n"
    unfolding gate_rejects_def too_early_def word_less_nat_alt unat_block_time [OF nz] n
    by (simp add: LONG_TIME_MILLIS_def WANTED_TX_PER_BLOCK_def MAX_TX_PER_BLOCK_def)
qed

lemma commit_block_result:
  assumes "commit_block A N clock millis duration txs b = Some (Inr k, b')"
    and "unat (bk_currentBlockHeight b) < 2 ^ 63"
  shows "0 \<le> k"
proof -
  have "0 \<le> sint (bk_currentBlockHeight b)" using sint_u64_small [OF assms(2)] by linarith
  then show ?thesis using assms(1)
    by (auto simp: commit_block_steps Let_def split: prod.splits option.splits sum.splits if_splits)
qed

lemma addBlock_past_gate:
  assumes "0 < length txs" and "length txs < 2 ^ 31"
    and "length txs = 1024 \<or> \<not> too_early (bk_config b) (unat (millis - bk_lastBlockTimestamp b)) (length txs)"
  shows "addBlock A N clock millis txs b =
    (case newStateOverride A b of
       Inl e \<Rightarrow> Some (Inl e, b)
     | Inr s \<Rightarrow> (case verify_all (ap_tx A (bk_catalog b)) txs s of
          Inl e \<Rightarrow> Some (Inl e, b)
        | Inr _ \<Rightarrow> commit_block A N clock millis (millis - bk_lastBlockTimestamp b) txs b))"
  using assms gate_rejects_iff [OF assms(1,2)]
  by (auto simp: addBlock_def Let_def MAX_TX_PER_BLOCK_def)

text \<open>
  (block time exact): the target block time of a nonempty block is
  \<open>targetBlockTime * targetThroughput / n\<close> clamped to 100 ms .. 600 s; the 64-bit product
  never wraps for any configuration.
\<close>

theorem block_time_exact:
  assumes "n \<noteq> 0"
  shows "unat (block_time c n) =
      max (min (unat (cg_targetBlockTimeMs c) * unat (cg_targetThroughput c) div unat n) 600000) 100 \<and>
    100 \<le> unat (block_time c n) \<and> unat (block_time c n) \<le> 600000"
  by (simp add: unat_block_time [OF assms])

theorem block_time_exact_witness: "unat (block_time default_config 90) = 120000"
  using block_time_exact [of 90 default_config] by (simp add: default_config_def)

lemma addBlock_gate_result:
  assumes "0 < length txs" and "length txs < 2 ^ 31" and "unat (bk_currentBlockHeight b) < 2 ^ 63"
  shows "addBlock A N clock millis txs b = Some (Inr (- 1), b') \<longleftrightarrow> b' = b \<and>
    length txs \<noteq> 1024 \<and> too_early (bk_config b) (unat (millis - bk_lastBlockTimestamp b)) (length txs)"
proof (cases "length txs = 1024 \<or> \<not> too_early (bk_config b) (unat (millis - bk_lastBlockTimestamp b)) (length txs)")
  case True
  have "addBlock A N clock millis txs b \<noteq> Some (Inr (- 1), b')"
    using commit_block_result [OF _ assms(3), of A N clock millis "millis - bk_lastBlockTimestamp b" txs "- 1" b']
    by (auto simp: addBlock_past_gate [OF assms(1,2) True] split: sum.splits)
  with True show ?thesis by simp
next
  case False
  then have "addBlock A N clock millis txs b = Some (Inr (- 1), b)"
    using gate_rejects_iff [OF assms(1,2)] by (simp add: addBlock_def Let_def MAX_TX_PER_BLOCK_def)
  with False show ?thesis by auto
qed

text \<open>
  C34 (Backend_Commit.addBlock_refused_iff): for a nonempty list of transactions other than a full block of
  1024, \<open>addBlock\<close> returns -1 exactly when the list is too long, the target block time has
  not passed, or more than an hour has passed and there are more than 90 transactions; it
  then changes nothing.  A full block is never refused.
\<close>

theorem addBlock_refused_iff:
  assumes "0 < length txs" and "length txs < 2 ^ 31" and "unat (bk_currentBlockHeight b) < 2 ^ 63"
  shows "(addBlock A N clock millis txs b = Some (Inr (- 1), b) \<longleftrightarrow>
      length txs \<noteq> 1024 \<and> too_early (bk_config b) (unat (millis - bk_lastBlockTimestamp b)) (length txs)) \<and>
    (\<forall>b'. addBlock A N clock millis txs b = Some (Inr (- 1), b') \<longrightarrow> b' = b)"
  using addBlock_gate_result [OF assms] by auto

text \<open>
  (stale chain gate): once more than an hour has passed since the last block (on a new
  chain, whose last timestamp is 0, always), a block is accepted by the gate exactly when it
  has at most 90 transactions or is a full block of 1024: a backlog of 91 to 1023
  transactions is refused at every later time as well.
\<close>

theorem stale_chain_gate:
  assumes "0 < length txs" and "length txs < 2 ^ 31" and "unat (bk_currentBlockHeight b) < 2 ^ 63"
    and "3600000 < unat (millis - bk_lastBlockTimestamp b)"
  shows "addBlock A N clock millis txs b = Some (Inr (- 1), b) \<longleftrightarrow> 90 < length txs \<and> length txs \<noteq> 1024"
  using addBlock_gate_result [OF assms(1-3)] assms(4) by (auto simp: too_early_def)

subsection \<open>Verification\<close>

text \<open>Every transaction verifies in the state the transactions before it leave.\<close>

definition all_verify :: "('tx, 's, 'm) tx_ops \<Rightarrow> 'tx list \<Rightarrow> 's \<Rightarrow> bool" where
  "all_verify T txs s \<longleftrightarrow> (\<forall>i < length txs. tx_verify T (txs ! i) (apply_all T (take i txs) s))"

lemma verify_all_iff:
  "verify_all T txs s = (if all_verify T txs s then Inr (apply_all T txs s) else Inl Runtime_error)"
proof (induction txs arbitrary: s)
  case (Cons tx txs)
  have "all_verify T (tx # txs) s \<longleftrightarrow> tx_verify T tx s \<and> all_verify T txs (snd (tx_apply T tx s))"
    by (auto simp: all_verify_def less_Suc_eq_0_disj)
  with Cons.IH show ?case by simp
qed (simp add: all_verify_def)

text \<open>
  C35 (Backend_Commit.addBlock_unverified): a block the gate accepts in which some transaction does not
  verify in the state left by the transactions before it makes \<open>addBlock\<close> throw, and the
  backend keeps its height, journal, tracker and catalog.
\<close>

theorem addBlock_unverified:
  assumes "0 < length txs" and "length txs < 2 ^ 31"
    and "length txs = 1024 \<or> \<not> too_early (bk_config b) (unat (millis - bk_lastBlockTimestamp b)) (length txs)"
    and "newStateOverride A b = Inr s" and "i < length txs"
    and "\<not> tx_verify (ap_tx A (bk_catalog b)) (txs ! i) (apply_all (ap_tx A (bk_catalog b)) (take i txs) s)"
  shows "addBlock A N clock millis txs b = Some (Inl Runtime_error, b)"
proof -
  have "\<not> all_verify (ap_tx A (bk_catalog b)) txs s" using assms(5,6) by (auto simp: all_verify_def)
  then show ?thesis by (simp add: addBlock_past_gate [OF assms(1-3)] assms(4) verify_all_iff)
qed

subsection \<open>Overrides wired to the indexes\<close>

lemma attach_families_wired:
  assumes "so_wf s" and "\<forall>i \<in> set is. i < familySize s" and "distinct is"
  shows "\<exists>s'. attach_families A indexes is s = Inr s' \<and> so_wf s' \<and> so_order s' = so_order s \<and>
    (\<forall>m < familySize s. familyAt m s' =
       (case getIndexAt (word_of_nat m) indexes of
          Some ix \<Rightarrow> if m \<in> set is then bind_result (familyAt m s) (\<lambda>f. Inr (ap_attach A ix f)) else familyAt m s
        | None \<Rightarrow> familyAt m s))"
  using assms
proof (induction "is" arbitrary: s)
  case (Cons i "is")
  show ?case
  proof (cases "getIndexAt (word_of_nat i) indexes")
    case None
    then show ?thesis using Cons.IH [OF Cons.prems(1)] Cons.prems by (auto split: option.splits)
  next
    case (Some ix)
    have i: "i < familySize s" using Cons.prems by simp
    from familyAt_mut_wf [OF Cons.prems(1) i, of "ap_attach A ix"] obtain s1
      where s1: "familyAt_mut i (ap_attach A ix) s = Inr s1" "so_wf s1" "so_order s1 = so_order s"
      and at: "\<And>m. m < familySize s \<Longrightarrow> familyAt m s1 =
        (if m = i then bind_result (familyAt i s) (\<lambda>f. Inr (ap_attach A ix f)) else familyAt m s)" by blast
    have fs: "familySize s1 = familySize s" by (simp add: familySize_def s1(3))
    from Cons.IH [OF s1(2)] Cons.prems obtain s'
      where s': "attach_families A indexes is s1 = Inr s'" "so_wf s'" "so_order s' = so_order s"
      and rest: "\<And>m. m < familySize s \<Longrightarrow> familyAt m s' =
       (case getIndexAt (word_of_nat m) indexes of
          Some ix \<Rightarrow> if m \<in> set is then bind_result (familyAt m s1) (\<lambda>f. Inr (ap_attach A ix f)) else familyAt m s1
        | None \<Rightarrow> familyAt m s1)" by (auto simp: fs s1(3))
    have "familyAt m s' = (case getIndexAt (word_of_nat m) indexes of
          Some ix \<Rightarrow> if m \<in> set (i # is) then bind_result (familyAt m s) (\<lambda>f. Inr (ap_attach A ix f)) else familyAt m s
        | None \<Rightarrow> familyAt m s)" if "m < familySize s" for m
      using rest [OF that] at [OF that] Some Cons.prems(3) by (auto split: option.splits)
    with s1(1) s' Some show ?thesis by auto
  qed
qed (auto split: option.splits)

text \<open>The override a block is verified and applied on.\<close>

lemma newStateOverride_families:
  assumes reg: "bk_overrideReg b = register_overrides rs" and few: "at_most_256 (map fst rs)"
    and idx: "length (br_entries (bk_indexes b)) \<le> 65536"
  shows "\<exists>s. newStateOverride A b = Inr s \<and> so_wf s \<and> familySize s = length rs \<and>
    (\<forall>m < length rs. familyAt m s = Inr
       (case (if m < 65536 then getIndexAt (word_of_nat m) (bk_indexes b) else None) of
          Some ix \<Rightarrow> ap_attach A ix (snd (rs ! m) ())
        | None \<Rightarrow> snd (rs ! m) ()))"
proof -
  let ?s = "new_StateOverride (register_overrides rs)"
  define n where "n = (if length rs < length (br_entries (bk_indexes b)) then length rs else length (br_entries (bk_indexes b)))"
  have n: "\<forall>i \<in> set [0 ..< n]. i < length rs" by (auto simp: n_def)
  have size: "familySize ?s = length rs"
    by (simp add: familySize_def new_StateOverride_fields sor_slots_register_overrides)
  from attach_families_wired [OF new_StateOverride_wf [OF few], of "[0 ..< n]" A "bk_indexes b"] n obtain s
    where s: "attach_families A (bk_indexes b) [0 ..< n] ?s = Inr s" "so_wf s" "so_order s = so_order ?s"
    and at: "\<And>m. m < length rs \<Longrightarrow> familyAt m s =
       (case getIndexAt (word_of_nat m) (bk_indexes b) of
          Some ix \<Rightarrow> if m \<in> set [0 ..< n] then bind_result (familyAt m ?s) (\<lambda>f. Inr (ap_attach A ix f)) else familyAt m ?s
        | None \<Rightarrow> familyAt m ?s)"
    by (auto simp: size)
  have "getIndexAt (word_of_nat m) (bk_indexes b) = None"
    if "length (br_entries (bk_indexes b)) \<le> m" "m < 65536" for m
    using that by (simp add: getIndexAt_def unat_of_nat)
  then have "familyAt m s = Inr
       (case (if m < 65536 then getIndexAt (word_of_nat m) (bk_indexes b) else None) of
          Some ix \<Rightarrow> ap_attach A ix (snd (rs ! m) ())
        | None \<Rightarrow> snd (rs ! m) ())" if "m < length rs" for m
    using at [OF that] familyAt_new [OF few that] that idx by (auto simp: n_def split: option.splits)
  moreover have "familySize s = length rs" using s(3) size by (simp add: familySize_def)
  ultimately show ?thesis
    using s(1,2) by (simp add: newStateOverride_def attachOverrideFamilies_def reg size n_def [symmetric])
qed

text \<open>
  (newStateOverride wired): a new override has one fresh family per registration, in
  registration order, and the family in slot \<open>m\<close> has been attached to the index with
  persistent id \<open>m\<close> when there is one.
\<close>

theorem newStateOverride_wired:
  assumes "bk_overrideReg b = register_overrides rs" and "at_most_256 (map fst rs)"
    and "length (br_entries (bk_indexes b)) \<le> 65536"
  shows "\<exists>s. newStateOverride A b = Inr s \<and> familySize s = length rs \<and>
    (\<forall>m < length rs. familyAt m s = Inr
       (case (if m < 65536 then getIndexAt (word_of_nat m) (bk_indexes b) else None) of
          Some ix \<Rightarrow> ap_attach A ix (snd (rs ! m) ())
        | None \<Rightarrow> snd (rs ! m) ()))"
  using newStateOverride_families [OF assms] by blast

subsection \<open>Sealing\<close>

lemma pick_candidate_found:
  assumes "\<forall>c \<in> set cs. bt_find (en_toc E) (ct_tocBTree cat) (empty_entry (en_u256 E) (fst c) 0) \<noteq> None"
  shows "\<exists>r. pick_candidate E cat cs = Inr r"
  using assms by (induction E cat cs rule: pick_candidate.induct) (auto split: option.splits)

text \<open>What a write needs of the catalog: a sound TOC and files that can be opened.\<close>

definition catalog_ready ::
  "('tt, 'b, 't, 'r, 'd, 'm) catalog_env \<Rightarrow> ('tt \<Rightarrow> bool) \<Rightarrow> ('tt \<Rightarrow> 'b catalog_contents_entry_t set) \<Rightarrow> 'tt \<Rightarrow> bool" where
  "catalog_ready E okT toc t \<longleftrightarrow>
     btree_contract (en_toc E) toc_compare okT toc \<and> okT t \<and> (\<forall>e \<in> toc t. ce_fileId e \<noteq> 0) \<and>
     (\<forall>cs. mset (en_sort E cs) = mset cs) \<and> (\<forall>f. en_opens E f)"

type_synonym segment_request = "u16 \<times> u16 \<times> u16 \<times> u64 \<times> u64 \<times> byte list"

definition task_request :: "'b segment_task \<Rightarrow> segment_request" where
  "task_request tk = (tk_indexId tk, tk_version tk, tk_mergeGeneration tk, tk_startBlock tk, tk_endBlock tk, tk_content tk)"

text \<open>The catalog keeps its TOC and its files; new empty files may appear.\<close>

definition catalog_extends ::
  "('tt, 'b, 't, 'r, 'd, 'm) catalog_env \<Rightarrow> ('tt, 'b, 't, 'r, 'd) Catalog \<Rightarrow> ('tt, 'b, 't, 'r, 'd) Catalog \<Rightarrow> bool" where
  "catalog_extends E cat cat' \<longleftrightarrow> ct_tocBTree cat' = ct_tocBTree cat \<and>
     (\<forall>f. ct_files cat' f = ct_files cat f \<or> ct_files cat f = None \<and> ct_files cat' f = Some (en_newFile E))"

lemma catalog_extends_refl: "catalog_extends E cat cat"
  by (simp add: catalog_extends_def)

lemma catalog_extends_trans: "catalog_extends E a b \<Longrightarrow> catalog_extends E b c \<Longrightarrow> catalog_extends E a c"
  unfolding catalog_extends_def by metis

lemma writeSegment_accepts:
  assumes ready: "catalog_ready E okT toc (ct_tocBTree cat)"
  shows "\<exists>cat' tk. writeSegment E now now' i v g s e content cat = Some (Inr (), cat') \<and> catalog_extends E cat cat' \<and>
    ct_tasks cat' = ct_tasks cat @ [tk] \<and> task_request tk = (i, v, g, s, e, content) \<and> tk_stage tk = Queued"
proof -
  note R = ready [unfolded catalog_ready_def]
  have bt: "btree_contract (en_toc E) toc_compare okT toc" "okT (ct_tocBTree cat)" using R by auto
  have pos: "ce_fileId x \<noteq> 0" if "x \<in> toc (ct_tocBTree cat)" for x using R that by blast
  let ?sz = "word_of_nat (length content) :: u32"
  obtain cs where cs: "collect_candidates E now i s e ?sz cat = Some cs"
    and within: "\<forall>c \<in> set cs. \<exists>k \<in> toc (ct_tocBTree cat). ce_fileId k = fst c"
    using collect_candidates_within [OF bt pos, of now i s e ?sz] by blast
  have "set (en_sort E cs) = set cs" using R by (metis set_mset_mset)
  then have "\<forall>c \<in> set (en_sort E cs).
      bt_find (en_toc E) (ct_tocBTree cat) (empty_entry (en_u256 E) (fst c) 0) \<noteq> None"
    using within btree_find [OF bt] by (fastforce simp: toc_cmp_0)
  from pick_candidate_found [OF this] obtain p where p: "pick_candidate E cat (en_sort E cs) = Inr p" by blast
  have "\<exists>f key cat1. selectFileFor E now now' i s e ?sz cat = Some (Inr (Some f, key), cat1)"
    using R by (cases p) (auto simp: selectFileFor_def cs p Let_def)
  then obtain f key cat1 where sel: "selectFileFor E now now' i s e ?sz cat = Some (Inr (Some f, key), cat1)" by blast
  have "catalog_extends E cat cat1"
    using selectFileFor_frame(1,4) [OF sel] by (simp add: catalog_extends_def)
  then show ?thesis
    using selectFileFor_frame(2) [OF sel]
    by (auto simp: writeSegment_def sel task_request_def catalog_extends_def)
qed

text \<open>The segments a block has to be written as.\<close>

definition sealed_writes ::
  "('tx, 'k, 'f, 'm, 'cat) app_ops \<Rightarrow> 'cat \<Rightarrow> ('k, string BlockchainIndex) BackendRegistry \<Rightarrow> u64 \<Rightarrow>
   ('k, 'f) StateOverride \<Rightarrow> nat list \<Rightarrow> segment_request list" where
  "sealed_writes A cat indexes blk s is =
     concat (map (\<lambda>i.
       case (familyAt i s, getIndexAt (word_of_nat i) indexes) of
         (Inr fam, Some ix) \<Rightarrow>
           if ap_seal A cat fam = [] then []
           else [(word_of_nat i, ix_encodingVersion ix, 0, blk, blk + 1, ap_seal A cat fam)]
       | _ \<Rightarrow> []) is)"

text \<open>
  Sealing reads committed state through the catalog; an empty new file is invisible to it.
\<close>

definition seal_stable ::
  "('tt, 'b, 't, 'r, 'd, 'm) catalog_env \<Rightarrow> ('tx, 'k, 'f, 'm, ('tt, 'b, 't, 'r, 'd) Catalog) app_ops \<Rightarrow> bool" where
  "seal_stable E A \<longleftrightarrow> (\<forall>cat cat' f. catalog_extends E cat cat' \<longrightarrow> ap_seal A cat' f = ap_seal A cat f)"

lemma seal_families_writes:
  assumes stable: "seal_stable E A" and fams: "\<forall>i \<in> set is. \<exists>f. familyAt i s = Inr f"
    and ready: "catalog_ready E okT toc (ct_tocBTree cat)" and ext: "catalog_extends E cat0 cat"
  shows "\<exists>cat' tks. seal_families A E indexes clock blk is s cat = Some (Inr (), cat') \<and>
    catalog_extends E cat0 cat' \<and> ct_tasks cat' = ct_tasks cat @ tks \<and>
    map task_request tks = sealed_writes A cat0 indexes blk s is \<and> (\<forall>tk \<in> set tks. tk_stage tk = Queued)"
  using fams ready ext
proof (induction "is" arbitrary: cat)
  case (Cons i "is")
  then obtain fam where fam: "familyAt i s = Inr fam" by auto
  have seal: "ap_seal A cat fam = ap_seal A cat0 fam" using stable Cons.prems(3) by (simp add: seal_stable_def)
  have IH: "catalog_ready E okT toc (ct_tocBTree c) \<Longrightarrow> catalog_extends E cat0 c \<Longrightarrow>
      \<exists>cat' tks. seal_families A E indexes clock blk is s c = Some (Inr (), cat') \<and>
      catalog_extends E cat0 cat' \<and> ct_tasks cat' = ct_tasks c @ tks \<and>
      map task_request tks = sealed_writes A cat0 indexes blk s is \<and> (\<forall>tk \<in> set tks. tk_stage tk = Queued)" for c
    using Cons.IH Cons.prems(1) by simp
  show ?case
  proof (cases "ap_seal A cat fam = [] \<or> getIndexAt (word_of_nat i) indexes = None")
    case True
    then have "seal_families A E indexes clock blk (i # is) s cat = seal_families A E indexes clock blk is s cat"
      by (auto simp: fam Let_def)
    moreover have "sealed_writes A cat0 indexes blk s (i # is) = sealed_writes A cat0 indexes blk s is"
      using True by (auto simp: sealed_writes_def fam seal split: option.splits)
    ultimately show ?thesis using IH [OF Cons.prems(2,3)] by simp
  next
    case False
    then obtain ix where ix: "getIndexAt (word_of_nat i) indexes = Some ix" and p: "ap_seal A cat fam \<noteq> []" by blast
    from writeSegment_accepts [OF Cons.prems(2), of "fst (clock i)" "snd (clock i)" "word_of_nat i"
        "ix_encodingVersion ix" 0 blk "blk + 1" "ap_seal A cat fam"]
    obtain cat1 tk where w: "writeSegment E (fst (clock i)) (snd (clock i)) (word_of_nat i)
        (ix_encodingVersion ix) 0 blk (blk + 1) (ap_seal A cat fam) cat = Some (Inr (), cat1)"
      "catalog_extends E cat cat1" "ct_tasks cat1 = ct_tasks cat @ [tk]"
      "task_request tk = (word_of_nat i, ix_encodingVersion ix, 0, blk, blk + 1, ap_seal A cat fam)"
      "tk_stage tk = Queued" by blast
    have "catalog_ready E okT toc (ct_tocBTree cat1)" using Cons.prems(2) w(2) by (simp add: catalog_extends_def)
    from IH [OF this catalog_extends_trans [OF Cons.prems(3) w(2)]] obtain cat' tks
      where "seal_families A E indexes clock blk is s cat1 = Some (Inr (), cat')" "catalog_extends E cat0 cat'"
        "ct_tasks cat' = ct_tasks cat1 @ tks" "map task_request tks = sealed_writes A cat0 indexes blk s is"
        "\<forall>tk \<in> set tks. tk_stage tk = Queued" by blast
    with w p ix have "seal_families A E indexes clock blk (i # is) s cat = Some (Inr (), cat')"
      and "ct_tasks cat' = ct_tasks cat @ tk # tks"
      and "map task_request (tk # tks) = sealed_writes A cat0 indexes blk s (i # is)"
      by (simp_all add: fam Let_def sealed_writes_def seal)
    with \<open>catalog_extends E cat0 cat'\<close> \<open>tk_stage tk = Queued\<close> \<open>\<forall>tk \<in> set tks. tk_stage tk = Queued\<close>
    show ?thesis by (intro exI [of _ cat'] exI [of _ "tk # tks"]) simp
  qed
qed (simp add: sealed_writes_def)

lemma seal_override_writes:
  assumes "seal_stable E A" and "so_wf s" and "catalog_ready E okT toc (ct_tocBTree cat)"
  shows "\<exists>cat' tks. sealOverrideToSegments A E indexes clock blk s cat = Some (Inr (), cat') \<and>
    catalog_extends E cat cat' \<and> ct_tasks cat' = ct_tasks cat @ tks \<and> (\<forall>tk \<in> set tks. tk_stage tk = Queued) \<and>
    map task_request tks = sealed_writes A cat indexes blk s [0 ..< min (familySize s) (length (br_entries indexes))]"
proof -
  have m: "(if a < b then a else b) = min a b" for a b :: nat by (simp add: min_def)
  have "\<forall>i \<in> set [0 ..< min (familySize s) (length (br_entries indexes))]. \<exists>f. familyAt i s = Inr f"
    using familyAt_wf [OF assms(2)] by simp
  from seal_families_writes [OF assms(1) this assms(3) catalog_extends_refl] show ?thesis
    unfolding sealOverrideToSegments_def Let_def m by blast
qed

text \<open>
  C19 (Backend_Commit.seal_routes_payloads): sealing an override queues one background write per paired slot
  whose family has changes to store, in slot order, with the slot number as index id, the
  index's encoding version, generation 0, the range of the one block, and the sealed bytes;
  slots with an empty payload queue nothing, and neither the TOC nor an existing file changes.
\<close>

theorem seal_routes_payloads:
  assumes "seal_stable E A" and "so_wf s" and "catalog_ready E okT toc (ct_tocBTree cat)"
  shows "\<exists>cat' tks. sealOverrideToSegments A E indexes clock blk s cat = Some (Inr (), cat') \<and>
    catalog_extends E cat cat' \<and> ct_tasks cat' = ct_tasks cat @ tks \<and> (\<forall>tk \<in> set tks. tk_stage tk = Queued) \<and>
    map task_request tks = sealed_writes A cat indexes blk s [0 ..< min (familySize s) (length (br_entries indexes))]"
  using assms by (rule seal_override_writes)

subsection \<open>The whole commit\<close>

text \<open>
  Transactions change families through the accessors of \<open>StateOverride\<close>, which keep its
  slots.
\<close>

definition apply_keeps_slots :: "('tx, ('k, 'f) StateOverride, 'm) tx_ops \<Rightarrow> bool" where
  "apply_keeps_slots T \<longleftrightarrow> (\<forall>tx s. so_wf s \<longrightarrow>
     so_wf (snd (tx_apply T tx s)) \<and> so_order (snd (tx_apply T tx s)) = so_order s)"

lemma apply_all_keeps_slots:
  assumes "apply_keeps_slots T" and "so_wf s"
  shows "so_wf (apply_all T txs s) \<and> so_order (apply_all T txs s) = so_order s"
  using assms(2)
proof (induction txs arbitrary: s)
  case (Cons tx txs)
  then show ?case using assms(1) Cons.IH [of "snd (tx_apply T tx s)"] by (simp add: apply_keeps_slots_def)
qed simp

lemma addBlock_outcome:
  assumes "backend_contract A N (bk_txTypes b) V enc okT cont"
    and "chain_holds V enc okT cont b bs" and "length bs < 2 ^ 48"
    and "getEpochFile N (bk_currentBlockHeight b) b = (Some f, b1)"
    and "block_fits enc (vw_cap V f) (epoch_slice (length bs div 65536) bs) (millis, txs)"
    and "addBlock A N clock millis txs b = Some (r, b')"
  shows "b' = b \<and> (\<forall>k. r = Inr k \<longrightarrow> k = - 1) \<or>
    chain_holds V enc okT cont b' (bs @ [(millis, txs)]) \<and> bk_txTypes b' = bk_txTypes b \<and>
    bk_lastBlockTimestamp b' = millis \<and> (\<forall>k. r = Inr k \<longrightarrow> k = int (length bs))"
proof (cases "commit_block A N clock millis (millis - bk_lastBlockTimestamp b) txs b = Some (r, b')")
  case True
  from commit_block_appends [OF assms(1-5) True] show ?thesis by simp
next
  case False
  with assms(6) show ?thesis by (auto simp: addBlock_def Let_def split: if_splits sum.splits)
qed

text \<open>
  C4 (Backend_Commit.addBlock_refines): whatever happens inside, a call of \<open>addBlock\<close> on a backend that
  holds the chain \<open>bs\<close> (of fewer than 2^48 blocks), for a block whose epoch file opens and has room for
  it, either leaves the backend exactly as it was, or leaves a backend that holds \<open>bs\<close> with the block
  appended, stamped with the current time; it returns a number other than -1 only in the second case,
  and the number is the position of the block in the chain, counted from 0 (the height before the
  call, not the new height).
\<close>

theorem addBlock_refines:
  assumes "backend_contract A N (bk_txTypes b) V enc okT cont"
    and "chain_holds V enc okT cont b bs" and "length bs < 2 ^ 48"
    and "getEpochFile N (bk_currentBlockHeight b) b = (Some f, b1)"
    and "block_fits enc (vw_cap V f) (epoch_slice (length bs div 65536) bs) (millis, txs)"
    and "addBlock A N clock millis txs b = Some (r, b')"
  shows "b' = b \<and> (\<forall>k. r = Inr k \<longrightarrow> k = - 1) \<or>
    chain_holds V enc okT cont b' (bs @ [(millis, txs)]) \<and> bk_txTypes b' = bk_txTypes b \<and>
    bk_lastBlockTimestamp b' = millis \<and> (\<forall>k. r = Inr k \<longrightarrow> k = int (length bs))"
  using assms by (rule addBlock_outcome)

lemma commit_block_runs:
  assumes f: "getEpochFile N (bk_currentBlockHeight b) b = (Some f, b1)" and duration: "duration \<noteq> 0"
    and fresh: "newStateOverride A b = Inr s" "so_wf s" and keeps: "apply_keeps_slots (ap_tx A (bk_catalog b))"
    and stable: "seal_stable (be_catalog N) A" and ready: "catalog_ready (be_catalog N) okC toc (ct_tocBTree (bk_catalog b))"
  shows "\<exists>b' tks. commit_block A N clock millis duration txs b = Some (Inr (sint (bk_currentBlockHeight b)), b') \<and>
    ct_tasks (bk_catalog b') = ct_tasks (bk_catalog b) @ tks \<and>
    map task_request tks = sealed_writes A (bk_catalog b) (bk_indexes b) (bk_currentBlockHeight b)
      (apply_all (ap_tx A (bk_catalog b)) txs s) [0 ..< min (familySize s) (length (br_entries (bk_indexes b)))]"
proof -
  let ?s = "apply_all (ap_tx A (bk_catalog b)) txs s"
  have s: "so_wf ?s" "familySize ?s = familySize s"
    using apply_all_keeps_slots [OF keeps fresh(2), of txs] by (simp_all add: familySize_def)
  have new: "newStateOverride A b' = Inr s"
    if "bk_indexes b' = bk_indexes b" "bk_overrideReg b' = bk_overrideReg b" for b'
    using fresh(1) that by (simp add: newStateOverride_def)
  from seal_override_writes [OF stable s(1) ready, of "bk_indexes b" clock "bk_currentBlockHeight b"] show ?thesis
    using duration
    by (fastforce simp: commit_block_def Let_def commit_journal_run [OF f] commit_timestamp_def commit_segments_def new s(2))
qed

lemma addBlock_commit_run:
  assumes C: "backend_contract A N (bk_txTypes b) V enc okT cont"
    and chain: "chain_holds V enc okT cont b bs" and small: "length bs < 2 ^ 48"
    and f: "getEpochFile N (bk_currentBlockHeight b) b = (Some f, b1)"
    and fits: "block_fits enc (vw_cap V f) (epoch_slice (length bs div 65536) bs) (millis, txs)"
    and n: "0 < length txs" "length txs < 2 ^ 31"
    and gate: "length txs = 1024 \<or> \<not> too_early (bk_config b) (unat (millis - bk_lastBlockTimestamp b)) (length txs)"
    and later: "millis \<noteq> bk_lastBlockTimestamp b"
    and fresh: "newStateOverride A b = Inr s" "so_wf s" "all_verify (ap_tx A (bk_catalog b)) txs s"
    and keeps: "apply_keeps_slots (ap_tx A (bk_catalog b))"
    and stable: "seal_stable (be_catalog N) A" and ready: "catalog_ready (be_catalog N) okC toc (ct_tocBTree (bk_catalog b))"
  shows "\<exists>b' tks. addBlock A N clock millis txs b = Some (Inr (int (length bs)), b') \<and>
    chain_holds V enc okT cont b' (bs @ [(millis, txs)]) \<and>
    ct_tasks (bk_catalog b') = ct_tasks (bk_catalog b) @ tks \<and>
    map task_request tks = sealed_writes A (bk_catalog b) (bk_indexes b) (bk_currentBlockHeight b)
      (apply_all (ap_tx A (bk_catalog b)) txs s) [0 ..< min (familySize s) (length (br_entries (bk_indexes b)))]"
proof -
  let ?T = "ap_tx A (bk_catalog b)" and ?blk = "bk_currentBlockHeight b"
  let ?s = "apply_all ?T txs s" and ?d = "millis - bk_lastBlockTimestamp b"
  have "?d \<noteq> 0" using later by simp
  from commit_block_runs [OF f this fresh(1,2) keeps stable ready, of clock millis txs] obtain b' tks
    where commit: "commit_block A N clock millis ?d txs b = Some (Inr (sint ?blk), b')"
    and tks: "ct_tasks (bk_catalog b') = ct_tasks (bk_catalog b) @ tks" "map task_request tks =
      sealed_writes A (bk_catalog b) (bk_indexes b) ?blk ?s [0 ..< min (familySize s) (length (br_entries (bk_indexes b)))]"
    by blast
  from commit_block_appends [OF C chain small f fits commit]
  have "chain_holds V enc okT cont b' (bs @ [(millis, txs)])" "sint ?blk = int (length bs)" by auto
  moreover have "addBlock A N clock millis txs b = Some (Inr (sint ?blk), b')"
    by (simp add: addBlock_past_gate [OF n gate] fresh verify_all_iff commit)
  ultimately show ?thesis using tks by auto
qed

text \<open>
  C3 (Backend_Commit.addBlock_commits): a non-empty block that the gate accepts and whose transactions all verify is
  committed, provided the chain has fewer than 2^48 blocks, its epoch file opens and has room for it, the
  catalog's files open, and the clock shows another millisecond than the last block's timestamp (a full
  block in the same millisecond divides by zero): \<open>addBlock\<close> returns its number (counted from 0, one less
  than the new height), the chain is extended by it, and exactly the segments of the override obtained
  by applying the block are queued for writing.
\<close>

theorem addBlock_commits:
  assumes C: "backend_contract A N (bk_txTypes b) V enc okT cont"
    and chain: "chain_holds V enc okT cont b bs" and small: "length bs < 2 ^ 48"
    and f: "getEpochFile N (bk_currentBlockHeight b) b = (Some f, b1)"
    and fits: "block_fits enc (vw_cap V f) (epoch_slice (length bs div 65536) bs) (millis, txs)"
    and n: "0 < length txs" "length txs < 2 ^ 31"
    and gate: "length txs = 1024 \<or> \<not> too_early (bk_config b) (unat (millis - bk_lastBlockTimestamp b)) (length txs)"
    and later: "millis \<noteq> bk_lastBlockTimestamp b"
    and fresh: "newStateOverride A b = Inr s" "so_wf s" "all_verify (ap_tx A (bk_catalog b)) txs s"
    and keeps: "apply_keeps_slots (ap_tx A (bk_catalog b))"
    and stable: "seal_stable (be_catalog N) A" and ready: "catalog_ready (be_catalog N) okC toc (ct_tocBTree (bk_catalog b))"
  shows "\<exists>b' tks. addBlock A N clock millis txs b = Some (Inr (int (length bs)), b') \<and>
    chain_holds V enc okT cont b' (bs @ [(millis, txs)]) \<and>
    ct_tasks (bk_catalog b') = ct_tasks (bk_catalog b) @ tks \<and>
    map task_request tks = sealed_writes A (bk_catalog b) (bk_indexes b) (bk_currentBlockHeight b)
      (apply_all (ap_tx A (bk_catalog b)) txs s) [0 ..< min (familySize s) (length (br_entries (bk_indexes b)))]"
  using assms by (rule addBlock_commit_run)

subsection \<open>Witnesses\<close>

text \<open>A chain with one index and one override family, a counter that one-byte transactions add to.\<close>

type_synonym sample_catalog =
  "(256 word catalog_contents_entry_t list, 256 word, segment_btree_metadata_t list, nat, memory) Catalog"

definition counter_tx :: "(byte, (string, nat) StateOverride, flat_file) tx_ops" where
  "counter_tx =
     \<lparr>tx_verify = (\<lambda>x s. x \<noteq> 0),
      tx_apply = (\<lambda>x s. case override_mut ''C'' 0 (\<lambda>n. n + unat x) s of Inl e \<Rightarrow> (False, s) | Inr s' \<Rightarrow> (True, s')),
      tx_computeValue = (\<lambda>x s. Fin (real (unat x))),
      tx_write = (\<lambda>x. mm_write flat_mmap [1, x]), tx_size = (\<lambda>x. 2), tx_getTypeId = (\<lambda>x. 1),
      tx_getTimestamp = (\<lambda>x. ucast x)\<rparr>"

definition sample_app :: "(byte, string, nat, flat_file, sample_catalog) app_ops" where
  "sample_app = \<lparr>ap_tx = (\<lambda>_. counter_tx), ap_seal = (\<lambda>_ n. if n = 0 then [] else [word_of_nat n]),
     ap_attach = (\<lambda>_ n. n)\<rparr>"

definition sample_design :: "(byte, string, nat, flat_file) ChainDesign" where
  "sample_design =
     \<lparr>cd_registerIndexes = (\<lambda>reg. registerIndex ''I''
        \<lparr>ix_attachedCatalog = None, ix_attachedIndexId = 0, ix_encodingVersion = 1\<rparr> reg),
      cd_registerOverrides = (\<lambda>reg. registerOverride ''C'' (\<lambda>_. 0) reg),
      cd_registerTransactionTypes = (\<lambda>reg. registerType 1 byte_factory reg)\<rparr>"

definition sample_benv ::
  "(block_timestamp_entry_t list, 256 word catalog_contents_entry_t list, 256 word,
    segment_btree_metadata_t list, nat, memory, flat_file) backend_env" where
  "sample_benv = \<lparr>be_mmap = flat_mmap, be_tracker = list_btree ts_compare, be_catalog = sample_env,
     be_createEpoch = (\<lambda>_. Some \<lparr>fl_mem = (\<lambda>_. 0), fl_pos = 0, fl_cap = 300000\<rparr>)\<rparr>"

definition sample_backend ::
  "(byte, string, nat, flat_file, block_timestamp_entry_t list, sample_catalog) BlockchainBackend" where
  "sample_backend = new_BlockchainBackend sample_design default_config ''d'' None Map.empty [] (new_Catalog [])"

abbreviation sample_enc :: "byte \<Rightarrow> byte list" where
  "sample_enc \<equiv> \<lambda>x. [1, x]"

lemma sample_backend_fields:
  "bk_config sample_backend = default_config" "bk_lastBlockTimestamp sample_backend = 0"
  "bk_currentBlockHeight sample_backend = 0" "bk_epochs sample_backend = Map.empty"
  "bk_timestampTracker sample_backend = []" "bk_catalog sample_backend = new_Catalog []"
  "bk_txTypes sample_backend = byte_types"
  "bk_overrideReg sample_backend = register_overrides [(''C'', \<lambda>_. 0)]"
  "length (br_entries (bk_indexes sample_backend)) = 1"
  "getIndexAt 0 (bk_indexes sample_backend) =
     Some \<lparr>ix_attachedCatalog = Some ''d/catalog'', ix_attachedIndexId = 0, ix_encodingVersion = 1\<rparr>"
  by (simp_all add: sample_backend_def new_BlockchainBackend_def sample_design_def byte_types_def
      register_overrides_def attachIndexesToStorage_def registerIndex_def new_BackendRegistry_def
      getIndexAt_def family_get_def family_add_def updateIndexAt_def index_attach_def)

lemma sample_backend_contract:
  "backend_contract sample_app sample_benv byte_types flat_view sample_enc (one_per_key ts_compare) set"
proof -
  have "tx_codec counter_tx (factories byte_types) flat_view sample_enc"
    using byte_types_codec by (simp add: tx_codec_def counter_tx_def byte_tx_def)
  then show ?thesis
    by (simp add: backend_contract_def sample_app_def sample_benv_def flat_mmap_contract ts.list_btree_contract)
qed

lemma sample_chain: "chain_holds flat_view sample_enc (one_per_key ts_compare) set sample_backend []"
  by (simp add: chain_holds_def sample_backend_fields files_hold_def epoch_slice_def one_per_key_Nil)

lemma sample_epoch_file:
  "\<exists>b1. getEpochFile sample_benv (bk_currentBlockHeight sample_backend) sample_backend = (Some sample_epoch, b1)"
  by (simp add: getEpochFile_def sample_backend_fields sample_benv_def sample_epoch_def Let_def)

lemma sample_fits:
  "block_fits sample_enc (vw_cap flat_view sample_epoch) (epoch_slice (length [] div 65536) []) (1000000, [7, 9])"
  using sample_block_fits by (simp add: epoch_slice_def block_fits_def block_bytes_def end_of_def block_header_t_def)

definition sample_state :: "nat \<Rightarrow> (string, nat) StateOverride" where
  "sample_state n = \<lparr>so_families = [''C'' \<mapsto> [n]], so_order = [(''C'', 0)]\<rparr>"

lemma sample_state_facts:
  "so_wf (sample_state n)" "familySize (sample_state n) = 1" "familyAt 0 (sample_state n) = Inr n"
  "override_mut ''C'' 0 g (sample_state n) = Inr (sample_state (g n))"
  by (simp_all add: sample_state_def so_wf_def at_most_256_def familySize_def familyAt_def override_get_def override_mut_def)

lemma sample_override: "newStateOverride sample_app sample_backend = Inr (sample_state 0)"
proof -
  have "new_StateOverride (register_overrides [(''C'', \<lambda>_. 0)]) = sample_state 0"
    by (simp add: new_StateOverride_def register_overrides_def registerOverride_def new_StateOverrideRegistry_def
        getEntries_def add_family_def sample_state_def)
  then show ?thesis
    using sample_state_facts(2)
    by (simp add: newStateOverride_def attachOverrideFamilies_def sample_backend_fields familyAt_mut_def
        sample_state_facts(4)) (simp add: sample_state_def override_mut_def sample_app_def)
qed

lemma sample_app_laws:
  "apply_keeps_slots counter_tx" "seal_stable E sample_app" "ap_tx sample_app c = counter_tx"
  "catalog_ready (be_catalog sample_benv) (one_per_key toc_compare) set []"
proof -
  show "apply_keeps_slots counter_tx"
    using override_mut_wf override_mut_order
    by (auto simp: apply_keeps_slots_def counter_tx_def split: sum.splits)
  show "seal_stable E sample_app" "ap_tx sample_app c = counter_tx" by (simp_all add: seal_stable_def sample_app_def)
  show "catalog_ready (be_catalog sample_benv) (one_per_key toc_compare) set []"
    using toc.list_btree_contract by (simp add: catalog_ready_def sample_benv_def one_per_key_Nil)
qed

lemma sample_gate: "\<not> too_early default_config 1000000 (Suc (Suc 0))"
  by (simp add: too_early_def default_config_def)

lemma sample_catalog_toc: "ct_tocBTree (new_Catalog t) = t"
  by (simp add: new_Catalog_def)

lemma sample_verifies: "all_verify counter_tx [7, 9] s"
  by (simp add: all_verify_def counter_tx_def less_Suc_eq)

lemma sample_commit:
  "\<exists>b'. addBlock sample_app sample_benv clock 1000000 [7, 9] sample_backend = Some (Inr 0, b')"
proof -
  obtain b1 where f: "getEpochFile sample_benv (bk_currentBlockHeight sample_backend) sample_backend = (Some sample_epoch, b1)"
    using sample_epoch_file by blast
  show ?thesis
    using addBlock_commit_run [OF _ sample_chain _ f sample_fits _ _ _ _ sample_override sample_state_facts(1),
        of "one_per_key toc_compare" set clock] sample_backend_contract sample_gate sample_verifies sample_app_laws
    by (auto simp: sample_backend_fields sample_catalog_toc)
qed

theorem addBlock_refused_iff_witness:
  "addBlock sample_app sample_benv (\<lambda>_. (7, 7)) 5 [7, 9] sample_backend = Some (Inr (- 1), sample_backend)"
  using addBlock_refused_iff [of "[7, 9]" sample_backend sample_app sample_benv "\<lambda>_. (7, 7)" 5]
  by (simp add: sample_backend_fields too_early_def)

theorem stale_chain_gate_witness:
  "addBlock sample_app sample_benv (\<lambda>_. (7, 7)) 1700000000000 (replicate 100 7) sample_backend = Some (Inr (- 1), sample_backend)"
  using stale_chain_gate [of "replicate 100 7" sample_backend 1700000000000 sample_app sample_benv "\<lambda>_. (7, 7)"]
  by (simp add: sample_backend_fields)

theorem addBlock_unverified_witness:
  "addBlock sample_app sample_benv (\<lambda>_. (7, 7)) 1000000 [7, 0] sample_backend = Some (Inl Runtime_error, sample_backend)"
  using addBlock_unverified [OF _ _ _ sample_override, of "[7, 0]" 1000000 1 sample_benv "\<lambda>_. (7, 7)"] sample_gate
  by (simp add: sample_backend_fields sample_app_laws) (simp add: counter_tx_def)

theorem newStateOverride_wired_witness:
  "\<exists>s. newStateOverride sample_app sample_backend = Inr s \<and> familySize s = 1 \<and> familyAt 0 s = Inr 0"
  using newStateOverride_wired [of sample_backend "[(''C'', \<lambda>_. 0)]" sample_app]
  by (auto simp: sample_backend_fields at_most_256_def sample_app_def split: option.splits)

theorem addBlock_refines_witness:
  "\<exists>b'. addBlock sample_app sample_benv (\<lambda>_. (7, 7)) 1000000 [7, 9] sample_backend = Some (Inr 0, b') \<and>
     chain_holds flat_view sample_enc (one_per_key ts_compare) set b' [(1000000, [7, 9])]"
proof -
  obtain b1 where f: "getEpochFile sample_benv (bk_currentBlockHeight sample_backend) sample_backend = (Some sample_epoch, b1)"
    using sample_epoch_file by blast
  obtain b' where b': "addBlock sample_app sample_benv (\<lambda>_. (7, 7)) 1000000 [7, 9] sample_backend = Some (Inr 0, b')"
    using sample_commit by blast
  show ?thesis
    using addBlock_refines [OF _ sample_chain _ f sample_fits b'] b' sample_backend_contract
    by (simp add: sample_backend_fields)
qed

theorem addBlock_commits_witness:
  "\<exists>b' tk. addBlock sample_app sample_benv (\<lambda>_. (7, 7)) 1000000 [7, 9] sample_backend = Some (Inr 0, b') \<and>
     chain_holds flat_view sample_enc (one_per_key ts_compare) set b' [(1000000, [7, 9])] \<and>
     ct_tasks (bk_catalog b') = [tk] \<and> task_request tk = (0, 1, 0, 0, 1, [16])"
proof -
  obtain b1 where f: "getEpochFile sample_benv (bk_currentBlockHeight sample_backend) sample_backend = (Some sample_epoch, b1)"
    using sample_epoch_file by blast
  have app: "apply_all counter_tx [7, 9] (sample_state 0) = sample_state 16"
    by (simp add: counter_tx_def sample_state_facts)
  have "sealed_writes sample_app (new_Catalog []) (bk_indexes sample_backend) 0 (sample_state 16) [0] =
      [(0, 1, 0, 0, 1, [16])]"
    by (simp add: sealed_writes_def sample_backend_fields sample_app_def sample_state_facts)
  then show ?thesis
    using addBlock_commits [OF _ sample_chain _ f sample_fits _ _ _ _ sample_override sample_state_facts(1),
        of "one_per_key toc_compare" set "\<lambda>_. (7, 7)"] sample_backend_contract sample_gate sample_verifies sample_app_laws
    unfolding sample_backend_fields sample_app_laws(3) app
    by (auto simp: sample_catalog_toc sample_state_facts new_Catalog_def sample_backend_fields)
qed

theorem seal_routes_payloads_witness:
  "\<exists>cat' tk. sealOverrideToSegments sample_app sample_env (bk_indexes sample_backend) (\<lambda>_. (7, 7)) 4 (sample_state 16)
      (new_Catalog []) = Some (Inr (), cat') \<and> ct_tasks cat' = [tk] \<and> task_request tk = (0, 1, 0, 4, 5, [16])"
proof -
  have ready: "catalog_ready sample_env (one_per_key toc_compare) set (ct_tocBTree (new_Catalog []))"
    using sample_app_laws(4) by (simp add: sample_benv_def sample_catalog_toc)
  have "sealed_writes sample_app (new_Catalog []) (bk_indexes sample_backend) 4 (sample_state 16) [0] =
      [(0, 1, 0, 4, 5, [16])]"
    by (simp add: sealed_writes_def sample_backend_fields sample_app_def sample_state_facts)
  then show ?thesis
    using seal_routes_payloads [OF sample_app_laws(2) sample_state_facts(1) [of 16] ready, of "bk_indexes sample_backend" "\<lambda>_. (7, 7)" 4]
    by (auto simp: sample_state_facts sample_backend_fields new_Catalog_def)
qed

end
