(* ===== verification/Labelled_Runs.thy ===== *)
theory Labelled_Runs
  imports Prelude
begin

text \<open>
  Runs of systems whose steps show something of what they did, and the interface between a
  concrete system and its specification.  The frontend and the calls on a catalog file use it.
\<close>

text \<open>Steps carry a list of labels (what was submitted, what took effect); a run carries them all.\<close>

inductive labelled_run :: "('s \<Rightarrow> 'l list \<Rightarrow> 's \<Rightarrow> bool) \<Rightarrow> 's \<Rightarrow> 'l list \<Rightarrow> 's \<Rightarrow> bool" for step where
  labelled_refl: "labelled_run step s [] s"
| labelled_step: "labelled_run step s ls s1 \<Longrightarrow> step s1 ks s2 \<Longrightarrow> labelled_run step s (ls @ ks) s2"

lemma labelled_run_trans:
  "labelled_run step s1 ls' s2 \<Longrightarrow> labelled_run step s ls s1 \<Longrightarrow> labelled_run step s (ls @ ls') s2"
  by (induction rule: labelled_run.induct) (auto intro: labelled_run.intros simp flip: append_assoc)

lemma labelled_run_Cons: "step s ks s1 \<Longrightarrow> labelled_run step s1 ls s2 \<Longrightarrow> labelled_run step s (ks @ ls) s2"
  using labelled_run_trans [of step s1 ls s2 s ks] labelled_step [OF labelled_refl, of step s ks s1] by simp

text \<open>
  A concrete system implements an abstract one when each concrete step from related states is
  matched by an abstract step with the same labels.
\<close>

locale labelled_simulation =
  fixes cstep :: "'s \<Rightarrow> 'l list \<Rightarrow> 's \<Rightarrow> bool"
    and astep :: "'a \<Rightarrow> 'l list \<Rightarrow> 'a \<Rightarrow> bool"
    and rel :: "'s \<Rightarrow> 'a \<Rightarrow> bool"
  assumes sim: "rel s a \<Longrightarrow> cstep s ls s' \<Longrightarrow> \<exists>a'. rel s' a' \<and> astep a ls a'"
begin

lemma run_simulated:
  assumes "labelled_run cstep s ls s'" and "rel s a"
  shows "\<exists>a'. rel s' a' \<and> labelled_run astep a ls a'"
  using assms
proof (induction rule: labelled_run.induct)
  case (labelled_refl s)
  then show ?case by (intro exI [of _ a] conjI labelled_run.labelled_refl)
next
  case (labelled_step s ls s1 ks s2)
  then obtain a1 where a1: "rel s1 a1" "labelled_run astep a ls a1" by auto
  from sim [OF a1(1) labelled_step.hyps(2)] obtain a2 where "rel s2 a2" "astep a1 ks a2" by auto
  with a1(2) show ?case by (intro exI [of _ a2] conjI labelled_run.labelled_step)
qed

text \<open>What the abstract steps preserve holds after every concrete run.\<close>

lemma run_invariant:
  assumes "labelled_run cstep s ls s'" and "rel s a" and "I a"
    and keeps: "\<And>x ks y. I x \<Longrightarrow> astep x ks y \<Longrightarrow> I y"
  shows "\<exists>a'. rel s' a' \<and> labelled_run astep a ls a' \<and> I a'"
proof -
  have "I x" if "labelled_run astep a ls x" for ls x
    using that assms(3) by (induction rule: labelled_run.induct) (auto intro: keeps)
  with run_simulated [OF assms(1,2)] show ?thesis by blast
qed

end

end
