(* ===== verification/Backend_Read.thy ===== *)
theory Backend_Read
  imports Backend_Commit Labelled_Runs
begin

text \<open>
  The read path of \<^verbatim>\<open>src/blockchain/BlockchainBackend.cpp\<close> against the abstract chain, the
  wiring of the indexes at construction, and the runs of a backend: whatever sequence of
  commits, reads and background writes happens, the blocks once committed stay readable and
  unchanged.
\<close>

lemma getBlock_answer:
  assumes "backend_contract A N (bk_txTypes b) V enc okT cont" and "chain_holds V enc okT cont b bs"
  shows "fst (getBlock N n b) = (if unat n < length bs then Inr (snd (bs ! unat n)) else Inl Range_error)"
proof (cases "unat n < length bs")
  case False
  then have "bk_currentBlockHeight b \<le> n" using chain_holdsD(1) [OF assms(2)] by (simp add: word_le_nat_alt)
  with False show ?thesis by (simp add: getBlock_def)
qed (use getBlock_chain [OF assms, of n] in auto)

text \<open>
  C15 (Backend_Read.getBlock_exact): on a backend that holds the chain \<open>bs\<close>, \<open>getBlock(n)\<close> returns the
  transactions of block \<open>n\<close> in order, throws a range error for every number past the end, and
  in both cases the backend still holds the same chain.
\<close>

theorem getBlock_exact:
  assumes "backend_contract A N (bk_txTypes b) V enc okT cont" and "chain_holds V enc okT cont b bs"
  shows "\<exists>b'. getBlock N blk b =
      (if unat blk < length bs then Inr (snd (bs ! unat blk)) else Inl Range_error, b') \<and>
    chain_holds V enc okT cont b' bs"
proof (cases "unat blk < length bs")
  case True
  with getBlock_chain [OF assms True] show ?thesis by auto
next
  case False
  then have "bk_currentBlockHeight b \<le> blk" using chain_holdsD(1) [OF assms(2)] by (simp add: word_le_nat_alt)
  with False show ?thesis using assms(2) by (simp add: getBlock_def)
qed

text \<open>A backend holds at most one chain: the abstraction is a function of the state.\<close>

lemma chain_unique:
  assumes C: "backend_contract A N (bk_txTypes b) V enc okT cont"
    and chain: "chain_holds V enc okT cont b bs" "chain_holds V enc okT cont b bs'"
  shows "bs = bs'"
proof (rule nth_equalityI)
  note inv = chain_holdsD [OF chain(1)] and inv' = chain_holdsD [OF chain(2)]
  show len: "length bs = length bs'" using inv(1) inv'(1) by simp
  fix i
  assume i: "i < length bs"
  have num: "unat (word_of_nat j :: u64) = j" if "j < length bs" for j using that inv(2) by (simp add: unat_of_nat)
  have "tracked bs i \<in> tracked bs' ` {..< length bs'}" using inv(5) inv'(5) i by auto
  then obtain j where j: "j < length bs" "tracked bs i = tracked bs' j" using len by auto
  then have "i = j" using num [OF i] num [OF j(1)] by (metis tracked_def block_timestamp_entry_t.ext_inject)
  with j(2) have "fst (bs ! i) = fst (bs' ! i)" by (simp add: tracked_def)
  moreover have "snd (bs ! i) = snd (bs' ! i)"
    using getBlock_answer [OF C chain(1), of "word_of_nat i"] getBlock_answer [OF C chain(2), of "word_of_nat i"] i len
    by (simp add: num)
  ultimately show "bs ! i = bs' ! i" by (rule prod_eqI)
qed

text \<open>
  (backend window exact): when the block timestamps ascend and none is the maximal 64-bit
  value, the time-window query returns the transactions of exactly the blocks with a timestamp
  in the window, in chain order; a window whose start is after its end is an invalid argument.
\<close>

theorem backend_window_exact:
  assumes "backend_contract A N (bk_txTypes b) V enc okT cont" and "chain_holds V enc okT cont b bs"
    and "sorted (map fst bs)" and "\<forall>x \<in> set bs. fst x \<noteq> - 1"
  shows "\<exists>b'. getTransactionsByTimeWindow N s t b = Some
      (if s \<le> t then Inr (concat (map snd (filter (\<lambda>x. s \<le> fst x \<and> fst x \<le> t) bs))) else Inl Invalid_argument, b') \<and>
    chain_holds V enc okT cont b' bs"
proof (cases "s \<le> t")
  case True
  with window_chain [OF assms True] show ?thesis by simp
next
  case False
  then show ?thesis using assms(2) by (simp add: getTransactionsByTimeWindow_def not_le)
qed

subsection \<open>Construction\<close>

lemma attach_indexes_upto:
  assumes exact: "br_exact reg" and n: "n \<le> length (br_entries reg)" "length (br_entries reg) \<le> 65536"
    and there: "\<And>i. i < length (br_entries reg) \<Longrightarrow> getIndexAt (word_of_nat i) reg = Some (ix i)"
    and reg': "reg' = fold (\<lambda>i indexes.
         let indexId = word_of_nat i
         in case getIndexAt indexId indexes of
              None \<Rightarrow> indexes
            | Some idx \<Rightarrow> updateIndexAt indexId (index_attach catalog indexId) indexes) [0 ..< n] reg"
  shows "br_exact reg' \<and> br_entries reg' = br_entries reg \<and>
    (\<forall>i < length (br_entries reg). getIndexAt (word_of_nat i) reg' =
       Some (if i < n then index_attach catalog (word_of_nat i) (ix i) else ix i))"
  unfolding reg' using n(1)
proof (induction n)
  case (Suc n)
  let ?step = "\<lambda>i indexes. let indexId = word_of_nat i
         in case getIndexAt indexId indexes of
              None \<Rightarrow> indexes
            | Some idx \<Rightarrow> updateIndexAt indexId (index_attach catalog indexId) indexes"
  let ?r = "fold ?step [0 ..< n] reg"
  have IH: "br_exact ?r" "br_entries ?r = br_entries reg" "\<And>i. i < length (br_entries reg) \<Longrightarrow>
      getIndexAt (word_of_nat i) ?r = Some (if i < n then index_attach catalog (word_of_nat i) (ix i) else ix i)"
    using Suc by auto
  have at: "getIndexAt (word_of_nat n) ?r = Some (ix n)" using IH(3) [of n] Suc.prems by simp
  have upd: "fold ?step [0 ..< Suc n] reg = updateIndexAt (word_of_nat n) (index_attach catalog (word_of_nat n)) ?r"
    using at by (simp add: Let_def)
  have neq: "(word_of_nat i :: u16) = word_of_nat n \<longleftrightarrow> i = n" if "i < length (br_entries reg)" for i
    using that Suc.prems n(2) by (simp add: unat_of_nat flip: unat_eq_unat)
  show ?case
    unfolding upd using updateIndexAt_exact [OF IH(1) at] IH(2,3) neq by auto
qed (use exact there in simp)

text \<open>
  (indexes attached): after construction every registered index, in registration order, is
  attached to the catalog of the data directory under its own position as persistent id, and
  nothing else about it has changed.
\<close>

theorem indexes_attached:
  assumes "cd_registerIndexes design new_BackendRegistry = register_indexes rs"
    and "at_most_256 (map fst rs)" and "length rs \<le> 65536" and "i < length rs"
  shows "getIndexAt (word_of_nat i) (bk_indexes (new_BlockchainBackend design config dataDir md epochs tracker cat)) =
    Some ((snd (rs ! i))\<lparr>ix_attachedCatalog := Some (dataDir @ ''/catalog''), ix_attachedIndexId := word_of_nat i\<rparr>)"
proof -
  have len: "length (br_entries (register_indexes rs)) = length rs" by (simp add: br_entries_register_indexes)
  have there: "getIndexAt (word_of_nat j) (register_indexes rs) = Some (snd (rs ! j))" if "j < length rs" for j
    using getIndexAt_register_indexes [OF assms(2), of "word_of_nat j"] that assms(3) by (simp add: unat_of_nat)
  let ?c = "dataDir @ ''/catalog''"
  let ?reg = "attachIndexesToStorage ?c (register_indexes rs)"
  have "\<forall>j < length (br_entries (register_indexes rs)). getIndexAt (word_of_nat j) ?reg = Some
      (if j < length (br_entries (register_indexes rs)) then index_attach ?c (word_of_nat j) (snd (rs ! j)) else snd (rs ! j))"
    using assms(3) there unfolding attachIndexesToStorage_def
    by (intro attach_indexes_upto [OF br_exact_register_indexes [OF assms(2)] order_refl _ _ refl, THEN conjunct2, THEN conjunct2])
      (simp_all add: len)
  then have "getIndexAt (word_of_nat i) ?reg = Some (index_attach ?c (word_of_nat i) (snd (rs ! i)))"
    using assms(4) by (simp add: len)
  then show ?thesis
    by (simp add: new_BlockchainBackend_def assms(1) index_attach_def case_prod_beta Let_def)
qed

subsection \<open>Runs\<close>

text \<open>
  The block would fit: its epoch file can be opened and, whatever blocks the file holds, has
  room behind them, and neither the block number nor the clock is at its limit.
\<close>

definition has_room ::
  "('ts, 'tt, 'b, 't, 'r, 'd, 'm) backend_env \<Rightarrow> 'm mmap_view \<Rightarrow> ('tx \<Rightarrow> byte list) \<Rightarrow> u64 \<Rightarrow> 'tx list \<Rightarrow>
   ('tx, 'k, 'f, 'm, 'ts, 'cat) BlockchainBackend \<Rightarrow> bool" where
  "has_room N V enc millis txs b \<longleftrightarrow> millis \<noteq> - 1 \<and> unat (bk_currentBlockHeight b) < 2 ^ 48 \<and>
     (\<exists>f b1. getEpochFile N (bk_currentBlockHeight b) b = (Some f, b1) \<and>
       (\<forall>bs. epoch_mem enc (vw_cap V f) (vw_mem V f) bs \<and> length bs = unat (bk_currentBlockHeight b) mod 65536 \<longrightarrow>
         block_fits enc (vw_cap V f) bs (millis, txs)))"

text \<open>
  The steps of a backend: calls of \<open>addBlock\<close> with any block at any time, reads, and the background
  writes of the catalog.  A step shows the call of \<open>addBlock\<close> it made: the clock, the block, the
  backend before and after, and the answer.
\<close>

datatype ('tx, 'be) attempt =
  Attempt (at_millis: u64) (at_block: "'tx list") (at_before: 'be) (at_answer: "int result") (at_after: 'be)

inductive backend_step ::
  "('tx, 'k, 'f, 'm, ('tt, 'b, 't, 'r, 'd) Catalog) app_ops \<Rightarrow> ('ts, 'tt, 'b, 't, 'r, 'd, 'm) backend_env \<Rightarrow>
   ('tx, 'k, 'f, 'm, 'ts, ('tt, 'b, 't, 'r, 'd) Catalog) BlockchainBackend \<Rightarrow>
   ('tx, ('tx, 'k, 'f, 'm, 'ts, ('tt, 'b, 't, 'r, 'd) Catalog) BlockchainBackend) attempt list \<Rightarrow>
   ('tx, 'k, 'f, 'm, 'ts, ('tt, 'b, 't, 'r, 'd) Catalog) BlockchainBackend \<Rightarrow> bool"
  for A N where
  step_addBlock: "addBlock A N clock millis txs b = Some (r, b') \<Longrightarrow>
    backend_step A N b [Attempt millis txs b r b'] b'"
| step_getBlock: "getBlock N n b = (r', b') \<Longrightarrow> backend_step A N b [] b'"
| step_window: "getTransactionsByTimeWindow N s t b = Some (r', b') \<Longrightarrow> backend_step A N b [] b'"
| step_background: "task_step (be_catalog N) (bk_catalog b) cat' \<Longrightarrow>
    backend_step A N b [] (b\<lparr>bk_catalog := cat'\<rparr>)"

inductive_cases backend_stepE: "backend_step A N b es b'"

text \<open>
  The condition under which a call of \<open>addBlock\<close> does what it should: the block would fit, or the
  call did not get as far as the epoch file (it was refused, or threw before the commit).
\<close>

definition roomy ::
  "('ts, 'tt, 'b, 't, 'r, 'd, 'm) backend_env \<Rightarrow> 'm mmap_view \<Rightarrow> ('tx \<Rightarrow> byte list) \<Rightarrow>
   ('tx, ('tx, 'k, 'f, 'm, 'ts, 'cat) BlockchainBackend) attempt \<Rightarrow> bool" where
  "roomy N V enc e \<longleftrightarrow> at_after e = at_before e \<or> has_room N V enc (at_millis e) (at_block e) (at_before e)"

lemma getEpochFile_holds:
  assumes C: "backend_contract A N txTypes V enc okT cont"
    and files: "files_hold (\<lambda>m. epoch_mem enc (vw_cap V m) (vw_mem V m)) (bk_epochs b) bs"
    and n: "unat blk = length bs" "length bs < 2 ^ 48"
    and f: "getEpochFile N blk b = (Some f, b')"
  shows "epoch_mem enc (vw_cap V f) (vw_mem V f) (epoch_slice (length bs div 65536) bs)"
proof -
  have e: "epoch_number blk = word_of_nat (length bs div 65536)" "length bs div 65536 < 2 ^ 32"
    using n by (simp_all add: epoch_number_eq)
  have hold: "case bk_epochs b (epoch_number blk) of None \<Rightarrow> epoch_slice (length bs div 65536) bs = []
      | Some f \<Rightarrow> epoch_mem enc (vw_cap V f) (vw_mem V f) (epoch_slice (length bs div 65536) bs)"
    using files e by (simp add: files_hold_def)
  show ?thesis
  proof (cases "bk_epochs b (epoch_number blk)")
    case None
    with getEpochFile_cases(2) [OF f] obtain h
      where h: "be_createEpoch N (epoch_number blk) = Some h" and f: "f = new_EpochFile (be_mmap N) True h" by auto
    have "mmap_contract (be_mmap N) V" "266240 \<le> vw_cap V h" using C h by (auto simp: backend_contract_def)
    then show ?thesis using hold None new_EpochFile_content(1) unfolding f by auto
  qed (use hold getEpochFile_cases(2) [OF f] in auto)
qed

lemma addBlock_with_room:
  assumes C: "backend_contract A N (bk_txTypes b) V enc okT cont"
    and chain: "chain_holds V enc okT cont b bs" and room: "has_room N V enc millis txs b"
    and add: "addBlock A N clock millis txs b = Some (r, b')"
  shows "b' = b \<and> (\<forall>k. r = Inr k \<longrightarrow> k = - 1) \<or>
    chain_holds V enc okT cont b' (bs @ [(millis, txs)]) \<and> bk_txTypes b' = bk_txTypes b \<and>
    (\<forall>k. r = Inr k \<longrightarrow> k = int (length bs))"
proof -
  note inv = chain_holdsD [OF chain]
  have small: "length bs < 2 ^ 48" using room inv(1) by (simp add: has_room_def)
  obtain f b1 where f: "getEpochFile N (bk_currentBlockHeight b) b = (Some f, b1)"
    and fits: "\<And>bs. epoch_mem enc (vw_cap V f) (vw_mem V f) bs \<Longrightarrow> length bs = unat (bk_currentBlockHeight b) mod 65536 \<Longrightarrow>
      block_fits enc (vw_cap V f) bs (millis, txs)" using room by (auto simp: has_room_def)
  have "block_fits enc (vw_cap V f) (epoch_slice (length bs div 65536) bs) (millis, txs)"
    using getEpochFile_holds [OF C inv(3,1) small f] inv(1) by (intro fits) (simp_all add: length_last_slice)
  from addBlock_outcome [OF C chain small f this add] show ?thesis by blast
qed

lemma commit_block_height:
  "commit_block A N clock millis duration txs b = Some (r, b') \<Longrightarrow> bk_currentBlockHeight b' = bk_currentBlockHeight b + 1"
  by (auto simp: commit_block_steps getEpochFile_def Let_def split: prod.splits option.splits sum.splits if_splits)

lemma commit_block_changes: "commit_block A N clock millis duration txs b \<noteq> Some (r, b)"
  using commit_block_height [of A N clock millis duration txs b r b] by auto

lemma addBlock_unchanged:
  assumes "addBlock A N clock millis txs b = Some (Inr k, b)"
  shows "k = - 1" and "0 < length txs" and "length txs \<noteq> 1024"
  using assms
  by (auto simp: addBlock_def Let_def MAX_TX_PER_BLOCK_def commit_block_changes split: if_splits sum.splits)

lemma addBlock_roomy:
  assumes "backend_contract A N (bk_txTypes b) V enc okT cont" and "chain_holds V enc okT cont b bs"
    and add: "addBlock A N clock millis txs b = Some (r, b')" and room: "roomy N V enc (Attempt millis txs b r b')"
  obtains (kept) "b' = b" "\<forall>k. r = Inr k \<longrightarrow> k = - 1 \<and> 0 < length txs \<and> length txs \<noteq> 1024"
  | (appended) "chain_holds V enc okT cont b' (bs @ [(millis, txs)])" "bk_txTypes b' = bk_txTypes b" "b' \<noteq> b"
      "\<forall>k. r = Inr k \<longrightarrow> k = int (length bs)" "millis \<noteq> - 1"
proof (cases "b' = b")
  case True
  then show thesis using kept addBlock_unchanged [of A N clock millis txs b] add by blast
next
  case False
  with room have "has_room N V enc millis txs b" by (simp add: roomy_def)
  with addBlock_with_room [OF assms(1,2) this add] False show thesis by (intro appended) (auto simp: has_room_def)
qed

lemma getBlock_keeps_chain:
  assumes "backend_contract A N (bk_txTypes b) V enc okT cont" and "chain_holds V enc okT cont b bs"
    and "getBlock N n b = (r, b')"
  shows "chain_holds V enc okT cont b' bs \<and> bk_txTypes b' = bk_txTypes b"
proof (cases "unat n < length bs")
  case True
  then show ?thesis using getBlock_chain [OF assms(1,2) True] assms(3) by auto
next
  case False
  then have "bk_currentBlockHeight b \<le> n" using chain_holdsD(1) [OF assms(2)] by (simp add: word_le_nat_alt)
  then show ?thesis using assms(2,3) by (simp add: getBlock_def)
qed

lemma window_keeps_chain:
  assumes C: "backend_contract A N (bk_txTypes b) V enc okT cont"
    and chain: "chain_holds V enc okT cont b bs" and top: "\<forall>x \<in> set bs. fst x \<noteq> - 1"
    and q: "getTransactionsByTimeWindow N s t b = Some (r, b')"
  shows "chain_holds V enc okT cont b' bs \<and> bk_txTypes b' = bk_txTypes b"
proof (cases "s > t")
  case False
  note inv = chain_holdsD [OF chain]
  have bt: "btree_contract (be_tracker N) ts_compare okT cont" using C by (simp add: backend_contract_def)
  let ?es = "{e \<in> cont (bk_timestampTracker b). in_window s t e}"
  have "\<lparr>ts_timestamp = - 1, ts_blockNumber = - 1\<rparr> \<notin> cont (bk_timestampTracker b)"
    using top by (force simp: inv(5) tracked_def)
  note w = window_query [OF bt inv(4) this, of s t]
  have fin: "finite ?es" using btree_finite [OF bt inv(4)] by simp
  have "unat n < length bs" if "n \<in> set (map ts_blockNumber (listed_by ts_key ?es))" for n
  proof -
    from that obtain i where "i < length bs" "n = word_of_nat i"
      using set_listed_by [OF fin, of ts_key] by (auto simp: inv(5) tracked_def)
    then show ?thesis using inv(2) by (simp add: unat_of_nat)
  qed
  then obtain b2 where "get_blocks N (map ts_blockNumber (listed_by ts_key ?es)) [] b =
      (Inr (concat (map (\<lambda>n. snd (bs ! unat n)) (map ts_blockNumber (listed_by ts_key ?es)))), b2)"
    "chain_holds V enc okT cont b2 bs" "bk_txTypes b2 = bk_txTypes b"
    using get_blocks_chain [OF C chain, of "map ts_blockNumber (listed_by ts_key ?es)" "[]"] by auto
  with q False w show ?thesis by (auto simp: getTransactionsByTimeWindow_def)
qed (use q chain in \<open>simp add: getTransactionsByTimeWindow_def\<close>)

text \<open>Every step keeps the blocks of the chain and may append one.\<close>

lemma backend_step_extends:
  assumes C: "backend_contract A N (bk_txTypes b) V enc okT cont"
    and chain: "chain_holds V enc okT cont b bs" and top: "\<forall>x \<in> set bs. fst x \<noteq> - 1"
    and step: "backend_step A N b es b'" and room: "\<forall>e \<in> set es. roomy N V enc e"
  shows "\<exists>ext. chain_holds V enc okT cont b' (bs @ ext) \<and> (\<forall>x \<in> set (bs @ ext). fst x \<noteq> - 1) \<and>
    bk_txTypes b' = bk_txTypes b"
  using step
proof (cases rule: backend_stepE [consumes 1, case_names add block window background])
  case (add clock millis txs r)
  have "roomy N V enc (Attempt millis txs b r b')" using room add(1) by simp
  from C chain add(2) this show ?thesis
  proof (cases rule: addBlock_roomy)
    case kept
    with chain top show ?thesis by (intro exI [of _ "[]"]) simp
  next
    case appended
    with top show ?thesis by (intro exI [of _ "[(millis, txs)]"]) simp
  qed
next
  case (block n r')
  from getBlock_keeps_chain [OF C chain block(2)] top show ?thesis by (intro exI [of _ "[]"]) simp
next
  case (window s t r')
  have "chain_holds V enc okT cont b' bs \<and> bk_txTypes b' = bk_txTypes b"
    using window_keeps_chain [OF C chain top window(2)] .
  with top show ?thesis by (intro exI [of _ "[]"]) simp
next
  case (background cat')
  with chain top show ?thesis by (intro exI [of _ "[]"]) (simp add: chain_holds_def)
qed

text \<open>
  The interface the clients of a backend rely on: an append-only store of blocks.  A step in which
  every commit had room keeps the blocks there are, and a read returns the block or a range error.
\<close>

locale chain_store =
  fixes holds :: "'s \<Rightarrow> 'tx block list \<Rightarrow> bool"
    and step :: "'s \<Rightarrow> 'e list \<Rightarrow> 's \<Rightarrow> bool"
    and room :: "'e \<Rightarrow> bool"
    and get :: "u64 \<Rightarrow> 's \<Rightarrow> 'tx list result \<times> 's"
  assumes step_extends: "holds s bs \<Longrightarrow> step s es s' \<Longrightarrow> \<forall>e \<in> set es. room e \<Longrightarrow> \<exists>ext. holds s' (bs @ ext)"
    and get_exact: "holds s bs \<Longrightarrow>
      \<exists>s'. get n s = (if unat n < length bs then Inr (snd (bs ! unat n)) else Inl Range_error, s') \<and> holds s' bs"
begin

lemma run_extends:
  assumes "labelled_run step s es s'" and "holds s bs" and "\<forall>e \<in> set es. room e"
  shows "\<exists>ext. holds s' (bs @ ext)"
  using assms
proof (induction rule: labelled_run.induct)
  case (labelled_refl s)
  then show ?case by (intro exI [of _ "[]"]) simp
next
  case (labelled_step s es s1 ks s2)
  then obtain ext where "holds s1 (bs @ ext)" by auto
  from step_extends [OF this labelled_step.hyps(2)] labelled_step.prems(2) show ?case by auto
qed

lemma get_after_run:
  assumes "labelled_run step s es s'" and "holds s bs" and "\<forall>e \<in> set es. room e" and "unat n < length bs"
  shows "fst (get n s') = Inr (snd (bs ! unat n))"
proof -
  obtain ext where "holds s' (bs @ ext)" using run_extends [OF assms(1-3)] by blast
  from get_exact [OF this, of n] assms(4) show ?thesis by (auto simp: nth_append)
qed

lemma get_fst:
  "holds s bs \<Longrightarrow> fst (get n s) = (if unat n < length bs then Inr (snd (bs ! unat n)) else Inl Range_error)"
  using get_exact [of s bs n] by auto

end

definition committed_chain ::
  "('tx, 'k, 'f, 'm, ('tt, 'b, 't, 'r, 'd) Catalog) app_ops \<Rightarrow> ('ts, 'tt, 'b, 't, 'r, 'd, 'm) backend_env \<Rightarrow>
   'm mmap_view \<Rightarrow> ('tx \<Rightarrow> byte list) \<Rightarrow> ('ts \<Rightarrow> bool) \<Rightarrow> ('ts \<Rightarrow> block_timestamp_entry_t set) \<Rightarrow>
   ('tx, 'k, 'f, 'm, 'ts, ('tt, 'b, 't, 'r, 'd) Catalog) BlockchainBackend \<Rightarrow> 'tx block list \<Rightarrow> bool" where
  "committed_chain A N V enc okT cont b bs \<longleftrightarrow>
     backend_contract A N (bk_txTypes b) V enc okT cont \<and> chain_holds V enc okT cont b bs \<and> (\<forall>x \<in> set bs. fst x \<noteq> - 1)"

interpretation backend: chain_store "committed_chain A N V enc okT cont" "backend_step A N" "roomy N V enc" "getBlock N"
  for A N V enc okT cont
proof unfold_locales
  fix b bs es b'
  assume *: "committed_chain A N V enc okT cont b bs" "backend_step A N b es b'" "\<forall>e \<in> set es. roomy N V enc e"
  note C = *(1) [unfolded committed_chain_def]
  from backend_step_extends [OF _ _ _ *(2,3), of okT cont bs] C obtain ext where
    "chain_holds V enc okT cont b' (bs @ ext)" "\<forall>x \<in> set (bs @ ext). fst x \<noteq> - 1" "bk_txTypes b' = bk_txTypes b" by blast
  then show "\<exists>ext. committed_chain A N V enc okT cont b' (bs @ ext)"
    using C by (intro exI [of _ ext]) (simp add: committed_chain_def)
next
  fix b bs n
  assume "committed_chain A N V enc okT cont b bs"
  then have C: "backend_contract A N (bk_txTypes b) V enc okT cont" "chain_holds V enc okT cont b bs" "\<forall>x \<in> set bs. fst x \<noteq> - 1"
    by (auto simp: committed_chain_def)
  note getBlock_answer [OF C(1,2), of n]
  then show "\<exists>b'. getBlock N n b = (if unat n < length bs then Inr (snd (bs ! unat n)) else Inl Range_error, b') \<and>
      committed_chain A N V enc okT cont b' bs"
    using getBlock_keeps_chain [OF C(1,2), of n "fst (getBlock N n b)" "snd (getBlock N n b)"] C
    by (intro exI [of _ "snd (getBlock N n b)"]) (simp add: prod_eq_iff committed_chain_def)
qed

text \<open>
  C5 (Backend_Read.committed_blocks_immutable): from a backend that holds the chain \<open>bs\<close>, after any
  sequence of calls of \<open>addBlock\<close>, reads, window queries and background catalog writes, the backend
  holds a chain that starts with \<open>bs\<close>, and every block of \<open>bs\<close> reads back as the same transactions.
  The calls of \<open>addBlock\<close> may be accepted, refused or fail; the condition is that each of them that
  went on to the commit had room: the epoch file could be opened, the block fits into its mapping
  behind the blocks it holds, the height is below 2^48 and the clock not at its maximal value.
\<close>

theorem committed_blocks_immutable:
  assumes "backend_contract A N (bk_txTypes b) V enc okT cont" and "chain_holds V enc okT cont b bs"
    and "\<forall>x \<in> set bs. fst x \<noteq> - 1" and "labelled_run (backend_step A N) b es b'" and "\<forall>e \<in> set es. roomy N V enc e"
  shows "(\<exists>ext. chain_holds V enc okT cont b' (bs @ ext)) \<and>
    (\<forall>n. unat n < length bs \<longrightarrow> fst (getBlock N n b') = Inr (snd (bs ! unat n)))"
proof -
  have start: "committed_chain A N V enc okT cont b bs" using assms(1-3) by (simp add: committed_chain_def)
  from backend.run_extends [OF assms(4) start assms(5)] backend.get_after_run [OF assms(4) start assms(5)]
  show ?thesis by (auto simp: committed_chain_def)
qed

subsection \<open>Witnesses\<close>

definition sample_committed ::
  "(byte, string, nat, flat_file, block_timestamp_entry_t list, sample_catalog) BlockchainBackend" where
  "sample_committed = snd (the (addBlock sample_app sample_benv (\<lambda>_. (7, 7)) 1000000 [7, 9] sample_backend))"

lemma sample_committed_chain:
  "addBlock sample_app sample_benv (\<lambda>_. (7, 7)) 1000000 [7, 9] sample_backend = Some (Inr 0, sample_committed)"
  "chain_holds flat_view sample_enc (one_per_key ts_compare) set sample_committed [(1000000, [7, 9])]"
  "bk_txTypes sample_committed = byte_types" "bk_lastBlockTimestamp sample_committed = 1000000"
proof -
  show run: "addBlock sample_app sample_benv (\<lambda>_. (7, 7)) 1000000 [7, 9] sample_backend = Some (Inr 0, sample_committed)"
    unfolding sample_committed_def using sample_commit [of "\<lambda>_. (7, 7)"] by auto
  obtain b1 where f: "getEpochFile sample_benv (bk_currentBlockHeight sample_backend) sample_backend = (Some sample_epoch, b1)"
    using sample_epoch_file by blast
  from addBlock_outcome [OF _ sample_chain _ f sample_fits run] sample_backend_contract
  show "chain_holds flat_view sample_enc (one_per_key ts_compare) set sample_committed [(1000000, [7, 9])]"
    and "bk_txTypes sample_committed = byte_types" and "bk_lastBlockTimestamp sample_committed = 1000000"
    by (auto simp: sample_backend_fields)
qed

lemma sample_room: "has_room sample_benv flat_view sample_enc 1000000 [7, 9] sample_backend"
proof -
  obtain b1 where f: "getEpochFile sample_benv (bk_currentBlockHeight sample_backend) sample_backend = (Some sample_epoch, b1)"
    using sample_epoch_file by blast
  then show ?thesis using sample_fits by (simp add: has_room_def sample_backend_fields epoch_slice_def)
qed

lemma sample_committed_contract:
  "backend_contract sample_app sample_benv (bk_txTypes sample_committed) flat_view sample_enc (one_per_key ts_compare) set"
  using sample_backend_contract by (simp add: sample_committed_chain(3))

theorem getBlock_exact_witness:
  "fst (getBlock sample_benv 0 sample_committed) = Inr [7, 9] \<and> fst (getBlock sample_benv 1 sample_committed) = Inl Range_error"
  using getBlock_exact [OF sample_committed_contract sample_committed_chain(2), of 0]
    getBlock_exact [OF sample_committed_contract sample_committed_chain(2), of 1] by auto

theorem backend_window_exact_witness:
  "\<exists>b'. getTransactionsByTimeWindow sample_benv 5 2000000 sample_committed = Some (Inr [7, 9], b')"
  using backend_window_exact [OF sample_committed_contract sample_committed_chain(2), of 5 2000000] by auto

theorem indexes_attached_witness:
  "getIndexAt (word_of_nat 0) (bk_indexes (new_BlockchainBackend sample_design default_config ''d'' None Map.empty ()
      (new_Catalog [] :: sample_catalog))) =
   Some \<lparr>ix_attachedCatalog = Some ''d/catalog'', ix_attachedIndexId = 0, ix_encodingVersion = 1\<rparr>"
  using indexes_attached [of sample_design
      "[(''I'', \<lparr>ix_attachedCatalog = None, ix_attachedIndexId = 0, ix_encodingVersion = 1\<rparr>)]" 0
      default_config "''d''" None Map.empty "()" "new_Catalog [] :: sample_catalog"]
  by (simp add: sample_design_def register_indexes_def at_most_256_def)

theorem committed_blocks_immutable_witness:
  "\<exists>es. labelled_run (backend_step sample_app sample_benv) sample_committed es sample_committed \<and> length es = 1 \<and>
     fst (getBlock sample_benv 0 sample_committed) = Inr [7, 9]"
proof -
  let ?e = "Attempt 1000005 [7] sample_committed (Inr (- 1)) sample_committed"
  have "unat (bk_currentBlockHeight sample_committed) < 2 ^ 63"
    using chain_holdsD(1) [OF sample_committed_chain(2)] by simp
  then have "addBlock sample_app sample_benv (\<lambda>_. (7, 7)) 1000005 [7] sample_committed = Some (Inr (- 1), sample_committed)"
    using addBlock_gate_result [of "[7]" sample_committed sample_app sample_benv "\<lambda>_. (7, 7)" 1000005 sample_committed]
    by (simp add: sample_committed_chain(4) too_early_def)
  then have "backend_step sample_app sample_benv sample_committed [?e] sample_committed" by (rule step_addBlock)
  from labelled_run_Cons [of "backend_step sample_app sample_benv", OF this labelled_refl]
  have run: "labelled_run (backend_step sample_app sample_benv) sample_committed [?e] sample_committed" by simp
  from committed_blocks_immutable [OF sample_committed_contract sample_committed_chain(2) _ run] run
  show ?thesis by (auto simp: roomy_def intro!: exI [of _ "[?e]"])
qed

end
