(* ===== verification/EpochFaults.thy ===== *)
theory EpochFaults
  imports EpochFile
begin

text \<open>
  The limits of \<^verbatim>\<open>src/storage/EpochFile.cpp\<close>: how many blocks a mapping has room for, what
  \<open>appendBlock\<close> does with a block number whose predecessor was never appended, and what happens
  when another thread reads a block while one is being appended.
\<close>

subsection \<open>How many blocks fit\<close>

lemma end_of_pages: "266240 + 4096 * length bs \<le> end_of enc bs"
proof (induction bs rule: rev_induct)
  case (snoc b bs)
  have aligned: "page_up (266240 + 4096 * n + k) \<ge> 266240 + 4096 * Suc n" if "0 < k" for n k :: nat
  proof -
    have "266240 + 4096 * Suc n = (266240 + 4096 * Suc n) div 4096 * 4096" by simp
    also have "\<dots> \<le> (266240 + 4096 * n + k + 4095) div 4096 * 4096"
      using that by (intro mult_le_mono1 div_le_mono) simp
    finally show ?thesis by (simp add: page_up_def)
  qed
  have "266240 + 4096 * Suc (length bs) \<le> page_up (266240 + 4096 * length bs + length (block_bytes enc b))"
    by (rule aligned) (simp add: block_bytes_def)
  also have "\<dots> \<le> page_up (end_of enc bs + length (block_bytes enc b))"
    unfolding page_up_def using snoc.IH by (intro mult_le_mono1 div_le_mono) simp
  finally show ?case by simp
qed simp

lemma end_of_aligned: "end_of enc bs mod 4096 = 0"
proof (induction bs rule: rev_induct)
  case (snoc b bs)
  then show ?case by (simp add: page_up_def)
qed simp

text \<open>
  The bytes the constructor maps: \<open>file.seek(1024 * 1024, SEEK_END)\<close>, a mebibyte more than the file has.
\<close>

definition epoch_mapping_size :: "nat \<Rightarrow> nat" where
  "epoch_mapping_size fileSize = fileSize + 1024 * 1024"

text \<open>The blocks of an epoch appended in order, with their block numbers.\<close>

definition append_all :: "'m mmap_ops \<Rightarrow> ('tx, 's, 'm) tx_ops \<Rightarrow> 'tx block list \<Rightarrow> 'm \<Rightarrow> 'm" where
  "append_all M T bs m = foldl (\<lambda>m (i, b). appendBlock M T (word_of_nat i) (fst b) (snd b) m) m (enumerate 0 bs)"

lemma append_all_snoc:
  "append_all M T (bs @ [b]) m = appendBlock M T (word_of_nat (length bs)) (fst b) (snd b) (append_all M T bs m)"
  by (simp add: append_all_def enumerate_append_eq)

lemma append_all_holds:
  assumes M: "mmap_contract M V" and T: "tx_codec T (factories txTypes) V enc" and cap: "266240 \<le> vw_cap V h"
    and "\<forall>i < length bs. block_fits enc (vw_cap V h) (take i bs) (bs ! i)"
  shows "epoch_holds M V T txTypes enc (append_all M T bs (new_EpochFile M True h)) bs \<and>
    vw_cap V (append_all M T bs (new_EpochFile M True h)) = vw_cap V h"
  using assms(4)
proof (induction bs rule: rev_induct)
  case Nil
  show ?case using new_EpochFile_content [OF M cap] M T by (simp add: append_all_def epoch_holds_def)
next
  case (snoc b bs)
  have "\<forall>i < length bs. block_fits enc (vw_cap V h) (take i bs) (bs ! i)"
  proof (intro allI impI)
    fix i
    assume "i < length bs"
    then show "block_fits enc (vw_cap V h) (take i bs) (bs ! i)"
      using snoc.prems [rule_format, of i] by (simp add: nth_append)
  qed
  note IH = snoc.IH [OF this]
  have fits: "block_fits enc (vw_cap V (append_all M T bs (new_EpochFile M True h))) bs (fst b, snd b)"
    using snoc.prems [rule_format, of "length bs"] IH by simp
  then have "unat (word_of_nat (length bs) :: u64) mod 65536 = length bs"
    by (simp add: block_fits_def unat_of_nat)
  moreover have "epoch_mem enc (vw_cap V (append_all M T bs (new_EpochFile M True h)))
      (vw_mem V (append_all M T bs (new_EpochFile M True h))) bs" using conjunct1 [OF IH] unfolding epoch_holds_def by blast
  ultimately show ?case
    using epoch.append_holds [OF conjunct1 [OF IH] fits, of "word_of_nat (length bs)"] IH
      appendBlock_memory(2) [OF M T _ fits, of "word_of_nat (length bs)"] by (simp add: append_all_snoc)
qed

lemma next_offset:
  assumes "epoch_holds M V T txTypes enc m bs" and "length bs < 65536"
  shows "unat (getBlockOffset M m (word_of_nat (length bs))) = end_of enc bs"
proof -
  have M: "mmap_contract M V" and inv: "epoch_mem enc (vw_cap V m) (vw_mem V m) bs"
    using assms(1) by (auto simp: epoch_holds_def)
  have n: "unat (word_of_nat (length bs) :: u64) mod 65536 = length bs" using assms(2) by (simp add: unat_of_nat)
  then show ?thesis
    using unat_peek_u32 [OF M, of "blockOffset_addr (word_of_nat (length bs) mod BLOCKS_PER_EPOCH)" m] inv assms(2)
    by (simp add: getBlockOffset_def unat_blockOffset_addr epoch_mem_def)
qed

text \<open>
  C33 (EpochFaults.epoch_capacity): when blocks are appended in order to a new epoch file, which is mapped with 1 MiB, each
  while it has room, the place recorded for the next block is page-aligned and at least a page further
  for every block, behind the header of 65 pages.  So at most 191 blocks fit, not the 65536 blocks an
  epoch is meant to have, and the place recorded for block 191 is the end of the mapping or beyond.
\<close>

theorem epoch_capacity:
  fixes txTypes :: "('m, 'tx) TransactionTypeRegistry"
  assumes "mmap_contract M V" and "tx_codec T (factories txTypes) V enc" and "vw_cap V h = epoch_mapping_size 0"
    and "\<forall>i < length bs. block_fits enc (vw_cap V h) (take i bs) (bs ! i)"
    and "nextOffset = unat (getBlockOffset M (append_all M T bs (new_EpochFile M True h)) (word_of_nat (length bs)))"
  shows "length bs \<le> 191 \<and> nextOffset mod 4096 = 0 \<and> 266240 + 4096 * length bs \<le> nextOffset \<and>
    (length bs = 191 \<longrightarrow> vw_cap V h \<le> nextOffset)"
proof -
  have cap: "vw_cap V h = 1048576" using assms(3) by (simp add: epoch_mapping_size_def)
  have len: "length bs \<le> 191"
  proof (cases "bs = []")
    case False
    let ?n = "length bs - 1"
    have n: "?n < length bs" using False by (cases bs) auto
    have "64 \<le> length (block_bytes enc (bs ! ?n))" by (simp add: block_bytes_def)
    moreover have "end_of enc (take ?n bs) + length (block_bytes enc (bs ! ?n)) \<le> 1048576"
      using assms(4) n cap by (simp add: block_fits_def)
    moreover have "266240 + 4096 * ?n \<le> end_of enc (take ?n bs)" using end_of_pages [of "take ?n bs" enc] n by simp
    ultimately show ?thesis by linarith
  qed simp
  have "nextOffset = end_of enc bs"
    using append_all_holds [OF assms(1,2), of h bs] next_offset [of M V T txTypes enc _ bs] assms(4) cap len
    by (simp add: assms(5))
  with len cap end_of_aligned [of enc bs] end_of_pages [of bs enc] show ?thesis by simp
qed

subsection \<open>The two parts of an append\<close>

lemma poke_u32_memory:
  assumes "mmap_contract M V" and "unat a + 4 \<le> vw_cap V m"
  shows "vw_mem V (poke_u32 M a w m) = mem_store (vw_mem V m) (unat a) (le_bytes 4 (unat w))"
    and "vw_cap V (poke_u32 M a w m) = vw_cap V m" and "vw_pos V (poke_u32 M a w m) = vw_pos V m"
  using mmap_poke [OF assms(1), of a "le_bytes 4 (unat w)" m] assms(2) by (simp_all add: poke_u32_def)

lemma append_header_memory:
  assumes M: "mmap_contract M V" and cap: "266240 \<le> vw_cap V m"
    and off: "unat (getBlockOffset M m blk) = off" "off \<noteq> 0" "off + 64 \<le> vw_cap V m"
  shows "vw_mem V (append_header M blk millis txs m) =
      mem_store (vw_mem V m) off (block_header_t millis (word_of_nat (length txs)))"
    and "vw_pos V (append_header M blk millis txs m) = off + 64"
    and "vw_cap V (append_header M blk millis txs m) = vw_cap V m"
proof -
  let ?st = "getBlockOffset M m blk" and ?hdr = "block_header_t millis (word_of_nat (length txs))"
  have eq: "append_header M blk millis txs m = mm_seek M (ucast ?st + sizeof_block_header) (mm_poke M (ucast ?st) ?hdr m)"
    using off by (auto simp: append_header_def Let_def ucast_ucast_blk getBlockOffset_def)
  show "vw_mem V (append_header M blk millis txs m) = mem_store (vw_mem V m) off ?hdr"
    and "vw_pos V (append_header M blk millis txs m) = off + 64"
    and "vw_cap V (append_header M blk millis txs m) = vw_cap V m"
    using mmap_poke [OF M, of "ucast ?st" ?hdr m] off unat_u32_bound [of ?st]
    by (simp_all add: eq mmap_seek [OF M] sizeof_block_header_def unat_word_ariths)
qed

lemma append_body_memory:
  assumes M: "mmap_contract M V" and T: "tx_codec T reg V enc"
    and room: "vw_pos V m + length (enc_all enc txs) \<le> vw_cap V m" and cap: "266240 \<le> vw_cap V m"
    and small: "page_up (vw_pos V m + length (enc_all enc txs)) < 2 ^ 32"
    and next_blk: "Suc (unat blk mod 65536) < 65536"
  shows "vw_mem V (append_body M T blk txs m) =
      mem_store (mem_store (vw_mem V m) (vw_pos V m) (enc_all enc txs)) (20 + 4 * (unat blk mod 65536))
        (le_bytes 4 (page_up (vw_pos V m + length (enc_all enc txs))))"
    and "vw_cap V (append_body M T blk txs m) = vw_cap V m"
proof -
  let ?m = "write_all T txs m" and ?next = "blockOffset_addr ((blk + 1) mod BLOCKS_PER_EPOCH)"
  note w = write_all_codec [OF T room]
  have nx: "unat ?next = 20 + 4 * (unat blk mod 65536)"
    using next_blk by (simp add: unat_blockOffset_addr_succ mod_Suc)
  have "unat ((blk + 1) mod BLOCKS_PER_EPOCH) \<noteq> 0" using next_blk by (simp add: unat_blk_succ_mod mod_Suc)
  then have "(blk + 1) mod BLOCKS_PER_EPOCH \<noteq> 0" by (metis unsigned_0)
  then have eq: "append_body M T blk txs m = poke_u32 M ?next (ucast (block_align (mm_tell M ?m))) ?m"
    by (simp add: append_body_def Let_def)
  have "vw_pos V m + length (enc_all enc txs) < 2 ^ 32"
    using small page_up_ge [of "vw_pos V m + length (enc_all enc txs)"] by simp
  then have "unat (ucast (block_align (mm_tell M ?m)) :: u32) = page_up (vw_pos V m + length (enc_all enc txs))"
    using mmap_tell [OF M, of ?m] w small by (simp add: unat_ucast_u64_u32 unat_block_align)
  then show "vw_mem V (append_body M T blk txs m) =
      mem_store (mem_store (vw_mem V m) (vw_pos V m) (enc_all enc txs)) (20 + 4 * (unat blk mod 65536))
        (le_bytes 4 (page_up (vw_pos V m + length (enc_all enc txs))))"
    and "vw_cap V (append_body M T blk txs m) = vw_cap V m"
    using poke_u32_memory [OF M, of ?next ?m] w cap nx next_blk by (simp_all add: eq)
qed

subsection \<open>A block number without a predecessor\<close>

text \<open>
  The entries of the offset table behind the next block are zero in a file that was created
  zero-filled and has only been appended to in order.
\<close>

definition table_clear :: "memory \<Rightarrow> nat \<Rightarrow> bool" where
  "table_clear mem n \<longleftrightarrow> (\<forall>j. n < j \<and> j < 65536 \<longrightarrow> mem_load mem (16 + 4 * j) 4 = replicate 4 0)"

lemma table_clear_appended:
  assumes "table_clear mem (length bs)" and "length bs < 65536"
  shows "table_clear (appended enc mem bs b) (Suc (length bs))"
proof -
  have "mem_load (appended enc mem bs b) (16 + 4 * j) 4 = mem_load mem (16 + 4 * j) 4"
    if "Suc (length bs) < j" "j < 65536" for j
    using that end_of_ge [of enc bs] by (simp add: appended_def Let_def mem_load_store_disjoint)
  with assms show ?thesis by (auto simp: table_clear_def)
qed

lemma table_clear_slot:
  assumes M: "mmap_contract M V" and "table_clear (vw_mem V m) n" and "266240 \<le> vw_cap V m"
    and "n < unat blk mod 65536"
  shows "getBlockOffset M m blk = 0"
proof -
  have "unat blk mod 65536 < 65536" by simp
  then have "unat (getBlockOffset M m blk) = le_nat (replicate 4 0)"
    using unat_peek_u32 [OF M, of "blockOffset_addr (blk mod BLOCKS_PER_EPOCH)" m] assms(2-4)
    by (simp add: getBlockOffset_def unat_blockOffset_addr table_clear_def)
  then show ?thesis by (simp add: numeral_eq_Suc flip: unat_eq_0)
qed

lemma append_without_slot:
  assumes M: "mmap_contract M V" and T: "tx_codec T reg V enc" and slot: "getBlockOffset M m blk = 0"
    and room: "266240 + length (block_bytes enc (millis, txs)) \<le> vw_cap V m"
    and small: "end_of enc [(millis, txs)] < 2 ^ 32" and blk: "0 < unat blk mod 65536" "Suc (unat blk mod 65536) < 65536"
  shows "mem_load (vw_mem V (appendBlock M T blk millis txs m)) 266240 (length (block_bytes enc (millis, txs))) =
      block_bytes enc (millis, txs)"
    and "mem_load (vw_mem V (appendBlock M T blk millis txs m)) 16 4 = mem_load (vw_mem V m) 16 4"
    and "vw_cap V (appendBlock M T blk millis txs m) = vw_cap V m"
proof -
  let ?i = "unat blk mod 65536" and ?hdr = "block_header_t millis (word_of_nat (length txs))" and ?e = "enc_all enc txs"
  let ?a = "blockOffset_addr (blk mod BLOCKS_PER_EPOCH)"
  let ?m1 = "poke_u32 M ?a 266240 m" and ?m2 = "append_header M blk millis txs m"
  have bytes: "block_bytes enc (millis, txs) = ?hdr @ ?e" by (simp add: block_bytes_def)
  have m1: "vw_mem V ?m1 = mem_store (vw_mem V m) (16 + 4 * ?i) (le_bytes 4 266240)" "vw_cap V ?m1 = vw_cap V m"
    using poke_u32_memory [OF M, of ?a m 266240] room blk by (simp_all add: unat_blockOffset_addr)
  have eq: "?m2 = mm_seek M (266240 + 64) (mm_poke M 266240 ?hdr ?m1)"
    using slot by (simp add: append_header_def Let_def ucast_ucast_blk getBlockOffset_def sizeof_block_header_def)
  have m2: "vw_mem V ?m2 = mem_store (vw_mem V ?m1) 266240 ?hdr" "vw_pos V ?m2 = 266304" "vw_cap V ?m2 = vw_cap V m"
    using mmap_poke [OF M, of 266240 ?hdr ?m1] room by (simp_all add: eq mmap_seek [OF M] m1 bytes)
  have small': "page_up (266304 + length ?e) < 2 ^ 32"
    using small end_of_snoc [of enc "[]" "(millis, txs)"] by (simp add: bytes add.assoc)
  have mem: "vw_mem V (appendBlock M T blk millis txs m) =
      mem_store (mem_store (vw_mem V ?m1) 266240 (?hdr @ ?e)) (20 + 4 * ?i) (le_bytes 4 (page_up (266304 + length ?e)))"
    and cap: "vw_cap V (appendBlock M T blk millis txs m) = vw_cap V m"
    using append_body_memory [OF M T, of ?m2 txs blk] room small' blk(2) mem_store_append [of "vw_mem V ?m1" 266240 ?hdr ?e]
    by (simp_all add: appendBlock_def m2 bytes)
  show "mem_load (vw_mem V (appendBlock M T blk millis txs m)) 266240 (length (block_bytes enc (millis, txs))) =
      block_bytes enc (millis, txs)"
    using blk by (simp add: mem bytes mem_load_store_disjoint mem_load_store_same del: length_append)
  show "mem_load (vw_mem V (appendBlock M T blk millis txs m)) 16 4 = mem_load (vw_mem V m) 16 4"
    using blk by (simp add: mem m1 mem_load_store_disjoint)
  show "vw_cap V (appendBlock M T blk millis txs m) = vw_cap V m" by (rule cap)
qed

lemma skipped_number_overwrites:
  assumes M: "mmap_contract M V" and T: "tx_codec T (factories txTypes) V enc"
    and inv: "epoch_mem enc (vw_cap V m) (vw_mem V m) bs" "bs \<noteq> []" and slot: "getBlockOffset M m blk = 0"
    and room: "266240 + length (block_bytes enc (millis, txs)) \<le> vw_cap V m" "length txs < 65536"
    and small: "end_of enc [(millis, txs)] < 2 ^ 32" and blk: "Suc (unat blk mod 65536) < 65536" "unat blk0 mod 65536 = 0"
  shows "\<exists>m'. readBlock M txTypes blk0 (appendBlock M T blk millis txs m) = Inr (txs, m')"
proof -
  let ?m = "appendBlock M T blk millis txs m"
  have 0: "0 < unat blk mod 65536"
  proof (rule ccontr)
    assume "\<not> 0 < unat blk mod 65536"
    then show False using slot_of_content [OF M inv(1), of blk] inv(2) slot by simp
  qed
  note A = append_without_slot [OF M T slot room(1) small 0 blk(1)]
  have "le_nat (mem_load (vw_mem V m) 16 4) = 266240" using inv by (auto simp: epoch_mem_def)
  then have "unat (getBlockOffset M ?m blk0) = 266240"
    using unat_peek_u32 [OF M, of "blockOffset_addr (blk0 mod BLOCKS_PER_EPOCH)" ?m] A room
    by (simp add: getBlockOffset_def unat_blockOffset_addr blk(2))
  from readBlock_at [OF M T this, of "(millis, txs)"] A room show ?thesis by auto
qed

text \<open>
  (skipped block overwrites first): appending a block under a number whose entry in the
  offset table is still zero (because the block before it was never appended) stores it at the
  place of the first block of the file: reading the first block then returns the new
  block's transactions.
\<close>

theorem skipped_block_overwrites_first:
  assumes "epoch_holds M V T txTypes enc m bs" and "bs \<noteq> []" and "getBlockOffset M m blk = 0"
    and "266240 + length (block_bytes enc (millis, txs)) \<le> vw_cap V m" and "length txs < 65536"
    and "end_of enc [(millis, txs)] < 2 ^ 32" and "Suc (unat blk mod 65536) < 65536" and "unat blk0 mod 65536 = 0"
  shows "\<exists>m'. readBlock M txTypes blk0 (appendBlock M T blk millis txs m) = Inr (txs, m')"
  using assms skipped_number_overwrites [of M V T txTypes enc m bs blk millis txs blk0]
  by (simp add: epoch_holds_def)

subsection \<open>A read between the two parts of an append\<close>

lemma read_between:
  assumes M: "mmap_contract M V" and T: "tx_codec T (factories txTypes) V enc"
    and inv: "epoch_mem enc (vw_cap V m) (vw_mem V m) bs" and fits: "block_fits enc (vw_cap V m) bs (millis, txs)"
    and blk: "unat blk mod 65536 = length bs" and i: "unat blk' mod 65536 < length bs"
  shows "\<exists>m2. readBlock M txTypes blk' (append_header M blk millis txs m) = Inr (snd (bs ! (unat blk' mod 65536)), m2) \<and>
    vw_mem V m2 = mem_store (vw_mem V m) (end_of enc bs) (block_header_t millis (word_of_nat (length txs))) \<and>
    vw_cap V m2 = vw_cap V m \<and>
    vw_pos V m2 = end_of enc (take (unat blk' mod 65536) bs) + length (block_bytes enc (bs ! (unat blk' mod 65536)))"
proof -
  let ?i = "unat blk' mod 65536" and ?m1 = "append_header M blk millis txs m"
  let ?b = "bs ! ?i" and ?off = "end_of enc (take ?i bs)"
  have len: "length bs < 65536" and cap: "266240 \<le> vw_cap V m" and room: "end_of enc bs + 64 \<le> vw_cap V m"
    using inv fits by (auto simp: epoch_mem_def block_fits_def block_bytes_def)
  have st: "unat (getBlockOffset M m blk) = end_of enc bs"
    using unat_peek_u32 [OF M, of "blockOffset_addr (blk mod BLOCKS_PER_EPOCH)" m] inv len cap
    by (simp add: getBlockOffset_def unat_blockOffset_addr epoch_mem_def blk)
  have nz: "end_of enc xs \<noteq> 0" for xs using end_of_ge [of enc xs] by simp
  note m1 = append_header_memory [OF M cap st nz room, of millis txs]
  have b: "mem_load (vw_mem V m) ?off (length (block_bytes enc ?b)) = block_bytes enc ?b" "length (snd ?b) < 65536"
    "?off + length (block_bytes enc ?b) \<le> vw_cap V m" using inv i by (auto simp: epoch_mem_def)
  have "unat (getBlockOffset M ?m1 blk') = le_nat (mem_load (vw_mem V ?m1) (16 + 4 * ?i) 4)"
    using unat_peek_u32 [OF M, of "blockOffset_addr (blk' mod BLOCKS_PER_EPOCH)" ?m1] cap m1(3) len i
    by (simp add: getBlockOffset_def unat_blockOffset_addr)
  also have "\<dots> = ?off"
    using inv i len end_of_ge [of enc bs] by (simp add: m1(1) mem_load_store_disjoint epoch_mem_def)
  finally have slot: "unat (getBlockOffset M ?m1 blk') = ?off" .
  have "mem_load (vw_mem V ?m1) ?off (length (block_bytes enc ?b)) = block_bytes enc ?b"
    using b(1) end_of_take_mono [OF i, of enc] by (simp add: m1(1) mem_load_store_disjoint)
  from readBlock_at [OF M T slot nz this b(2)] b(3) m1 show ?thesis by auto
qed

text \<open>
  C29 (EpochFaults.read_during_append): when another thread reads block \<open>i\<close> of the file after the header of
  the new block has been written and before its transactions are, the reader gets its block,
  but it leaves the shared cursor behind it: if the transactions of the new block fit between the end
  of block \<open>i\<close> and the start of the new block, they are written behind block \<open>i\<close>, none of them is in the
  new block, whose bytes stay as they were, and the place recorded for the block after it
  is the page behind what was written.
\<close>

theorem read_during_append:
  assumes "epoch_holds M V T txTypes enc m bs" and "block_fits enc (vw_cap V m) bs (millis, txs)"
    and "unat blk mod 65536 = length bs" and "Suc (length bs) < 65536"
    and "unat blk' mod 65536 = i" and "i < length bs"
    and "pos = end_of enc (take i bs) + length (block_bytes enc (bs ! i))"
    and "pos + length (enc_all enc txs) \<le> end_of enc bs"
  shows "\<exists>m2 m3. readBlock M txTypes blk' (append_header M blk millis txs m) = Inr (snd (bs ! i), m2) \<and>
    append_body M T blk txs m2 = m3 \<and>
    mem_load (vw_mem V m3) pos (length (enc_all enc txs)) = enc_all enc txs \<and>
    mem_load (vw_mem V m3) (end_of enc bs + 64) (length (enc_all enc txs)) =
      mem_load (vw_mem V m) (end_of enc bs + 64) (length (enc_all enc txs)) \<and>
    unat (getBlockOffset M m3 (blk + 1)) = page_up (pos + length (enc_all enc txs))"
proof -
  have M: "mmap_contract M V" and T: "tx_codec T (factories txTypes) V enc"
    and inv: "epoch_mem enc (vw_cap V m) (vw_mem V m) bs" using assms(1) by (auto simp: epoch_holds_def)
  let ?e = "enc_all enc txs" and ?hdr = "block_header_t millis (word_of_nat (length txs))"
  obtain m2 where rd: "readBlock M txTypes blk' (append_header M blk millis txs m) = Inr (snd (bs ! i), m2)"
    and m2: "vw_mem V m2 = mem_store (vw_mem V m) (end_of enc bs) ?hdr" "vw_cap V m2 = vw_cap V m" "vw_pos V m2 = pos"
    using read_between [OF M T inv assms(2,3), of blk'] assms(5-7) by auto
  have room: "end_of enc bs \<le> vw_cap V m" "266240 \<le> vw_cap V m" "end_of enc (bs @ [(millis, txs)]) < 2 ^ 32"
    using assms(2) inv by (auto simp: block_fits_def epoch_mem_def)
  have "pos + length ?e \<le> end_of enc bs + length (block_bytes enc (millis, txs))" using assms(8) by simp
  then have "page_up (pos + length ?e) \<le> end_of enc (bs @ [(millis, txs)])"
    unfolding page_up_def end_of_snoc by (intro mult_le_mono1 div_le_mono) simp
  then have small: "page_up (pos + length ?e) < 2 ^ 32" using room(3) by simp
  let ?m3 = "append_body M T blk txs m2"
  have m3: "vw_mem V ?m3 = mem_store (mem_store (vw_mem V m2) pos ?e) (20 + 4 * length bs) (le_bytes 4 (page_up (pos + length ?e)))"
    "vw_cap V ?m3 = vw_cap V m"
    using append_body_memory [OF M T, of m2 txs blk] assms(3,4,8) room small by (simp_all add: m2)
  have lo: "266240 \<le> pos" using end_of_ge [of enc "take i bs"] assms(7) by simp
  have "unat (getBlockOffset M ?m3 (blk + 1)) = le_nat (mem_load (vw_mem V ?m3) (20 + 4 * length bs) 4)"
    using unat_peek_u32 [OF M, of "blockOffset_addr ((blk + 1) mod BLOCKS_PER_EPOCH)" ?m3] m3(2) room(2) assms(3,4)
    by (simp add: getBlockOffset_def unat_blockOffset_addr_succ mod_Suc)
  also have "\<dots> = page_up (pos + length ?e)" using small by (simp add: m3(1) mem_load_store_same le_nat_le_bytes)
  finally show ?thesis
    using rd assms(4,8) lo by (intro exI [of _ m2] exI [of _ ?m3]) (simp add: m3(1) m2(1) mem_load_store_same mem_load_store_disjoint)
qed

subsection \<open>Witnesses\<close>

lemma sample_one_block:
  "epoch_holds flat_mmap flat_view byte_tx byte_types (\<lambda>x. [1, x])
     (appendBlock flat_mmap byte_tx 0 1000 [7, 9] sample_epoch) [(1000, [7, 9])]"
  "fl_cap (appendBlock flat_mmap byte_tx 0 1000 [7, 9] sample_epoch) = 300000"
proof -
  show "epoch_holds flat_mmap flat_view byte_tx byte_types (\<lambda>x. [1, x])
     (appendBlock flat_mmap byte_tx 0 1000 [7, 9] sample_epoch) [(1000, [7, 9])]"
    using epoch.append_holds [OF sample_epoch_holds sample_block_fits, of 0] by simp
  show "fl_cap (appendBlock flat_mmap byte_tx 0 1000 [7, 9] sample_epoch) = 300000"
    using appendBlock_memory(2) [of flat_mmap flat_view byte_tx "factories byte_types" "\<lambda>x. [1, x]" sample_epoch "[]" 1000 "[7, 9]" 0]
      sample_epoch_holds sample_block_fits by (simp add: epoch_holds_def)
qed

lemma sample_end_of: "end_of (\<lambda>x. [1, x]) [(t, txs)] = page_up (266304 + 2 * length txs)" for txs :: "byte list"
proof -
  have "length (enc_all (\<lambda>x. [1, x]) txs) = 2 * length txs" for txs :: "byte list" by (induction txs) simp_all
  then show ?thesis using end_of_snoc [of "\<lambda>x. [1, x]" "[]" "(t, txs)"] by (simp add: block_bytes_def add.assoc)
qed

lemma sample_epoch_clear: "table_clear (fl_mem sample_epoch) 0"
  by (simp add: table_clear_def sample_epoch_def new_EpochFile_def poke_u32_def flat_mmap_def blockOffset_addr_def
      mem_load_store_disjoint) (simp add: mem_load_def map_replicate_const)

lemma sample_table_clear:
  "table_clear (fl_mem (appendBlock flat_mmap byte_tx 0 1000 [7, 9] sample_epoch)) 1"
  using sample_epoch_clear
    table_clear_appended [of "fl_mem sample_epoch" "[] :: byte block list" "\<lambda>x. [1, x]" "(1000, [7, 9])"]
    appendBlock_memory(1) [of flat_mmap flat_view byte_tx "factories byte_types" "\<lambda>x. [1, x]" sample_epoch "[]" 1000 "[7, 9]" 0]
    sample_epoch_holds sample_block_fits by (simp add: epoch_holds_def)

theorem epoch_capacity_witness:
  "270336 \<le> unat (getBlockOffset flat_mmap (append_all flat_mmap byte_tx [(1000, [7, 9 :: byte])]
     (new_EpochFile flat_mmap True \<lparr>fl_mem = (\<lambda>_. 0), fl_pos = 0, fl_cap = 1048576\<rparr>)) 1)"
proof -
  let ?h = "\<lparr>fl_mem = (\<lambda>_. 0), fl_pos = 0, fl_cap = 1048576\<rparr>"
  have "\<forall>i < length [(1000, [7, 9 :: byte])]. block_fits (\<lambda>x. [1, x]) (vw_cap flat_view ?h)
      (take i [(1000, [7, 9])]) ([(1000, [7, 9])] ! i)"
    by (simp add: block_fits_def sample_end_of) (simp add: block_bytes_def page_up_def)
  from epoch_capacity [OF flat_mmap_contract byte_types_codec _ this refl] show ?thesis
    by (simp add: epoch_mapping_size_def)
qed

theorem skipped_block_overwrites_first_witness:
  "\<exists>m'. readBlock flat_mmap byte_types 0 (appendBlock flat_mmap byte_tx 2 2000 [5]
     (appendBlock flat_mmap byte_tx 0 1000 [7, 9] sample_epoch)) = Inr ([5], m')"
proof -
  have "getBlockOffset flat_mmap (appendBlock flat_mmap byte_tx 0 1000 [7, 9] sample_epoch) 2 = 0"
    using sample_table_clear by (intro table_clear_slot [OF flat_mmap_contract, of _ 1]) (simp_all add: sample_one_block)
  then show ?thesis
    using skipped_block_overwrites_first [OF sample_one_block(1), of 2 2000 "[5]" 0]
    by (simp add: sample_one_block(2) sample_end_of) (simp add: block_bytes_def page_up_def)
qed

theorem read_during_append_witness:
  "\<exists>m2. readBlock flat_mmap byte_types 0 (append_header flat_mmap 1 2000 [5 :: byte]
       (appendBlock flat_mmap byte_tx 0 1000 [7, 9] sample_epoch)) = Inr ([7, 9], m2) \<and>
     mem_load (fl_mem (append_body flat_mmap byte_tx 1 [5] m2)) 266308 2 = [1, 5] \<and>
     unat (getBlockOffset flat_mmap (append_body flat_mmap byte_tx 1 [5] m2) 2) = 270336"
proof -
  have "block_fits (\<lambda>x. [1, x]) (vw_cap flat_view (appendBlock flat_mmap byte_tx 0 1000 [7, 9] sample_epoch))
      [(1000, [7, 9])] (2000, [5 :: byte])"
    using end_of_snoc [of "\<lambda>x. [1, x]" "[(1000, [7, 9])]" "(2000, [5 :: byte])"]
    by (simp add: block_fits_def sample_end_of sample_one_block(2)) (simp add: block_bytes_def page_up_def)
  from read_during_append [OF sample_one_block(1) this, of 1 0 0 266308] show ?thesis
    by (simp add: sample_end_of) (auto simp: block_bytes_def page_up_def numeral_2_eq_2)
qed

end
