(* ===== verification/Backend_Crash.thy ===== *)
theory Backend_Crash
  imports Backend_Read EpochFaults
begin

text \<open>
  Closing and reopening a backend of \<^verbatim>\<open>src/blockchain/BlockchainBackend.cpp\<close>.  A clean
  shutdown lets the background writes finish; when the process dies inside \<open>addBlock\<close>, the
  files (which are mapped) keep what the definitions \<open>commit_height\<close>, \<open>commit_journal\<close>,
  \<open>commit_timestamp\<close> and \<open>commit_segments\<close> had done by then and the queued writes are gone.
  The constructor does not replay anything.
\<close>

subsection \<open>Shutdown and restart\<close>

text \<open>The destructor waits until the queued writes have run, in whatever order.\<close>

inductive destroy_backend ::
  "('ts, 'tt, 'b, 't, 'r, 'd, 'm) backend_env \<Rightarrow>
   ('tx, 'k, 'f, 'm, 'ts, ('tt, 'b, 't, 'r, 'd) Catalog) BlockchainBackend \<Rightarrow>
   ('tx, 'k, 'f, 'm, 'ts, ('tt, 'b, 't, 'r, 'd) Catalog) BlockchainBackend \<Rightarrow> bool" for N where
  drained: "(task_step (be_catalog N))\<^sup>*\<^sup>* (bk_catalog b) cat \<Longrightarrow> ct_tasks cat = [] \<Longrightarrow>
    destroy_backend N b (b\<lparr>bk_catalog := cat\<rparr>)"

inductive_cases destroy_backendE: "destroy_backend N b b'"

text \<open>
  The constructor on the files a backend left: the header, the epoch files (mapped again by
  \<open>remap\<close>, their constructor finding a file that is not new), the tracker and the catalog directory.
\<close>

definition reopen_backend ::
  "'m mmap_ops \<Rightarrow> ('tx, 'k, 'f, 'm) ChainDesign \<Rightarrow> ('m \<Rightarrow> 'm) \<Rightarrow>
   ('tx, 'k, 'f, 'm, 'ts, ('tt, 'b, 't, 'r, 'd) Catalog) BlockchainBackend \<Rightarrow>
   ('tx, 'k, 'f, 'm, 'ts, ('tt, 'b, 't, 'r, 'd) Catalog) BlockchainBackend" where
  "reopen_backend M design remap b =
     new_BlockchainBackend design (bk_config b) (bk_dataDir b)
       (Some \<lparr>mh_version = bk_version b, mh_lastBlockTimestamp = bk_lastBlockTimestamp b,
          mh_currentBlockHeight = bk_currentBlockHeight b\<rparr>)
       (\<lambda>e. map_option (\<lambda>f. new_EpochFile M False (remap f)) (bk_epochs b e)) (bk_timestampTracker b)
       (open_Catalog (ct_tocBTree (bk_catalog b)) (ct_files (bk_catalog b)))"

text \<open>A new mapping of a file has the file's bytes and is at least as long.\<close>

definition remap_contract :: "'m mmap_view \<Rightarrow> ('m \<Rightarrow> 'm) \<Rightarrow> bool" where
  "remap_contract V remap \<longleftrightarrow> (\<forall>m. vw_mem V (remap m) = vw_mem V m \<and> vw_cap V m \<le> vw_cap V (remap m))"

lemma reopen_fields:
  "bk_config (reopen_backend M design remap b) = bk_config b"
  "bk_lastBlockTimestamp (reopen_backend M design remap b) = bk_lastBlockTimestamp b"
  "bk_currentBlockHeight (reopen_backend M design remap b) = bk_currentBlockHeight b"
  "bk_epochs (reopen_backend M design remap b) = (\<lambda>e. map_option remap (bk_epochs b e))"
  "bk_timestampTracker (reopen_backend M design remap b) = bk_timestampTracker b"
  "bk_txTypes (reopen_backend M design remap b) = cd_registerTransactionTypes design new_TransactionTypeRegistry"
  "bk_catalog (reopen_backend M design remap b) = open_Catalog (ct_tocBTree (bk_catalog b)) (ct_files (bk_catalog b))"
  by (simp_all add: reopen_backend_def new_BlockchainBackend_def new_EpochFile_def Let_def)

lemma epoch_mem_cap: "epoch_mem enc cap mem bs \<Longrightarrow> cap \<le> cap' \<Longrightarrow> epoch_mem enc cap' mem bs"
  by (auto simp: epoch_mem_def intro: order_trans)

lemma files_hold_reopen:
  assumes "files_hold (\<lambda>m. epoch_mem enc (vw_cap V m) (vw_mem V m)) files bs" and "remap_contract V remap"
  shows "files_hold (\<lambda>m. epoch_mem enc (vw_cap V m) (vw_mem V m)) (\<lambda>e. map_option remap (files e)) bs"
  unfolding files_hold_def
proof (intro allI impI)
  fix e :: nat
  assume "e < 2 ^ 32"
  with assms(1) have "case files (word_of_nat e) of None \<Rightarrow> epoch_slice e bs = []
      | Some f \<Rightarrow> epoch_mem enc (vw_cap V f) (vw_mem V f) (epoch_slice e bs)" by (simp add: files_hold_def)
  then show "case map_option remap (files (word_of_nat e)) of None \<Rightarrow> epoch_slice e bs = []
      | Some f \<Rightarrow> epoch_mem enc (vw_cap V f) (vw_mem V f) (epoch_slice e bs)"
    using assms(2) by (auto simp: remap_contract_def split: option.splits intro: epoch_mem_cap)
qed

lemma chain_holds_reopen:
  assumes "chain_holds V enc okT cont b bs" and "remap_contract V remap"
  shows "chain_holds V enc okT cont (reopen_backend M design remap b) bs"
  using assms files_hold_reopen [of enc V "bk_epochs b" bs remap] by (simp add: chain_holds_def reopen_fields)

text \<open>
  C26 (Backend_Crash.restart_keeps_chain): a backend that holds the chain \<open>bs\<close>, is closed and is opened
  again with the same chain design holds the same chain: it has the same height and last
  timestamp, every block reads back, no write is outstanding, and the catalog has the table
  of contents and the files the drained one had.
\<close>

theorem restart_keeps_chain:
  assumes "backend_contract A N (bk_txTypes b) V enc okT cont" and "chain_holds V enc okT cont b bs"
    and "cd_registerTransactionTypes design new_TransactionTypeRegistry = bk_txTypes b"
    and "remap_contract V remap" and "destroy_backend N b b1" and "b2 = reopen_backend (be_mmap N) design remap b1"
  shows "chain_holds V enc okT cont b2 bs \<and> getBlockHeight b2 = getBlockHeight b \<and>
    getLastBlockTimestamp b2 = getLastBlockTimestamp b \<and>
    (\<forall>n. fst (getBlock N n b2) = (if unat n < length bs then Inr (snd (bs ! unat n)) else Inl Range_error)) \<and>
    ct_tasks (bk_catalog b2) = [] \<and> ct_tocBTree (bk_catalog b2) = ct_tocBTree (bk_catalog b1) \<and>
    ct_files (bk_catalog b2) = ct_files (bk_catalog b1)"
proof -
  obtain cat where b1: "b1 = b\<lparr>bk_catalog := cat\<rparr>" using assms(5) by (auto elim: destroy_backendE)
  have "chain_holds V enc okT cont b1 bs" using assms(2) by (simp add: b1 chain_holds_def)
  from chain_holds_reopen [OF this assms(4)] have chain: "chain_holds V enc okT cont b2 bs" by (simp add: assms(6))
  have types: "bk_txTypes b2 = bk_txTypes b" by (simp add: assms(3,6) reopen_fields)
  have C: "backend_contract A N (bk_txTypes b2) V enc okT cont" using assms(1) by (simp add: types)
  have "fst (getBlock N n b2) = (if unat n < length bs then Inr (snd (bs ! unat n)) else Inl Range_error)" for n
    using getBlock_answer [OF C chain] .
  with chain show ?thesis
    by (simp add: assms(6) reopen_fields b1 getBlockHeight_def getLastBlockTimestamp_def open_Catalog_def)
qed

subsection \<open>The process ends inside \<open>addBlock\<close>\<close>

lemma commit_block_files:
  assumes "getEpochFile N (bk_currentBlockHeight b) b = (Some f, b1)"
    and "commit_block A N clock millis duration txs b = Some (r, b')"
  shows "bk_epochs b' = (bk_epochs b)(epoch_number (bk_currentBlockHeight b) \<mapsto>
      appendBlock (be_mmap N) (ap_tx A (bk_catalog b)) (bk_currentBlockHeight b) millis txs f)"
    and "bk_currentBlockHeight b' = bk_currentBlockHeight b + 1" and "bk_txTypes b' = bk_txTypes b"
    and "bk_config b' = bk_config b" and "bk_dataDir b' = bk_dataDir b"
    and "r = Inr k \<Longrightarrow> k = sint (bk_currentBlockHeight b)"
proof -
  from assms(2) have "commit_segments A N clock duration txs (bk_currentBlockHeight b)
      (commit_timestamp N millis (bk_currentBlockHeight b) (b\<lparr>bk_currentBlockHeight := bk_currentBlockHeight b + 1,
       bk_epochs := (bk_epochs b)(epoch_number (bk_currentBlockHeight b) \<mapsto>
         appendBlock (be_mmap N) (ap_tx A (bk_catalog b)) (bk_currentBlockHeight b) millis txs f)\<rparr>)) = Some (r, b')"
    by (simp add: commit_block_def Let_def commit_journal_run [OF assms(1)])
  note out = commit_segments_frame [OF this]
  show "bk_epochs b' = (bk_epochs b)(epoch_number (bk_currentBlockHeight b) \<mapsto>
      appendBlock (be_mmap N) (ap_tx A (bk_catalog b)) (bk_currentBlockHeight b) millis txs f)"
    and "bk_currentBlockHeight b' = bk_currentBlockHeight b + 1" and "bk_txTypes b' = bk_txTypes b"
    and "bk_config b' = bk_config b" and "bk_dataDir b' = bk_dataDir b"
    by (subst out(1), simp add: commit_timestamp_def)+
  show "r = Inr k \<Longrightarrow> k = sint (bk_currentBlockHeight b)" by (rule out(2))
qed

lemma addBlock_committed:
  assumes "addBlock A N clock millis txs b = Some (Inr k, b')" and "k \<noteq> - 1"
  shows "commit_block A N clock millis (millis - bk_lastBlockTimestamp b) txs b = Some (Inr k, b')"
  using assms by (auto simp: addBlock_def Let_def split: if_splits sum.splits)

lemma first_epoch: "unat blk < 65536 \<Longrightarrow> epoch_number blk = 0"
  by (simp add: epoch_number_eq)

text \<open>
  C27 (Backend_Crash.crash_before_journal): \<open>addBlock\<close> advances the height before it writes the block.  When
  the process ends in between on a chain in its first epoch (at least one block and fewer than 65534),
  the next block committed after the restart gets the number
  after the missing one and is stored over the first block of the epoch file: block 0 of the
  chain then reads as the new block's transactions.
\<close>

theorem crash_before_journal:
  assumes C: "backend_contract A N (bk_txTypes b) V enc okT cont" and chain: "chain_holds V enc okT cont b bs"
    and n: "bs \<noteq> []" "length bs + 2 < 65536"
    and f: "bk_epochs b 0 = Some f" "table_clear (vw_mem V f) (length bs)"
    and room: "266240 + length (block_bytes enc (millis, txs)) \<le> vw_cap V f" "end_of enc [(millis, txs)] < 2 ^ 32"
      "length txs < 65536"
    and types: "cd_registerTransactionTypes design new_TransactionTypeRegistry = bk_txTypes b"
    and remap: "remap_contract V remap" and b1: "b1 = reopen_backend (be_mmap N) design remap (commit_height b)"
    and add: "addBlock A N clock millis txs b1 = Some (Inr k, b2)" "k \<noteq> - 1"
  shows "k = int (length bs) + 1 \<and> fst (getBlock N 0 b2) = Inr txs"
proof -
  note inv = chain_holdsD [OF chain]
  let ?f = "remap f" and ?blk = "bk_currentBlockHeight b + 1"
  have h: "bk_currentBlockHeight b1 = ?blk" "bk_txTypes b1 = bk_txTypes b" "bk_epochs b1 0 = Some ?f"
    using f(1) by (simp_all add: b1 reopen_fields commit_height_def types)
  have blk: "unat ?blk = Suc (length bs)" using inv(1) n(2) by (simp add: unat_word_ariths)
  have e0: "epoch_number ?blk = 0" using blk n(2) by (intro first_epoch) simp
  have M: "mmap_contract (be_mmap N) V" and T: "tx_codec (ap_tx A c) (factories (bk_txTypes b)) V enc" for c
    using C by (auto simp: backend_contract_def)
  have slice: "epoch_slice 0 bs = bs" using n(2) by (simp add: epoch_slice_def)
  have "epoch_mem enc (vw_cap V f) (vw_mem V f) bs"
    using inv(3) f(1) slice by (auto simp: files_hold_def dest!: spec [of _ 0])
  moreover have vw: "vw_mem V ?f = vw_mem V f" "vw_cap V f \<le> vw_cap V ?f" using remap by (auto simp: remap_contract_def)
  ultimately have mem: "epoch_mem enc (vw_cap V ?f) (vw_mem V ?f) bs" using epoch_mem_cap by metis
  have "getBlockOffset (be_mmap N) ?f ?blk = 0"
    using f(2) mem blk n(2) by (intro table_clear_slot [OF M, of _ "length bs"]) (simp_all add: vw epoch_mem_def)
  then obtain m' where rd: "readBlock (be_mmap N) (bk_txTypes b) 0
      (appendBlock (be_mmap N) (ap_tx A (bk_catalog b1)) ?blk millis txs ?f) = Inr (txs, m')"
    using skipped_number_overwrites [OF M T mem n(1), of ?blk millis txs 0 "bk_catalog b1"] room vw(2) blk n(2) by auto
  have "getEpochFile N (bk_currentBlockHeight b1) b1 = (Some ?f, b1)" using h e0 by (simp add: getEpochFile_def)
  note B = commit_block_files [OF this addBlock_committed [OF add]]
  have "unat (?blk + 1) = Suc (Suc (length bs))" using inv(1) n(2) by (simp add: unat_word_ariths)
  then have "0 < bk_currentBlockHeight b2" using B(2) h(1) by (simp add: word_less_nat_alt)
  moreover have "bk_epochs b2 0 = Some (appendBlock (be_mmap N) (ap_tx A (bk_catalog b1)) ?blk millis txs ?f)"
    using B(1) h e0 by simp
  ultimately have "fst (getBlock N 0 b2) = Inr txs"
    using rd B(3) h(2) by (simp add: getBlock_def getEpochFile_def first_epoch not_le)
  moreover have "k = int (length bs) + 1"
    using B(6) [OF refl] h(1) blk n(2) sint_u64_small [of ?blk] by simp
  ultimately show ?thesis by simp
qed

text \<open>Reads of the journal do not look at the tracker.\<close>

lemma getBlock_tracker:
  "getBlock N n (b\<lparr>bk_timestampTracker := tr\<rparr>) =
     (fst (getBlock N n b), (snd (getBlock N n b))\<lparr>bk_timestampTracker := tr\<rparr>)"
  by (auto simp: getBlock_def getEpochFile_def Let_def split: option.splits sum.splits)

lemma get_blocks_tracker:
  "get_blocks N ns acc (b\<lparr>bk_timestampTracker := tr\<rparr>) =
     (fst (get_blocks N ns acc b), (snd (get_blocks N ns acc b))\<lparr>bk_timestampTracker := tr\<rparr>)"
proof (induction ns arbitrary: acc b)
  case (Cons n ns)
  obtain r b' where "getBlock N n b = (r, b')" by fastforce
  then show ?case using Cons.IH by (cases r) (simp_all add: getBlock_tracker)
qed simp

lemma journal_holds:
  assumes C: "backend_contract A N (bk_txTypes b) V enc okT cont"
    and chain: "chain_holds V enc okT cont b bs" and small: "length bs < 2 ^ 48"
    and f: "getEpochFile N (bk_currentBlockHeight b) b = (Some f, b0)"
    and fits: "block_fits enc (vw_cap V f) (epoch_slice (length bs div 65536) bs) (millis, txs)"
    and b1: "b1 = snd (commit_journal A N millis txs (bk_currentBlockHeight b) (commit_height b))"
  shows "chain_holds V enc okT cont (commit_timestamp N millis (bk_currentBlockHeight b) b1) (bs @ [(millis, txs)])"
    and "bk_timestampTracker b1 = bk_timestampTracker b" and "bk_lastBlockTimestamp b1 = bk_lastBlockTimestamp b"
    and "bk_txTypes b1 = bk_txTypes b" and "bk_catalog b1 = bk_catalog b"
proof -
  note inv = chain_holdsD [OF chain] and run = commit_journal_run [OF f, of A millis txs]
  have bt: "btree_contract (be_tracker N) ts_compare okT cont" using C by (simp add: backend_contract_def)
  show "bk_timestampTracker b1 = bk_timestampTracker b" and "bk_lastBlockTimestamp b1 = bk_lastBlockTimestamp b"
    and "bk_txTypes b1 = bk_txTypes b" and "bk_catalog b1 = bk_catalog b"
    by (simp_all add: b1 run)
  have "unat (bk_currentBlockHeight b + 1) = Suc (length bs)" using small inv(1) by (simp add: unat_word_ariths)
  then show "chain_holds V enc okT cont (commit_timestamp N millis (bk_currentBlockHeight b) b1) (bs @ [(millis, txs)])"
    using append_next_block [OF C inv(3) inv(1) small f fits] small
      tracker_holds(1) [OF bt inv(4,5) small inv(1), of millis] tracker_holds(2) [OF bt inv(4,5) small inv(1), of millis txs]
    by (simp add: chain_holds_def b1 run commit_timestamp_def)
qed

text \<open>
  (crash before timestamp): when the process ends after the block has been written to its
  epoch file and before the timestamp and the tracker are updated, the restarted backend reads
  every block by number, the new one included; its last timestamp is still the old one, and
  no window query ever returns the new block.
\<close>

theorem crash_before_timestamp:
  assumes C: "backend_contract A N (bk_txTypes b) V enc okT cont"
    and chain: "chain_holds V enc okT cont b bs" and small: "length bs < 2 ^ 48"
    and f: "getEpochFile N (bk_currentBlockHeight b) b = (Some f, b0)"
    and fits: "block_fits enc (vw_cap V f) (epoch_slice (length bs div 65536) bs) (millis, txs)"
    and types: "cd_registerTransactionTypes design new_TransactionTypeRegistry = bk_txTypes b"
    and remap: "remap_contract V remap"
    and b1: "b1 = reopen_backend (be_mmap N) design remap (snd (commit_journal A N millis txs (bk_currentBlockHeight b) (commit_height b)))"
    and sorted: "sorted (map fst bs)" and top: "\<forall>x \<in> set bs. fst x \<noteq> - 1"
  shows "(\<forall>n. fst (getBlock N n b1) =
      (if unat n < Suc (length bs) then Inr (snd ((bs @ [(millis, txs)]) ! unat n)) else Inl Range_error)) \<and>
    getLastBlockTimestamp b1 = getLastBlockTimestamp b \<and>
    (\<forall>s t. s \<le> t \<longrightarrow> (\<exists>b2. getTransactionsByTimeWindow N s t b1 =
      Some (Inr (concat (map snd (filter (\<lambda>x. s \<le> fst x \<and> fst x \<le> t) bs))), b2)))"
proof -
  note inv = chain_holdsD [OF chain]
  let ?bs = "bs @ [(millis, txs)]"
  define j where "j = snd (commit_journal A N millis txs (bk_currentBlockHeight b) (commit_height b))"
  note J = journal_holds [OF C chain small f fits j_def]
  define tr where "tr = tracker_addBlock (be_tracker N) millis (bk_currentBlockHeight b) (bk_timestampTracker b)"
  have chain1: "chain_holds V enc okT cont (b1\<lparr>bk_timestampTracker := tr\<rparr>) ?bs"
    using chain_holds_reopen [OF J(1) remap, of "be_mmap N" design]
    by (simp add: b1 j_def [symmetric] chain_holds_def reopen_fields commit_timestamp_def J(2) tr_def)
  have fields: "bk_txTypes b1 = bk_txTypes b" "bk_timestampTracker b1 = bk_timestampTracker b"
      "bk_lastBlockTimestamp b1 = bk_lastBlockTimestamp b"
    by (simp_all add: b1 j_def [symmetric] reopen_fields types J)
  then have C1: "backend_contract A N (bk_txTypes (b1\<lparr>bk_timestampTracker := tr\<rparr>)) V enc okT cont" using C by simp
  have bt: "btree_contract (be_tracker N) ts_compare okT cont" using C by (simp add: backend_contract_def)
  have get: "fst (getBlock N n b1) = (if unat n < length ?bs then Inr (snd (?bs ! unat n)) else Inl Range_error)" for n
    using getBlock_answer [OF C1 chain1, of n] by (simp add: getBlock_tracker)
  have win: "\<exists>b2. getTransactionsByTimeWindow N s t b1 =
      Some (Inr (concat (map snd (filter (\<lambda>x. s \<le> fst x \<and> fst x \<le> t) bs))), b2)" if "s \<le> t" for s t
  proof -
    let ?ns = "map (word_of_nat :: nat \<Rightarrow> u64) (filter (\<lambda>i. s \<le> fst (bs ! i) \<and> fst (bs ! i) \<le> t) [0 ..< length bs])"
    note w = window_blocks [OF inv(2), of "\<lambda>x. s \<le> fst x \<and> fst x \<le> t"]
    have "fst (get_blocks N ?ns [] (b1\<lparr>bk_timestampTracker := tr\<rparr>)) = Inr (concat (map (\<lambda>n. snd (?bs ! unat n)) ?ns))"
      using get_blocks_chain [OF C1 chain1, of ?ns "[]"] w(2) by force
    moreover have "map (\<lambda>n. snd (?bs ! unat n)) ?ns = map (\<lambda>n. snd (bs ! unat n)) ?ns"
      using w(2) by (intro map_cong refl) (auto simp: nth_append)
    ultimately have "fst (get_blocks N ?ns [] b1) = Inr (concat (map snd (filter (\<lambda>x. s \<le> fst x \<and> fst x \<le> t) bs)))"
      by (simp only: get_blocks_tracker fst_conv w(1))
    then show ?thesis
      using window_numbers [OF bt inv(4,5,2) sorted top, of s t] that fields(2)
      by (cases "get_blocks N ?ns [] b1") (auto simp: getTransactionsByTimeWindow_def)
  qed
  show ?thesis using get win by (simp add: fields getLastBlockTimestamp_def)
qed

subsection \<open>The process ends before the background writes run\<close>

lemma writeSegment_keeps:
  assumes "writeSegment E now now' i v g s e content cat = Some (r, cat')"
  shows "catalog_extends E cat cat'"
  using assms
proof (cases rule: writeSegment_cases)
  case (failed q)
  then show ?thesis using selectFileFor_frame(1,4) [OF failed(2)] by (simp add: catalog_extends_def)
next
  case (submitted f key cat1)
  then show ?thesis using selectFileFor_frame(1,4) [OF submitted(2)] by (simp add: catalog_extends_def)
qed

lemma seal_families_extends:
  "seal_families A E indexes clock blk is s cat = Some (r, cat') \<Longrightarrow> catalog_extends E cat cat'"
proof (induction "is" arbitrary: cat)
  case (Cons i "is")
  then show ?case
    by (auto simp: Let_def catalog_extends_refl split: sum.splits if_splits option.splits prod.splits
        dest!: writeSegment_keeps intro: catalog_extends_trans)
qed (simp add: catalog_extends_refl)

lemma commit_segments_extends:
  assumes "commit_segments A N clock duration txs blk b = Some (r, b')"
  shows "catalog_extends (be_catalog N) (bk_catalog b) (bk_catalog b')"
  using assms
  by (auto simp: commit_segments_def sealOverrideToSegments_def Let_def catalog_extends_refl
      split: sum.splits option.splits prod.splits if_splits dest!: seal_families_extends)

lemma commit_block_extends:
  assumes "getEpochFile N (bk_currentBlockHeight b) b = (Some f, b1)"
    and "commit_block A N clock millis duration txs b = Some (r, b')"
  shows "catalog_extends (be_catalog N) (bk_catalog b) (bk_catalog b')"
  using assms(2) commit_segments_extends [of A N clock duration txs _ _ r b']
  by (fastforce simp: commit_block_def Let_def commit_journal_run [OF assms(1)] commit_timestamp_def)

text \<open>
  C28 (Backend_Crash.crash_before_writes): when the process ends after \<open>addBlock\<close> has returned the number of a
  block (whose epoch file opened and had room for it) and before its background writes have run, the restarted backend holds the chain with
  the block, but its catalog has no write outstanding, the table of contents from before the
  block, and the files from before the block (and possibly a new empty one): what the block
  changed is in no segment, and nothing writes it later.
\<close>

theorem crash_before_writes:
  assumes C: "backend_contract A N (bk_txTypes b) V enc okT cont"
    and chain: "chain_holds V enc okT cont b bs" and small: "length bs < 2 ^ 48"
    and f: "getEpochFile N (bk_currentBlockHeight b) b = (Some f, b0)"
    and fits: "block_fits enc (vw_cap V f) (epoch_slice (length bs div 65536) bs) (millis, txs)"
    and remap: "remap_contract V remap"
    and add: "addBlock A N clock millis txs b = Some (Inr k, b')" "k \<noteq> - 1"
    and b1: "b1 = reopen_backend (be_mmap N) design remap b'"
  shows "chain_holds V enc okT cont b1 (bs @ [(millis, txs)]) \<and> ct_tasks (bk_catalog b1) = [] \<and>
    catalog_extends (be_catalog N) (bk_catalog b) (bk_catalog b1)"
proof -
  note commit = addBlock_committed [OF add]
  have "chain_holds V enc okT cont b' (bs @ [(millis, txs)])"
    by (rule commit_block_appends(1) [OF C chain small f fits commit])
  from chain_holds_reopen [OF this remap] have holds: "chain_holds V enc okT cont b1 (bs @ [(millis, txs)])" by (simp add: b1)
  have "catalog_extends (be_catalog N) (bk_catalog b) (bk_catalog b')"
    by (rule commit_block_extends [OF f commit])
  then show ?thesis using holds by (simp add: b1 reopen_fields open_Catalog_def catalog_extends_def)
qed

subsection \<open>Witnesses\<close>

lemma id_remap: "remap_contract V id"
  by (simp add: remap_contract_def)

lemma sample_types: "cd_registerTransactionTypes sample_design new_TransactionTypeRegistry = byte_types"
  by (simp add: sample_design_def byte_types_def)

definition sample_file :: flat_file where
  "sample_file = appendBlock flat_mmap counter_tx 0 1000000 [7, 9] sample_epoch"

lemma sample_committed_fields:
  "bk_epochs sample_committed 0 = Some sample_file" "bk_currentBlockHeight sample_committed = 1"
  "bk_config sample_committed = default_config" "bk_dataDir sample_committed = ''d''"
  "ct_tocBTree (bk_catalog sample_committed) = []"
proof -
  obtain b1 where f: "getEpochFile sample_benv (bk_currentBlockHeight sample_backend) sample_backend = (Some sample_epoch, b1)"
    using sample_epoch_file by blast
  have run: "commit_block sample_app sample_benv (\<lambda>_. (7, 7)) 1000000 1000000 [7, 9] sample_backend = Some (Inr 0, sample_committed)"
    using addBlock_committed [OF sample_committed_chain(1)] by (simp add: sample_backend_fields)
  note B = commit_block_files [OF f run]
  show "bk_epochs sample_committed 0 = Some sample_file" "bk_currentBlockHeight sample_committed = 1"
    "bk_config sample_committed = default_config"
    using B by (simp_all add: sample_backend_fields first_epoch sample_app_laws sample_file_def) (simp add: sample_benv_def)
  show "bk_dataDir sample_committed = ''d''"
    using B(5) by (simp add: sample_backend_def new_BlockchainBackend_def case_prod_beta Let_def)
  show "ct_tocBTree (bk_catalog sample_committed) = []"
    using commit_block_extends [OF f run] by (simp add: catalog_extends_def sample_backend_fields sample_catalog_toc)
qed

lemma sample_file_facts: "table_clear (fl_mem sample_file) 1" "fl_cap sample_file = 300000"
proof -
  have "table_clear (fl_mem sample_epoch) 0" by (rule sample_epoch_clear)
  moreover have T: "tx_codec counter_tx (factories byte_types) flat_view sample_enc"
    using sample_backend_contract by (simp add: backend_contract_def sample_app_laws)
  moreover have "epoch_mem sample_enc (vw_cap flat_view sample_epoch) (vw_mem flat_view sample_epoch) []"
    using sample_epoch_holds by (simp add: epoch_holds_def)
  ultimately show "table_clear (fl_mem sample_file) 1" "fl_cap sample_file = 300000"
    using appendBlock_memory [OF flat_mmap_contract T, of sample_epoch "[]" 1000000 "[7, 9]" 0] sample_fits
      table_clear_appended [of "fl_mem sample_epoch" "[] :: byte block list" sample_enc "(1000000, [7, 9])"]
    by (simp_all add: sample_file_def epoch_slice_def)
qed

theorem restart_keeps_chain_witness:
  "\<exists>b1. destroy_backend sample_benv sample_committed b1 \<and>
     fst (getBlock sample_benv 0 (reopen_backend (be_mmap sample_benv) sample_design id b1)) = Inr [7, 9] \<and>
     getBlockHeight (reopen_backend (be_mmap sample_benv) sample_design id b1) = 1"
proof -
  obtain cat where "(task_step (be_catalog sample_benv))\<^sup>*\<^sup>* (bk_catalog sample_committed) cat" "ct_tasks cat = []"
    using drain_all by blast
  then have d: "destroy_backend sample_benv sample_committed (sample_committed\<lparr>bk_catalog := cat\<rparr>)" by (rule drained)
  have ty: "cd_registerTransactionTypes sample_design new_TransactionTypeRegistry = bk_txTypes sample_committed"
    by (simp add: sample_types sample_committed_chain(3))
  from restart_keeps_chain [OF sample_committed_contract sample_committed_chain(2) ty id_remap d refl] d show ?thesis
    by (intro exI [of _ "sample_committed\<lparr>bk_catalog := cat\<rparr>"]) (simp add: getBlockHeight_def sample_committed_fields)
qed

theorem crash_before_timestamp_witness:
  "fst (getBlock sample_benv 0 (reopen_backend (be_mmap sample_benv) sample_design id
      (snd (commit_journal sample_app sample_benv 1000000 [7, 9] 0 (commit_height sample_backend))))) = Inr [7, 9] \<and>
   (\<exists>b2. getTransactionsByTimeWindow sample_benv 0 2000000 (reopen_backend (be_mmap sample_benv) sample_design id
      (snd (commit_journal sample_app sample_benv 1000000 [7, 9] 0 (commit_height sample_backend)))) = Some (Inr [], b2))"
proof -
  obtain b1 where f: "getEpochFile sample_benv (bk_currentBlockHeight sample_backend) sample_backend = (Some sample_epoch, b1)"
    using sample_epoch_file by blast
  from crash_before_timestamp [OF _ sample_chain _ f sample_fits _ id_remap refl, of sample_app sample_design]
    sample_backend_contract show ?thesis
    by (simp add: sample_backend_fields sample_types)
qed

theorem crash_before_writes_witness:
  "chain_holds flat_view sample_enc (one_per_key ts_compare) set (reopen_backend (be_mmap sample_benv) sample_design id sample_committed) [(1000000, [7, 9])] \<and>
   ct_tasks (bk_catalog (reopen_backend (be_mmap sample_benv) sample_design id sample_committed)) = []"
proof -
  obtain b1 where f: "getEpochFile sample_benv (bk_currentBlockHeight sample_backend) sample_backend = (Some sample_epoch, b1)"
    using sample_epoch_file by blast
  from crash_before_writes [OF _ sample_chain _ f sample_fits id_remap sample_committed_chain(1) _ refl, of sample_design]
    sample_backend_contract show ?thesis by (simp add: sample_backend_fields)
qed

lemma sample_recommit:
  fixes b1
  defines "b1 \<equiv> reopen_backend (be_mmap sample_benv) sample_design id (commit_height sample_committed)"
  shows "\<exists>b2. addBlock sample_app sample_benv (\<lambda>_. (7, 7)) 2000000 [5] b1 = Some (Inr 2, b2)"
proof -
  have h: "bk_currentBlockHeight b1 = 2" "bk_epochs b1 0 = Some sample_file" "bk_config b1 = default_config"
    "bk_lastBlockTimestamp b1 = 1000000" "ct_tocBTree (bk_catalog b1) = []"
    by (simp_all add: b1_def reopen_fields commit_height_def sample_committed_fields sample_committed_chain open_Catalog_def)
  have "bk_indexes b1 = bk_indexes sample_backend" "bk_overrideReg b1 = bk_overrideReg sample_backend"
    by (simp_all add: b1_def reopen_backend_def new_EpochFile_def sample_backend_def new_BlockchainBackend_def Let_def commit_height_def
        sample_committed_fields)
  then have s: "newStateOverride sample_app b1 = Inr (sample_state 0)"
    using sample_override by (simp add: newStateOverride_def)
  have f: "getEpochFile sample_benv (bk_currentBlockHeight b1) b1 = (Some sample_file, b1)"
    by (simp add: getEpochFile_def h first_epoch)
  have gate: "\<not> too_early default_config 1000000 (Suc 0)" by (simp add: too_early_def default_config_def)
  have v: "all_verify counter_tx [5] x" for x by (simp add: all_verify_def counter_tx_def)
  obtain b2 where "commit_block sample_app sample_benv (\<lambda>_. (7, 7)) 2000000 1000000 [5] b1 = Some (Inr 2, b2)"
    using commit_block_runs [OF f _ s sample_state_facts(1), of 1000000 "one_per_key toc_compare" set "\<lambda>_. (7, 7)" 2000000 "[5]"]
      sample_app_laws by (auto simp: h)
  then show ?thesis
    using addBlock_past_gate [of "[5]" b1 2000000 sample_app sample_benv "\<lambda>_. (7, 7)"] gate
    by (simp add: h s sample_app_laws verify_all_iff v)
qed

theorem crash_before_journal_witness:
  "\<exists>b2. addBlock sample_app sample_benv (\<lambda>_. (7, 7)) 2000000 [5]
       (reopen_backend (be_mmap sample_benv) sample_design id (commit_height sample_committed)) = Some (Inr 2, b2) \<and>
     fst (getBlock sample_benv 0 b2) = Inr [5]"
proof -
  obtain b2 where b2: "addBlock sample_app sample_benv (\<lambda>_. (7, 7)) 2000000 [5]
       (reopen_backend (be_mmap sample_benv) sample_design id (commit_height sample_committed)) = Some (Inr 2, b2)"
    using sample_recommit by blast
  have ty: "cd_registerTransactionTypes sample_design new_TransactionTypeRegistry = bk_txTypes sample_committed"
    by (simp add: sample_types sample_committed_chain(3))
  have "fst (getBlock sample_benv 0 b2) = Inr [5]"
    using crash_before_journal [OF sample_committed_contract sample_committed_chain(2) _ _ sample_committed_fields(1) _ _ _ _ ty id_remap refl b2]
      sample_file_facts sample_end_of [of 2000000 "[5]"] by (simp add: block_bytes_def page_up_def)
  with b2 show ?thesis by blast
qed

end
