(* ===== verification/MEVBuilder.thy ===== *)
theory MEVBuilder
  imports Transaction
begin

text \<open>
  \<^verbatim>\<open>src/blockchain/MEVBuilder.{h,cpp}\<close>: the block builder.  \<open>buildBlock\<close> picks transactions
  greedily against a simulated state, sorts the picked positions in descending order and
  removes them from the mempool one by one.  The state it starts from is the result of
  \<open>backend.newStateOverride()\<close>, the argument \<open>simState\<close>; \<open>clock n\<close> is the \<open>n\<close>-th value
  that \<open>millis_since_epoch()\<close> returns during the call.  The reserved optimization loop
  leaves at once and has no effect, so it has no counterpart here.
\<close>

subsection \<open>The greedy pass\<close>

text \<open>\<open>-1.0e30f\<close>, the nearest \<open>float\<close> to that literal.\<close>

definition worstValue :: flt where
  "worstValue = Fin (- 1000000015047466219876688855040)"

text \<open>
  The inner loop over the mempool from position \<open>i\<close> on.  \<open>bestTx\<close> and \<open>bestIdx\<close> are
  always set together, so they are one option.
\<close>

fun find_best ::
  "('tx, 's, 'm) tx_ops \<Rightarrow> 's \<Rightarrow> nat list \<Rightarrow> nat \<Rightarrow> 'tx list \<Rightarrow>
   ('tx \<times> nat) option \<Rightarrow> flt \<Rightarrow> ('tx \<times> nat) option \<times> flt" where
  "find_best T simState indicesToRemove i [] best bestValue = (best, bestValue)"
| "find_best T simState indicesToRemove i (tx # txs) best bestValue =
     (if i \<in> set indicesToRemove
      then find_best T simState indicesToRemove (Suc i) txs best bestValue
      else let val = tx_computeValue T tx simState
           in if flt_less bestValue val
              then find_best T simState indicesToRemove (Suc i) txs (Some (tx, i)) val
              else find_best T simState indicesToRemove (Suc i) txs best bestValue)"

function greedy_pass ::
  "('tx, 's, 'm) tx_ops \<Rightarrow> u16 \<Rightarrow> u64 \<Rightarrow> (nat \<Rightarrow> u64) \<Rightarrow> 'tx list \<Rightarrow>
   's \<Rightarrow> 'tx list \<Rightarrow> nat list \<Rightarrow> nat \<Rightarrow> 'tx list \<times> nat list" where
  "greedy_pass T maxTransactions deadline clock mempool simState selected indicesToRemove n =
     (if length selected < unat maxTransactions \<and> length indicesToRemove < length mempool
      then (case find_best T simState indicesToRemove 0 mempool None worstValue of
              (Some (tx, idx), val) \<Rightarrow>
                if flt_nonneg val
                then let simState = snd (tx_apply T tx simState);
                         selected = selected @ [tx];
                         indicesToRemove = indicesToRemove @ [idx]
                     in if deadline \<noteq> 0 \<and> clock n \<ge> deadline then (selected, indicesToRemove)
                        else greedy_pass T maxTransactions deadline clock mempool
                               simState selected indicesToRemove (Suc n)
                else (selected, indicesToRemove)
            | (None, val) \<Rightarrow> (selected, indicesToRemove))
      else (selected, indicesToRemove))"
  by pat_completeness auto
termination
  by (relation "measure (\<lambda>(T, mx, d, c, mempool, s, sel, rm, n). length mempool - length rm)") auto

declare greedy_pass.simps [simp del]

subsection \<open>Removal of the selected transactions\<close>

definition max_position :: "nat list \<Rightarrow> nat \<Rightarrow> nat" where
  "max_position xs i =
     fold (\<lambda>j maxPos. if xs ! j > xs ! maxPos then j else maxPos) [i + 1 ..< length xs] i"

definition swap_max :: "nat \<Rightarrow> nat list \<Rightarrow> nat list" where
  "swap_max i xs =
     (let maxPos = max_position xs i
      in if maxPos \<noteq> i
         then let tmp = xs ! i; xs = xs[i := xs ! maxPos] in xs[maxPos := tmp]
         else xs)"

definition sort_indices :: "nat list \<Rightarrow> nat list" where
  "sort_indices xs = fold swap_max [0 ..< length xs - 1] xs"

definition ordered_remove :: "nat \<Rightarrow> 'a list \<Rightarrow> 'a list" where
  "ordered_remove idx mempool =
     butlast (fold (\<lambda>i m. m[i := m ! (i + 1)]) [idx ..< length mempool - 1] mempool)"

definition remove_selected :: "nat list \<Rightarrow> 'a list \<Rightarrow> 'a list" where
  "remove_selected indices mempool = fold ordered_remove indices mempool"

definition buildBlock ::
  "('tx, 's, 'm) tx_ops \<Rightarrow> (nat \<Rightarrow> u64) \<Rightarrow> 's \<Rightarrow> 'tx list \<Rightarrow> u16 \<Rightarrow> u64 \<Rightarrow> 'tx list \<times> 'tx list" where
  "buildBlock T clock simState mempool maxTransactions deadline =
     (if length mempool = 0 then ([], mempool)
      else case greedy_pass T maxTransactions deadline clock mempool simState [] [] 0 of
        (selected, indicesToRemove) \<Rightarrow>
          (selected, remove_selected (sort_indices indicesToRemove) mempool))"

subsection \<open>The selection sort\<close>

lemma max_position_upto:
  fixes xs :: "nat list"
  assumes "i < n" and "n \<le> length xs"
  shows "i \<le> fold (\<lambda>j p. if xs ! j > xs ! p then j else p) [i + 1 ..< n] i \<and>
    fold (\<lambda>j p. if xs ! j > xs ! p then j else p) [i + 1 ..< n] i < n \<and>
    (\<forall>j. i \<le> j \<and> j < n \<longrightarrow>
      xs ! j \<le> xs ! fold (\<lambda>j p. if xs ! j > xs ! p then j else p) [i + 1 ..< n] i)"
  using assms
proof (induction n)
  case (Suc n)
  show ?case
  proof (cases "i < n")
    case True
    then have "i \<le> fold (\<lambda>j p. if xs ! j > xs ! p then j else p) [i + 1 ..< n] i"
      and "fold (\<lambda>j p. if xs ! j > xs ! p then j else p) [i + 1 ..< n] i < n"
      and "\<And>j. i \<le> j \<Longrightarrow> j < n \<Longrightarrow>
        xs ! j \<le> xs ! fold (\<lambda>j p. if xs ! j > xs ! p then j else p) [i + 1 ..< n] i"
      using Suc by simp_all
    with True show ?thesis by (auto simp: less_Suc_eq intro: order_trans less_imp_le)
  next
    case False
    with Suc.prems have "i = n" by simp
    then show ?thesis by (auto simp: less_Suc_eq)
  qed
qed simp

lemma max_position:
  assumes "i < length xs"
  shows "i \<le> max_position xs i" and "max_position xs i < length xs"
    and "i \<le> j \<Longrightarrow> j < length xs \<Longrightarrow> xs ! j \<le> xs ! max_position xs i"
  using max_position_upto [of i "length xs" xs] assms by (auto simp: max_position_def)

lemma length_swap_max [simp]: "length (swap_max i xs) = length xs"
  by (simp add: swap_max_def Let_def)

lemma mset_swap_max [simp]: "i < length xs \<Longrightarrow> mset (swap_max i xs) = mset xs"
  using max_position(2) [of i xs] by (simp add: swap_max_def Let_def mset_swap)

lemma swap_max_nth:
  assumes "i < length xs"
  shows "k < i \<Longrightarrow> swap_max i xs ! k = xs ! k"
    and "swap_max i xs ! i = xs ! max_position xs i"
    and "i < k \<Longrightarrow> k < length xs \<Longrightarrow>
      swap_max i xs ! k = xs ! k \<or> swap_max i xs ! k = xs ! i"
  using max_position(1,2) [OF assms] assms
  by (auto simp: swap_max_def Let_def nth_list_update)

text \<open>After the steps below \<open>n\<close>, the first \<open>n\<close> positions hold the largest elements in order.\<close>

definition sorted_prefix :: "nat \<Rightarrow> nat list \<Rightarrow> bool" where
  "sorted_prefix n xs \<longleftrightarrow> (\<forall>i j. i < n \<and> i \<le> j \<and> j < length xs \<longrightarrow> xs ! j \<le> xs ! i)"

lemma sorted_prefix_swap_max:
  assumes "sorted_prefix n xs" and n: "n < length xs"
  shows "sorted_prefix (Suc n) (swap_max n xs)"
  unfolding sorted_prefix_def
proof (intro allI impI)
  fix i j
  assume ij: "i < Suc n \<and> i \<le> j \<and> j < length (swap_max n xs)"
  have origin: "\<exists>k \<ge> min j n. k < length xs \<and> swap_max n xs ! j = xs ! k"
    using swap_max_nth(1,3) [OF n, of j] swap_max_nth(2) [OF n] max_position(1,2) [OF n] ij n
    by (cases j n rule: linorder_cases) (auto intro: exI [of _ j] exI [of _ n])
  then obtain k where k: "min j n \<le> k" "k < length xs" "swap_max n xs ! j = xs ! k" by blast
  show "swap_max n xs ! j \<le> swap_max n xs ! i"
  proof (cases "i = n")
    case True
    with k ij show ?thesis using max_position(3) [OF n, of k] swap_max_nth(2) [OF n] by simp
  next
    case False
    with k ij show ?thesis
      using assms(1) swap_max_nth(1) [OF n, of i] by (auto simp: sorted_prefix_def)
  qed
qed

lemma sort_steps:
  assumes "n \<le> length xs"
  shows "mset (fold swap_max [0 ..< n] xs) = mset xs \<and> sorted_prefix n (fold swap_max [0 ..< n] xs)"
  using assms
proof (induction n)
  case (Suc n)
  let ?ys = "fold swap_max [0 ..< n] xs"
  have IH: "mset ?ys = mset xs" "sorted_prefix n ?ys" using Suc by auto
  then have "n < length ?ys" using Suc.prems mset_eq_length [OF IH(1)] by simp
  with IH show ?case by (simp add: sorted_prefix_swap_max)
qed (simp add: sorted_prefix_def)

lemma sort_indices_correct:
  "mset (sort_indices xs) = mset xs" "sorted_wrt (\<ge>) (sort_indices xs)"
proof -
  have steps: "mset (sort_indices xs) = mset xs" "sorted_prefix (length xs - 1) (sort_indices xs)"
    using sort_steps [of "length xs - 1" xs] by (simp_all add: sort_indices_def)
  then show "mset (sort_indices xs) = mset xs" by simp
  have "length (sort_indices xs) = length xs" using steps(1) by (rule mset_eq_length)
  with steps(2) show "sorted_wrt (\<ge>) (sort_indices xs)"
    by (auto simp: sorted_wrt_iff_nth_less sorted_prefix_def)
qed

subsection \<open>Ordered removal\<close>

lemma shift_down:
  assumes "n < length xs"
  shows "length (fold (\<lambda>i m. m[i := m ! (i + 1)]) [idx ..< n] xs) = length xs \<and>
    (\<forall>k < length xs. fold (\<lambda>i m. m[i := m ! (i + 1)]) [idx ..< n] xs ! k =
       (if idx \<le> k \<and> k < n then xs ! Suc k else xs ! k))"
  using assms
proof (induction n)
  case (Suc n)
  then show ?case by (cases "idx \<le> n") (auto simp: nth_list_update less_Suc_eq)
qed simp

lemma ordered_remove_eq:
  assumes "idx < length xs"
  shows "ordered_remove idx xs = take idx xs @ drop (Suc idx) xs"
  using shift_down [of "length xs - 1" xs idx] assms
  by (intro nth_equalityI) (auto simp: ordered_remove_def nth_butlast nth_append)

lemma nths_UNIV [simp]: "nths xs UNIV = xs"
  by (rule nths_all) simp

lemma nths_remove_one:
  assumes "idx < length xs" and "\<And>i. i \<in> A \<Longrightarrow> i < idx"
  shows "nths (take idx xs @ drop (Suc idx) xs) (- A) = nths xs (- insert idx A)"
proof -
  have xs: "xs = take idx xs @ xs ! idx # drop (Suc idx) xs"
    using assms(1) by (rule id_take_nth_drop)
  have tail: "{j. j + idx \<in> - A} = UNIV" "{j. Suc j + idx \<in> - insert idx A} = UNIV"
    using assms(2) by force+
  have "nths xs (- insert idx A) =
      nths (take idx xs) (- insert idx A) @ drop (Suc idx) xs"
    using assms(1) tail by (subst xs) (simp add: nths_append nths_Cons min_def)
  moreover have "nths (take idx xs) (- insert idx A) = nths (take idx xs) (- A)"
    unfolding nths_def using assms(1)
    by (intro arg_cong [where f = "map fst"] filter_cong) (auto simp: set_zip)
  ultimately show ?thesis
    using assms(1) tail by (simp add: nths_append min_def)
qed

lemma remove_selected_descending:
  assumes "sorted_wrt (>) idxs" and "\<And>i. i \<in> set idxs \<Longrightarrow> i < length xs"
  shows "remove_selected idxs xs = nths xs (- set idxs)"
  using assms
proof (induction idxs arbitrary: xs)
  case (Cons i idxs)
  have i: "i < length xs" and below: "\<And>j. j \<in> set idxs \<Longrightarrow> j < i" using Cons.prems by auto
  let ?ys = "take i xs @ drop (Suc i) xs"
  have "j < length ?ys" if "j \<in> set idxs" for j using below [OF that] i by simp
  then have "remove_selected idxs ?ys = nths ?ys (- set idxs)"
    using Cons by simp
  then show ?case
    using nths_remove_one [OF i, of "set idxs"] below i
    by (simp add: remove_selected_def ordered_remove_eq)
qed (simp add: remove_selected_def)

lemma remove_sorted_selected:
  assumes "distinct idxs" and "\<And>i. i \<in> set idxs \<Longrightarrow> i < length xs"
  shows "remove_selected (sort_indices idxs) xs = nths xs (- set idxs)"
proof -
  have set: "set (sort_indices idxs) = set idxs" and dist: "distinct (sort_indices idxs)"
    using sort_indices_correct(1) [of idxs] assms(1)
    by (metis set_mset_mset, metis mset_eq_imp_distinct_iff)
  have "sorted_wrt (>) (sort_indices idxs)"
    using sort_indices_correct(2) [of idxs] dist
    by (auto simp: sorted_wrt_iff_nth_less order_less_le nth_eq_iff_index_eq)
  then show ?thesis
    using remove_selected_descending [of "sort_indices idxs" xs] assms(2) by (simp add: set)
qed

subsection \<open>The greedy choice\<close>

lemma flt_less_skip: "flt_less u v \<Longrightarrow> \<not> flt_less u a \<Longrightarrow> flt_less a v \<or> a = NaN"
  by (cases u; cases v; cases a) auto

lemma flt_less_worst: "\<not> flt_less worstValue v \<Longrightarrow> \<not> flt_nonneg v"
  by (cases v) (auto simp: worstValue_def flt_nonneg_def)

lemma flt_nonneg_le: "\<not> flt_less v a \<Longrightarrow> \<not> flt_nonneg v \<Longrightarrow> v \<noteq> NaN \<Longrightarrow> \<not> flt_nonneg a"
  by (cases v; cases a) (auto simp: flt_nonneg_def)

text \<open>
  The pick of one round among the values \<open>vals\<close> of the mempool, where \<open>removed\<close> are the
  positions picked before: it is free, nothing free has a greater value, and everything free
  in front of it has a smaller value or none.
\<close>

definition best_pick :: "(nat \<Rightarrow> flt) \<Rightarrow> nat \<Rightarrow> nat set \<Rightarrow> nat \<Rightarrow> bool" where
  "best_pick val n removed idx \<longleftrightarrow>
     idx < n \<and> idx \<notin> removed \<and>
     (\<forall>j < n. j \<notin> removed \<longrightarrow> \<not> flt_less (val idx) (val j)) \<and>
     (\<forall>j < idx. j \<notin> removed \<longrightarrow> flt_less (val j) (val idx) \<or> val j = NaN)"

lemma flt_less_not_NaN: "flt_less u v \<Longrightarrow> v \<noteq> NaN"
  by (cases u) auto

lemma flt_less_asym: "flt_less a v \<or> a = NaN \<Longrightarrow> \<not> flt_less v a"
  by (cases a; cases v) auto

text \<open>What the inner loop knows after the first \<open>n\<close> positions.\<close>

definition scan_inv ::
  "'tx list \<Rightarrow> (nat \<Rightarrow> flt) \<Rightarrow> nat list \<Rightarrow> nat \<Rightarrow> ('tx \<times> nat) option \<Rightarrow> flt \<Rightarrow> bool" where
  "scan_inv mempool val removed n best v \<longleftrightarrow>
     (case best of
        None \<Rightarrow> v = worstValue \<and> (\<forall>j < n. j \<notin> set removed \<longrightarrow> \<not> flt_less worstValue (val j))
      | Some (tx, idx) \<Rightarrow> tx = mempool ! idx \<and> v = val idx \<and> flt_less worstValue v \<and>
                         best_pick val n (set removed) idx)"

lemma scan_inv_best:
  assumes "scan_inv mempool val removed n best v"
  shows "j < n \<Longrightarrow> j \<notin> set removed \<Longrightarrow> \<not> flt_less v (val j)"
  using assms by (auto simp: scan_inv_def best_pick_def split: option.splits prod.splits)

lemma scan_inv_skip:
  assumes "scan_inv mempool val removed n best v" and "n \<in> set removed \<or> \<not> flt_less v (val n)"
  shows "scan_inv mempool val removed (Suc n) best v"
  using assms by (auto simp: scan_inv_def best_pick_def less_Suc_eq split: option.splits prod.splits)

lemma scan_inv_take:
  assumes inv: "scan_inv mempool val removed n best v" and n: "n \<notin> set removed" "flt_less v (val n)"
  shows "scan_inv mempool val removed (Suc n) (Some (mempool ! n, n)) (val n)"
proof -
  have "flt_less (val j) (val n) \<or> val j = NaN" if "j < n" "j \<notin> set removed" for j
    using scan_inv_best [OF inv that] n(2) flt_less_skip by blast
  moreover from this have "\<not> flt_less (val n) (val j)" if "j < n" "j \<notin> set removed" for j
    using that flt_less_asym by blast
  moreover have "flt_less worstValue (val n)"
    using inv n(2) flt_less_trans by (auto simp: scan_inv_def split: option.splits prod.splits)
  ultimately show ?thesis
    using n by (auto simp: scan_inv_def best_pick_def less_Suc_eq flt_less_irrefl)
qed

lemma find_best_inv:
  assumes "scan_inv mempool (\<lambda>i. tx_computeValue T (mempool ! i) s) rm n best v" and "n \<le> length mempool"
  shows "case find_best T s rm n (drop n mempool) best v of (best', v') \<Rightarrow>
    scan_inv mempool (\<lambda>i. tx_computeValue T (mempool ! i) s) rm (length mempool) best' v'"
  using assms
proof (induction "length mempool - n" arbitrary: n best v)
  case (Suc k)
  then have n: "n < length mempool" by simp
  then have "drop n mempool = mempool ! n # drop (Suc n) mempool" by (simp add: Cons_nth_drop_Suc)
  then show ?case
    using Suc n scan_inv_skip [OF Suc.prems(1)] scan_inv_take [OF Suc.prems(1)] by (auto simp: Let_def)
qed simp

lemma find_best_outcome:
  fixes T :: "('tx, 's, 'm) tx_ops" and mempool :: "'tx list"
  defines "val \<equiv> \<lambda>s i. tx_computeValue T (mempool ! i) s"
  assumes "find_best T s rm 0 mempool None worstValue = (best, v)"
  shows "case best of
      None \<Rightarrow> \<forall>j < length mempool. j \<notin> set rm \<longrightarrow> \<not> flt_nonneg (val s j)
    | Some (tx, idx) \<Rightarrow> tx = mempool ! idx \<and> v = val s idx \<and> best_pick (val s) (length mempool) (set rm) idx \<and>
        (\<not> flt_nonneg v \<longrightarrow> (\<forall>j < length mempool. j \<notin> set rm \<longrightarrow> \<not> flt_nonneg (val s j)))"
proof -
  have inv: "scan_inv mempool (val s) rm (length mempool) best v"
    using find_best_inv [of mempool T s rm 0 None worstValue] assms by (simp add: scan_inv_def)
  have "\<not> flt_nonneg (val s j)" if "best \<noteq> None \<longrightarrow> \<not> flt_nonneg v" "j < length mempool" "j \<notin> set rm" for j
    using scan_inv_best [OF inv that(2,3)] inv that(1) flt_less_worst flt_nonneg_le [of v "val s j"]
    by (cases best) (auto simp: scan_inv_def dest: flt_less_not_NaN)
  then show ?thesis
    using inv by (auto simp: scan_inv_def split: option.splits)
qed

subsection \<open>The greedy pass as a sequence of best picks\<close>

text \<open>
  The positions \<open>idxs\<close>, in the order they are picked, are a greedy run: each is the best
  pick at the state its predecessors lead to, and has a value that is not negative.
\<close>

definition greedy_run :: "('tx, 's, 'm) tx_ops \<Rightarrow> 's \<Rightarrow> 'tx list \<Rightarrow> nat list \<Rightarrow> bool" where
  "greedy_run T s mempool idxs \<longleftrightarrow>
     (\<forall>k < length idxs.
        let sim = apply_all T (map ((!) mempool) (take k idxs)) s;
            val = \<lambda>i. tx_computeValue T (mempool ! i) sim
        in best_pick val (length mempool) (set (take k idxs)) (idxs ! k) \<and> flt_nonneg (val (idxs ! k)))"

lemma greedy_run_Nil [simp]: "greedy_run T s mempool []"
  by (simp add: greedy_run_def)

lemma greedy_run_snoc:
  "greedy_run T s mempool (idxs @ [i]) \<longleftrightarrow> greedy_run T s mempool idxs \<and>
     (let sim = apply_all T (map ((!) mempool) idxs) s;
          val = \<lambda>i. tx_computeValue T (mempool ! i) sim
      in best_pick val (length mempool) (set idxs) i \<and> flt_nonneg (val i))"
  unfolding greedy_run_def by (auto simp: Let_def less_Suc_eq nth_append)

lemma greedy_run_distinct:
  "greedy_run T s mempool idxs \<Longrightarrow> distinct idxs \<and> (\<forall>i \<in> set idxs. i < length mempool)"
  by (induction idxs rule: rev_induct) (auto simp: greedy_run_snoc Let_def best_pick_def)

text \<open>Why the pass ends.\<close>

definition greedy_stop ::
  "('tx, 's, 'm) tx_ops \<Rightarrow> u16 \<Rightarrow> u64 \<Rightarrow> (nat \<Rightarrow> u64) \<Rightarrow> 'tx list \<Rightarrow> 's \<Rightarrow> nat list \<Rightarrow> bool" where
  "greedy_stop T maxTransactions deadline clock mempool s idxs \<longleftrightarrow>
     length idxs = unat maxTransactions \<or>
     length idxs = length mempool \<or>
     deadline \<noteq> 0 \<and> idxs \<noteq> [] \<and> deadline \<le> clock (length idxs - 1) \<or>
     (\<forall>j < length mempool. j \<notin> set idxs \<longrightarrow>
        \<not> flt_nonneg (tx_computeValue T (mempool ! j) (apply_all T (map ((!) mempool) idxs) s)))"

lemma greedy_pass_run:
  assumes "greedy_run T s mempool rm" and "sel = map ((!) mempool) rm" and "sim = apply_all T sel s"
    and "n = length rm" and "length rm \<le> unat mx" and "length rm \<le> length mempool"
  shows "\<exists>idxs. greedy_pass T mx deadline clock mempool sim sel rm n = (map ((!) mempool) idxs, idxs) \<and>
    greedy_run T s mempool idxs \<and> length idxs \<le> unat mx \<and> length idxs \<le> length mempool \<and>
    greedy_stop T mx deadline clock mempool s idxs"
  using assms
proof (induction T mx deadline clock mempool sim sel rm n rule: greedy_pass.induct)
  case (1 T mx deadline clock mempool sim sel rm n)
  obtain best v where fb: "find_best T sim rm 0 mempool None worstValue = (best, v)" by fastforce
  note out = find_best_outcome [OF fb]
  let ?stop = "greedy_pass T mx deadline clock mempool sim sel rm n = (sel, rm)"
  show ?case
  proof (cases "length sel < unat mx \<and> length rm < length mempool")
    case False
    then have ?stop by (subst greedy_pass.simps) (simp only: if_False)
    with False "1.prems" show ?thesis by (auto simp: greedy_stop_def)
  next
    case room: True
    show ?thesis
    proof (cases "\<exists>tx idx. best = Some (tx, idx) \<and> flt_nonneg v")
      case False
      then have ?stop using fb room by (subst greedy_pass.simps) (auto split: option.splits)
      moreover have "\<forall>j < length mempool. j \<notin> set rm \<longrightarrow> \<not> flt_nonneg (tx_computeValue T (mempool ! j) sim)"
        using out False by (auto split: option.splits)
      ultimately show ?thesis using "1.prems" by (auto simp: greedy_stop_def)
    next
      case True
      then obtain tx idx where best: "best = Some (tx, idx)" and v: "flt_nonneg v" by blast
      have run: "greedy_run T s mempool (rm @ [idx])"
        using out "1.prems"(1-3) v by (simp add: best greedy_run_snoc)
      have tx: "tx = mempool ! idx" using out by (simp add: best)
      have go: "greedy_pass T mx deadline clock mempool sim sel rm n =
          (if deadline \<noteq> 0 \<and> clock n \<ge> deadline then (sel @ [tx], rm @ [idx])
           else greedy_pass T mx deadline clock mempool (snd (tx_apply T tx sim)) (sel @ [tx]) (rm @ [idx]) (Suc n))"
        using fb room v by (subst greedy_pass.simps) (simp add: best)
      show ?thesis
      proof (cases "deadline \<noteq> 0 \<and> clock n \<ge> deadline")
        case True
        with go run tx "1.prems" room show ?thesis by (auto simp: greedy_stop_def)
      next
        case False
        with "1.IH" [OF room fb [symmetric] best _ v refl refl refl _ run] go tx "1.prems" room
        show ?thesis by auto
      qed
    qed
  qed
qed

lemma buildBlock_run:
  fixes mempool :: "'tx list"
  obtains idxs where
    "buildBlock T clock s mempool mx deadline = (map ((!) mempool) idxs, nths mempool (- set idxs))"
    and "greedy_run T s mempool idxs" and "length idxs \<le> unat mx" and "length idxs \<le> length mempool"
    and "greedy_stop T mx deadline clock mempool s idxs"
proof (cases "mempool = []")
  case True
  then show thesis using that [of "[]"] by (simp add: buildBlock_def greedy_stop_def)
next
  case False
  obtain idxs where run: "greedy_pass T mx deadline clock mempool s [] [] 0 = (map ((!) mempool) idxs, idxs)"
    "greedy_run T s mempool idxs" "length idxs \<le> unat mx" "length idxs \<le> length mempool"
    "greedy_stop T mx deadline clock mempool s idxs"
    using greedy_pass_run [of T s mempool "[]" "[]" s 0 mx deadline clock] by auto
  moreover have "remove_selected (sort_indices idxs) mempool = nths mempool (- set idxs)"
    using greedy_run_distinct [OF run(2)] by (intro remove_sorted_selected) auto
  ultimately show thesis using that [of idxs] False by (simp add: buildBlock_def)
qed

lemma mset_nths_split: "mset (nths xs A) + mset (nths xs (- A)) = mset xs"
proof (induction xs rule: rev_induct)
  case (snoc x xs)
  then show ?case by (auto simp: nths_append)
qed simp

lemma mset_map_nth:
  "distinct idxs \<Longrightarrow> \<forall>i \<in> set idxs. i < length xs \<Longrightarrow> mset (map ((!) xs) idxs) = mset (nths xs (set idxs))"
proof (induction idxs)
  case (Cons i idxs)
  then have i: "i < length xs" by simp
  have xs: "xs = take i xs @ xs ! i # drop (Suc i) xs" using i by (rule id_take_nth_drop)
  have 1: "nths (take i xs) (insert i A) = nths (take i xs) A" for A
    unfolding nths_def using i by (intro arg_cong [where f = "map fst"] filter_cong) (auto simp: set_zip)
  have 2: "{j. Suc j + i \<in> insert i A} = {j. Suc j + i \<in> A}" for A by auto
  have "mset (nths xs (insert i (set idxs))) = add_mset (xs ! i) (mset (nths xs (set idxs)))"
    using i Cons.prems(1) 1 2 by (subst (1 3) xs) (simp add: nths_append nths_Cons min_def)
  with Cons show ?case by simp
qed simp

lemma buildBlock_mset:
  "mset (fst (buildBlock T clock s mempool mx deadline)) +
     mset (snd (buildBlock T clock s mempool mx deadline)) = mset mempool"
proof (rule buildBlock_run [of T clock s mempool mx deadline])
  fix idxs
  assume bb: "buildBlock T clock s mempool mx deadline = (map ((!) mempool) idxs, nths mempool (- set idxs))"
    and run: "greedy_run T s mempool idxs"
  have "mset (map ((!) mempool) idxs) = mset (nths mempool (set idxs))"
    using greedy_run_distinct [OF run] by (intro mset_map_nth) auto
  with bb show ?thesis using mset_nths_split [of mempool "set idxs"] by simp
qed

subsection \<open>Properties\<close>

text \<open>
  C13 (MEVBuilder.buildBlock_partitions): \<open>buildBlock\<close> splits the mempool: the block is made of the
  transactions at pairwise different positions, what stays is the mempool without these
  positions in its old relative order, no transaction is lost or duplicated, and the block
  has at most \<open>maxTransactions\<close> transactions.
\<close>

theorem buildBlock_partitions:
  "\<exists>idxs. distinct idxs \<and> set idxs \<subseteq> {..< length mempool} \<and>
     buildBlock T clock s mempool maxTransactions deadline =
       (map ((!) mempool) idxs, nths mempool (- set idxs)) \<and>
     mset (map ((!) mempool) idxs) + mset (nths mempool (- set idxs)) = mset mempool \<and>
     length idxs \<le> unat maxTransactions"
proof (rule buildBlock_run [of T clock s mempool maxTransactions deadline])
  fix idxs
  assume bb: "buildBlock T clock s mempool maxTransactions deadline =
      (map ((!) mempool) idxs, nths mempool (- set idxs))"
    and run: "greedy_run T s mempool idxs" and len: "length idxs \<le> unat maxTransactions"
  then show ?thesis
    using greedy_run_distinct [OF run] buildBlock_mset [of T clock s mempool maxTransactions deadline]
    by (intro exI [of _ idxs]) auto
qed

text \<open>
  C14 (MEVBuilder.buildBlock_greedy): every pick is the greedy one.  The block lists the transactions at
  positions \<open>idxs\<close> in the order they were picked; at the state reached by the picks before
  it, each has a value that is not negative (hence a number), no transaction still in the
  mempool has a greater value, and those in front of it have a smaller value or NaN: ties go
  to the earliest arrival.  The pass ends only because the block is full, the mempool is
  used up, the deadline has passed, or no remaining transaction has a value at or above zero.
\<close>

theorem buildBlock_greedy:
  "\<exists>idxs. fst (buildBlock T clock s mempool maxTransactions deadline) = map ((!) mempool) idxs \<and>
     (\<forall>k < length idxs.
        let val = \<lambda>i. tx_computeValue T (mempool ! i) (apply_all T (map ((!) mempool) (take k idxs)) s);
            free = {..< length mempool} - set (take k idxs)
        in idxs ! k \<in> free \<and> flt_nonneg (val (idxs ! k)) \<and>
           (\<forall>j \<in> free. \<not> flt_less (val (idxs ! k)) (val j)) \<and>
           (\<forall>j \<in> free. j < idxs ! k \<longrightarrow> flt_less (val j) (val (idxs ! k)) \<or> val j = NaN)) \<and>
     (length idxs = unat maxTransactions \<or> length idxs = length mempool \<or>
      deadline \<noteq> 0 \<and> idxs \<noteq> [] \<and> deadline \<le> clock (length idxs - 1) \<or>
      (\<forall>j \<in> {..< length mempool} - set idxs.
         \<not> flt_nonneg (tx_computeValue T (mempool ! j) (apply_all T (map ((!) mempool) idxs) s))))"
proof (rule buildBlock_run [of T clock s mempool maxTransactions deadline])
  fix idxs
  assume bb: "buildBlock T clock s mempool maxTransactions deadline =
      (map ((!) mempool) idxs, nths mempool (- set idxs))"
    and run: "greedy_run T s mempool idxs"
    and stop: "greedy_stop T maxTransactions deadline clock mempool s idxs"
  have "\<forall>k < length idxs.
        let val = \<lambda>i. tx_computeValue T (mempool ! i) (apply_all T (map ((!) mempool) (take k idxs)) s);
            free = {..< length mempool} - set (take k idxs)
        in idxs ! k \<in> free \<and> flt_nonneg (val (idxs ! k)) \<and>
           (\<forall>j \<in> free. \<not> flt_less (val (idxs ! k)) (val j)) \<and>
           (\<forall>j \<in> free. j < idxs ! k \<longrightarrow> flt_less (val j) (val (idxs ! k)) \<or> val j = NaN)"
    using run by (simp add: greedy_run_def best_pick_def Let_def)
  moreover have "length idxs = unat maxTransactions \<or> length idxs = length mempool \<or>
      deadline \<noteq> 0 \<and> idxs \<noteq> [] \<and> deadline \<le> clock (length idxs - 1) \<or>
      (\<forall>j \<in> {..< length mempool} - set idxs.
         \<not> flt_nonneg (tx_computeValue T (mempool ! j) (apply_all T (map ((!) mempool) idxs) s)))"
    using stop unfolding greedy_stop_def by blast
  ultimately show ?thesis using bb by (intro exI [of _ idxs] conjI) (simp only: fst_conv)
qed

theorem buildBlock_greedy_witness:
  "\<exists>idxs. fst (buildBlock byte_tx (\<lambda>_. 0) 0 [3, 9 :: byte] 1 0) = map ((!) [3, 9]) idxs \<and> length idxs = 1"
proof -
  obtain idxs where idxs: "fst (buildBlock byte_tx (\<lambda>_. 0) 0 [3, 9 :: byte] 1 0) = map ((!) [3, 9]) idxs"
    and stop: "length idxs = 1 \<or> length idxs = 2 \<or>
      (\<forall>j \<in> {..< 2} - set idxs. \<not> flt_nonneg (tx_computeValue byte_tx ([3, 9] ! j) (apply_all byte_tx (map ((!) [3, 9]) idxs) 0)))"
    using buildBlock_greedy [of byte_tx "\<lambda>_. 0" 0 "[3, 9 :: byte]" 1 0] by auto
  have val: "flt_nonneg (tx_computeValue byte_tx x s)" for x s
    by (simp only: byte_tx_def tx_ops.simps flt_nonneg_def flt.case of_nat_0_le_iff)
  have "length (fst (buildBlock byte_tx (\<lambda>_. 0) 0 [3, 9 :: byte] 1 0)) \<le> 1"
    by (rule buildBlock_run [of byte_tx "\<lambda>_. 0" 0 "[3, 9 :: byte]" 1 0]) simp
  then have le: "length idxs \<le> 1" using idxs by simp
  moreover have "idxs \<noteq> []" using stop val by (auto dest: spec [of _ 0])
  ultimately show ?thesis using idxs by (intro exI [of _ idxs]) (cases idxs; auto)
qed

text \<open>
  (sort indices descending): the selection sort of the picked positions terminates with
  a permutation in descending order, which is what lets the removals go from the back of
  the mempool to the front without shifting positions still to be removed.
\<close>

theorem sort_indices_descending:
  "mset (sort_indices xs) = mset xs \<and> sorted_wrt (\<ge>) (sort_indices xs) \<and>
   (distinct xs \<and> set xs \<subseteq> {..< length mempool} \<longrightarrow>
      remove_selected (sort_indices xs) mempool = nths mempool (- set xs))"
  using sort_indices_correct [of xs] remove_sorted_selected [of xs mempool] by auto

theorem sort_indices_descending_witness:
  "remove_selected (sort_indices [1, 3, 0]) ''abcd'' = ''c''"
  using sort_indices_descending [of "[1, 3, 0]" "''abcd''"] by (simp add: nths_Cons)

end
