(* ===== verification/BlockchainFrontend.thy ===== *)
theory BlockchainFrontend
  imports Backend_Crash MEVBuilder
begin

text \<open>
  \<^verbatim>\<open>src/blockchain/BlockchainFrontend.{h,cpp}\<close>: the mempool, the speculative state and the
  block-builder thread on top of the backend.  The clients and the builder thread interleave
  at the critical sections of \<open>mempoolMutex\<close>; the position of the builder thread inside its
  loop is part of the state, and the steps of both sides are a transition relation.
\<close>

text \<open>
  Where the builder thread is: at the loop condition, inside a round in front of its first
  critical section (asleep or reading the clock), in front of \<open>addBlock\<close> with the selected
  transactions, behind an \<open>addBlock\<close> that refused them, behind one that committed them,
  or ended (by the loop condition or by an exception, which terminates the process).
\<close>

datatype 'tx builder_stage = Idle | Round | Built "'tx list" | Refused "'tx list" | Committed | Ended | Crashed

record ('tx, 'k, 'f, 'be) BlockchainFrontend =
  fe_backend :: 'be
  fe_config :: BlockchainConfig
  fe_state :: "('k, 'f) StateOverride"
  fe_mempool :: "'tx list"
  fe_running :: bool
  fe_builder :: "'tx builder_stage"

type_synonym ('tx, 'k, 'f, 'm, 'ts, 'tt, 'b, 't, 'r, 'd) frontend =
  "('tx, 'k, 'f, ('tx, 'k, 'f, 'm, 'ts, ('tt, 'b, 't, 'r, 'd) Catalog) BlockchainBackend) BlockchainFrontend"

definition fe_tx ::
  "('tx, 'k, 'f, 'm, ('tt, 'b, 't, 'r, 'd) Catalog) app_ops \<Rightarrow> ('tx, 'k, 'f, 'm, 'ts, 'tt, 'b, 't, 'r, 'd) frontend \<Rightarrow>
   ('tx, ('k, 'f) StateOverride, 'm) tx_ops" where
  "fe_tx A fe = ap_tx A (bk_catalog (fe_backend fe))"

subsection \<open>The mempool file\<close>

text \<open>
  The calls on \<^verbatim>\<open>mempool.bin\<close>: creating it empty, writing at its start, changing its length,
  mapping it, reading from its start and its size; \<open>None\<close> is a call that fails.
\<close>

record 'm mempool_fs =
  fs_create :: "'m option"
  fs_write :: "byte list \<Rightarrow> 'm \<Rightarrow> 'm"
  fs_truncate :: "nat \<Rightarrow> 'm \<Rightarrow> 'm option"
  fs_map :: "nat \<Rightarrow> 'm \<Rightarrow> 'm option"
  fs_read :: "nat \<Rightarrow> 'm \<Rightarrow> byte list"
  fs_size :: "'m \<Rightarrow> nat"

text \<open>The result is the file as it is left on disk; \<open>None\<close> when it could not be opened.\<close>

definition saveMempool ::
  "'m mmap_ops \<Rightarrow> ('tx, 's, 'm) tx_ops \<Rightarrow> 'm mempool_fs \<Rightarrow> 'tx list \<Rightarrow> 'm option" where
  "saveMempool M T fs mempool =
     (case fs_create fs of
        None \<Rightarrow> None
      | Some fd \<Rightarrow>
          let count = word_of_nat (length mempool) :: u32;
              fd = fs_write fs (le_bytes 4 (unat count)) fd;
              totalSize = sum_list (map (tx_size T) mempool)
          in if totalSize > 0
             then (case fs_truncate fs (4 + totalSize) fd of
                     None \<Rightarrow> Some fd
                   | Some fd \<Rightarrow>
                       (case fs_map fs (4 + totalSize) fd of
                          None \<Rightarrow> Some fd
                        | Some m \<Rightarrow> Some (write_all T mempool (mm_seek M 4 m))))
             else Some fd)"

fun load_transactions ::
  "'m mmap_ops \<Rightarrow> ('tx, 's, 'm) tx_ops \<Rightarrow> ('m, 'tx) TransactionTypeRegistry \<Rightarrow> nat \<Rightarrow> 'm \<Rightarrow> 's \<Rightarrow> 'tx list \<Rightarrow>
   ('s \<times> 'tx list) result" where
  "load_transactions M T reg 0 m state mempool = Inr (state, mempool)"
| "load_transactions M T reg (Suc n) m state mempool =
     (case registry_read M reg m of
        Inl e \<Rightarrow> Inl e
      | Inr (None, m') \<Rightarrow> load_transactions M T reg n m' state mempool
      | Inr (Some tx, m') \<Rightarrow> load_transactions M T reg n m' (snd (tx_apply T tx state)) (mempool @ [tx]))"

definition loadMempool ::
  "'m mmap_ops \<Rightarrow> ('tx, 's, 'm) tx_ops \<Rightarrow> ('m, 'tx) TransactionTypeRegistry \<Rightarrow> 'm mempool_fs \<Rightarrow> 'm option \<Rightarrow> 's \<Rightarrow> 'tx list \<Rightarrow>
   ('s \<times> 'tx list) result" where
  "loadMempool M T reg fs fd state mempool =
     (case fd of
        None \<Rightarrow> Inr (state, mempool)
      | Some fd \<Rightarrow>
          if length (fs_read fs 4 fd) \<noteq> 4 then Inr (state, mempool)
          else let count = le_nat (fs_read fs 4 fd)
               in if count = 0 then Inr (state, mempool)
                  else let fileSize = fs_size fs fd
                       in if fileSize \<le> 4 then Inr (state, mempool)
                          else (case fs_map fs fileSize fd of
                                  None \<Rightarrow> Inr (state, mempool)
                                | Some m \<Rightarrow> load_transactions M T reg count (mm_seek M 4 m) state mempool))"

subsection \<open>Operations of the clients\<close>

definition new_BlockchainFrontend ::
  "('tx, 'k, 'f, 'm, ('tt, 'b, 't, 'r, 'd) Catalog) app_ops \<Rightarrow> 'm mmap_ops \<Rightarrow> 'm mempool_fs \<Rightarrow> 'm option \<Rightarrow>
   ('tx, 'k, 'f, 'm, 'ts, ('tt, 'b, 't, 'r, 'd) Catalog) BlockchainBackend \<Rightarrow> BlockchainConfig \<Rightarrow>
   ('tx, 'k, 'f, 'm, 'ts, 'tt, 'b, 't, 'r, 'd) frontend result" where
  "new_BlockchainFrontend A M fs fd backend config =
     bind_result (newStateOverride A backend) (\<lambda>state.
       bind_result (loadMempool M (ap_tx A (bk_catalog backend)) (bk_txTypes backend) fs fd state []) (\<lambda>(state, mempool).
         Inr \<lparr>fe_backend = backend, fe_config = config, fe_state = state, fe_mempool = mempool,
              fe_running = True, fe_builder = Idle\<rparr>))"

definition sendTransaction ::
  "('tx, 'k, 'f, 'm, ('tt, 'b, 't, 'r, 'd) Catalog) app_ops \<Rightarrow> 'tx \<Rightarrow>
   ('tx, 'k, 'f, 'm, 'ts, 'tt, 'b, 't, 'r, 'd) frontend \<Rightarrow> ('tx, 'k, 'f, 'm, 'ts, 'tt, 'b, 't, 'r, 'd) frontend" where
  "sendTransaction A transaction fe =
     fe\<lparr>fe_state := snd (tx_apply (fe_tx A fe) transaction (fe_state fe)),
        fe_mempool := fe_mempool fe @ [transaction]\<rparr>"

definition rebuildSpeculativeState ::
  "('tx, 'k, 'f, 'm, ('tt, 'b, 't, 'r, 'd) Catalog) app_ops \<Rightarrow>
   ('tx, 'k, 'f, 'm, 'ts, 'tt, 'b, 't, 'r, 'd) frontend \<Rightarrow> ('tx, 'k, 'f, 'm, 'ts, 'tt, 'b, 't, 'r, 'd) frontend result" where
  "rebuildSpeculativeState A fe =
     bind_result (newStateOverride A (fe_backend fe)) (\<lambda>s.
       Inr (fe\<lparr>fe_state := apply_all (fe_tx A fe) (fe_mempool fe) s\<rparr>))"

definition getTransactionById ::
  "('ts, 'tt, 'b, 't, 'r, 'd, 'm) backend_env \<Rightarrow> u64 \<Rightarrow> ('tx, 'k, 'f, 'm, 'ts, 'tt, 'b, 't, 'r, 'd) frontend \<Rightarrow>
   'tx option result \<times> ('tx, 'k, 'f, 'm, 'ts, 'tt, 'b, 't, 'r, 'd) frontend" where
  "getTransactionById N txId fe =
     (let blockNumber = drop_bit 20 txId;
          txIndex = ucast (txId AND 0xFFFFF) :: u32
      in case getBlock N blockNumber (fe_backend fe) of
           (Inl e, b) \<Rightarrow> (Inl e, fe\<lparr>fe_backend := b\<rparr>)
         | (Inr transactions, b) \<Rightarrow>
             (Inr (if unat txIndex < length transactions then Some (transactions ! unat txIndex) else None),
              fe\<lparr>fe_backend := b\<rparr>))"

text \<open>
  The time-window query has two halves: the mempool under \<open>mempoolMutex\<close>, and the backend
  without it.
\<close>

definition window_mempool ::
  "('tx, 'k, 'f, 'm, ('tt, 'b, 't, 'r, 'd) Catalog) app_ops \<Rightarrow> u64 \<Rightarrow> u64 \<Rightarrow>
   ('tx, 'k, 'f, 'm, 'ts, 'tt, 'b, 't, 'r, 'd) frontend \<Rightarrow> 'tx list" where
  "window_mempool A startMillis endMillis fe =
     filter (\<lambda>tx. tx_getTimestamp (fe_tx A fe) tx \<ge> startMillis \<and> tx_getTimestamp (fe_tx A fe) tx \<le> endMillis)
       (fe_mempool fe)"

definition window_committed ::
  "('ts, 'tt, 'b, 't, 'r, 'd, 'm) backend_env \<Rightarrow> u64 \<Rightarrow> u64 \<Rightarrow> 'tx list \<Rightarrow>
   ('tx, 'k, 'f, 'm, 'ts, 'tt, 'b, 't, 'r, 'd) frontend \<Rightarrow>
   ('tx list result \<times> ('tx, 'k, 'f, 'm, 'ts, 'tt, 'b, 't, 'r, 'd) frontend) option" where
  "window_committed N startMillis endMillis results fe =
     (case getTransactionsByTimeWindow N startMillis endMillis (fe_backend fe) of
        None \<Rightarrow> None
      | Some (Inl e, b) \<Rightarrow> Some (Inl e, fe\<lparr>fe_backend := b\<rparr>)
      | Some (Inr committed, b) \<Rightarrow> Some (Inr (results @ committed), fe\<lparr>fe_backend := b\<rparr>))"

text \<open>
  The whole call.  Other threads may run between reading the last block timestamp (in the state
  \<open>fe0\<close>), looking at the mempool (in \<open>fe1\<close>) and asking the backend (in \<open>fe2\<close>).
\<close>

definition fe_getTransactionsByTimeWindow ::
  "('tx, 'k, 'f, 'm, ('tt, 'b, 't, 'r, 'd) Catalog) app_ops \<Rightarrow> ('ts, 'tt, 'b, 't, 'r, 'd, 'm) backend_env \<Rightarrow>
   u64 \<Rightarrow> u64 \<Rightarrow> ('tx, 'k, 'f, 'm, 'ts, 'tt, 'b, 't, 'r, 'd) frontend \<Rightarrow>
   ('tx, 'k, 'f, 'm, 'ts, 'tt, 'b, 't, 'r, 'd) frontend \<Rightarrow> ('tx, 'k, 'f, 'm, 'ts, 'tt, 'b, 't, 'r, 'd) frontend \<Rightarrow>
   ('tx list result \<times> ('tx, 'k, 'f, 'm, 'ts, 'tt, 'b, 't, 'r, 'd) frontend) option" where
  "fe_getTransactionsByTimeWindow A N startMillis endMillis fe0 fe1 fe2 =
     (let results = (if getLastBlockTimestamp (fe_backend fe0) < endMillis
                     then window_mempool A startMillis endMillis fe1 else [])
      in window_committed N startMillis endMillis results fe2)"

subsection \<open>The builder thread\<close>

text \<open>
  The first critical section of a round: with an empty mempool, or when nothing was selected,
  the round is over.  The throughput is passed as a 16-bit argument.
\<close>

definition builder_select ::
  "('tx, 'k, 'f, 'm, ('tt, 'b, 't, 'r, 'd) Catalog) app_ops \<Rightarrow> (nat \<Rightarrow> u64) \<Rightarrow> u64 \<Rightarrow>
   ('tx, 'k, 'f, 'm, 'ts, 'tt, 'b, 't, 'r, 'd) frontend \<Rightarrow> ('tx, 'k, 'f, 'm, 'ts, 'tt, 'b, 't, 'r, 'd) frontend" where
  "builder_select A clock now fe =
     (let deadline = now + 10
      in if length (fe_mempool fe) > 0
         then (case newStateOverride A (fe_backend fe) of
                 Inl e \<Rightarrow> fe\<lparr>fe_builder := Crashed\<rparr>
               | Inr simState \<Rightarrow>
                   (case buildBlock (fe_tx A fe) clock simState (fe_mempool fe)
                           (ucast (cg_targetThroughput (fe_config fe))) deadline of
                      (toBuild, mempool) \<Rightarrow>
                        fe\<lparr>fe_mempool := mempool,
                           fe_builder := (if length toBuild > 0 then Built toBuild else Idle)\<rparr>))
         else fe\<lparr>fe_builder := Idle\<rparr>)"

definition builder_commit ::
  "('tx, 'k, 'f, 'm, ('tt, 'b, 't, 'r, 'd) Catalog) app_ops \<Rightarrow> ('ts, 'tt, 'b, 't, 'r, 'd, 'm) backend_env \<Rightarrow>
   (nat \<Rightarrow> u64 \<times> u64) \<Rightarrow> u64 \<Rightarrow> 'tx list \<Rightarrow>
   ('tx, 'k, 'f, 'm, 'ts, 'tt, 'b, 't, 'r, 'd) frontend \<Rightarrow> ('tx, 'k, 'f, 'm, 'ts, 'tt, 'b, 't, 'r, 'd) frontend option" where
  "builder_commit A N clock millis toBuild fe =
     (case addBlock A N clock millis toBuild (fe_backend fe) of
        None \<Rightarrow> None
      | Some (Inl e, b) \<Rightarrow> Some (fe\<lparr>fe_backend := b, fe_builder := Crashed\<rparr>)
      | Some (Inr blockNumber, b) \<Rightarrow>
          Some (fe\<lparr>fe_backend := b, fe_builder := (if blockNumber = - 1 then Refused toBuild else Committed)\<rparr>))"

definition builder_putback ::
  "'tx list \<Rightarrow> ('tx, 'k, 'f, 'be) BlockchainFrontend \<Rightarrow> ('tx, 'k, 'f, 'be) BlockchainFrontend" where
  "builder_putback toBuild fe = fe\<lparr>fe_mempool := fe_mempool fe @ toBuild, fe_builder := Idle\<rparr>"

definition builder_rebuild ::
  "('tx, 'k, 'f, 'm, ('tt, 'b, 't, 'r, 'd) Catalog) app_ops \<Rightarrow>
   ('tx, 'k, 'f, 'm, 'ts, 'tt, 'b, 't, 'r, 'd) frontend \<Rightarrow> ('tx, 'k, 'f, 'm, 'ts, 'tt, 'b, 't, 'r, 'd) frontend" where
  "builder_rebuild A fe =
     (case rebuildSpeculativeState A fe of
        Inl e \<Rightarrow> fe\<lparr>fe_builder := Crashed\<rparr>
      | Inr fe' \<Rightarrow> fe'\<lparr>fe_builder := Idle\<rparr>)"

text \<open>
  The destructor stops the thread and, once the thread has ended (\<open>None\<close> while it has not:
  \<open>join\<close> waits), writes the mempool file.
\<close>

definition stop_frontend :: "('tx, 'k, 'f, 'be) BlockchainFrontend \<Rightarrow> ('tx, 'k, 'f, 'be) BlockchainFrontend" where
  "stop_frontend fe = fe\<lparr>fe_running := False\<rparr>"

definition destroy_frontend ::
  "('tx, 'k, 'f, 'm, ('tt, 'b, 't, 'r, 'd) Catalog) app_ops \<Rightarrow> 'm mmap_ops \<Rightarrow> 'm mempool_fs \<Rightarrow>
   ('tx, 'k, 'f, 'm, 'ts, 'tt, 'b, 't, 'r, 'd) frontend \<Rightarrow> 'm option option" where
  "destroy_frontend A M fs fe =
     (if fe_builder fe = Ended then Some (saveMempool M (fe_tx A fe) fs (fe_mempool fe)) else None)"

definition getMempoolSize :: "('tx, 'k, 'f, 'be) BlockchainFrontend \<Rightarrow> nat" where
  "getMempoolSize fe = length (fe_mempool fe)"

text \<open>The height is a \<open>long\<close> that is returned as an \<open>int\<close>.\<close>

definition fe_getBlockHeight :: "('tx, 'k, 'f, 'm, 'ts, 'tt, 'b, 't, 'r, 'd) frontend \<Rightarrow> int" where
  "fe_getBlockHeight fe = sint (word_of_int (getBlockHeight (fe_backend fe)) :: 32 word)"

definition getState :: "('tx, 'k, 'f, 'be) BlockchainFrontend \<Rightarrow> ('k, 'f) StateOverride" where
  "getState fe = fe_state fe"

subsection \<open>Interleaved runs\<close>

text \<open>
  One step of the system shows what happened in it: a submitted transaction, or a call of
  \<open>addBlock\<close> by the builder, whatever its outcome.  The loop condition is tested before the builder
  sleeps, so a round that has begun is finished also when the frontend has been stopped in between.
  A crashed builder ends the process, so nothing follows it.
\<close>

datatype ('tx, 'be) fe_event = Sent 'tx | Tried "('tx, 'be) attempt"

type_synonym ('tx, 'k, 'f, 'm, 'ts, 'tt, 'b, 't, 'r, 'd) frontend_event =
  "('tx, ('tx, 'k, 'f, 'm, 'ts, ('tt, 'b, 't, 'r, 'd) Catalog) BlockchainBackend) fe_event"

inductive fe_step ::
  "('tx, 'k, 'f, 'm, ('tt, 'b, 't, 'r, 'd) Catalog) app_ops \<Rightarrow> ('ts, 'tt, 'b, 't, 'r, 'd, 'm) backend_env \<Rightarrow>
   ('tx, 'k, 'f, 'm, 'ts, 'tt, 'b, 't, 'r, 'd) frontend \<Rightarrow>
   ('tx, 'k, 'f, 'm, 'ts, 'tt, 'b, 't, 'r, 'd) frontend_event list \<Rightarrow>
   ('tx, 'k, 'f, 'm, 'ts, 'tt, 'b, 't, 'r, 'd) frontend \<Rightarrow> bool"
  for A N where
  fe_send: "fe_builder fe \<noteq> Crashed \<Longrightarrow> fe_step A N fe [Sent tx] (sendTransaction A tx fe)"
| fe_wake: "fe_builder fe = Idle \<Longrightarrow> fe_running fe \<Longrightarrow> fe_step A N fe [] (fe\<lparr>fe_builder := Round\<rparr>)"
| fe_select: "fe_builder fe = Round \<Longrightarrow> fe_step A N fe [] (builder_select A clk now fe)"
| fe_commit: "fe_builder fe = Built txs \<Longrightarrow> addBlock A N clock millis txs (fe_backend fe) = Some (r, b) \<Longrightarrow>
    builder_commit A N clock millis txs fe = Some fe' \<Longrightarrow>
    fe_step A N fe [Tried (Attempt millis txs (fe_backend fe) r b)] fe'"
| fe_putback: "fe_builder fe = Refused txs \<Longrightarrow> fe_step A N fe [] (builder_putback txs fe)"
| fe_rebuild: "fe_builder fe = Committed \<Longrightarrow> fe_step A N fe [] (builder_rebuild A fe)"
| fe_stop: "fe_builder fe \<noteq> Crashed \<Longrightarrow> fe_step A N fe [] (stop_frontend fe)"
| fe_finish: "fe_builder fe = Idle \<Longrightarrow> \<not> fe_running fe \<Longrightarrow> fe_step A N fe [] (fe\<lparr>fe_builder := Ended\<rparr>)"
| fe_byId: "fe_builder fe \<noteq> Crashed \<Longrightarrow> getTransactionById N n fe = (q, fe') \<Longrightarrow> fe_step A N fe [] fe'"
| fe_window: "fe_builder fe \<noteq> Crashed \<Longrightarrow> window_committed N s t results fe = Some (r, fe') \<Longrightarrow> fe_step A N fe [] fe'"
| fe_background: "fe_builder fe \<noteq> Crashed \<Longrightarrow> task_step (be_catalog N) (bk_catalog (fe_backend fe)) cat' \<Longrightarrow>
    fe_step A N fe [] (fe\<lparr>fe_backend := (fe_backend fe)\<lparr>bk_catalog := cat'\<rparr>\<rparr>)"

abbreviation fe_run where
  "fe_run A N \<equiv> labelled_run (fe_step A N)"

text \<open>
  What a run shows: the submitted transactions, the blocks whose \<open>addBlock\<close> returned a number other
  than -1, and whether each call of \<open>addBlock\<close> that reached the commit had room.
\<close>

primrec sent :: "('tx, 'be) fe_event list \<Rightarrow> 'tx list" where
  "sent [] = []"
| "sent (e # es) = (case e of Sent tx \<Rightarrow> tx # sent es | Tried a \<Rightarrow> sent es)"

definition accepts :: "('tx, 'be) attempt \<Rightarrow> bool" where
  "accepts a \<longleftrightarrow> (case at_answer a of Inl e \<Rightarrow> False | Inr k \<Rightarrow> k \<noteq> - 1)"

primrec accepted :: "('tx, 'be) fe_event list \<Rightarrow> 'tx block list" where
  "accepted [] = []"
| "accepted (e # es) =
     (case e of Sent tx \<Rightarrow> accepted es
      | Tried a \<Rightarrow> if accepts a then (at_millis a, at_block a) # accepted es else accepted es)"

definition all_roomy ::
  "('ts, 'tt, 'b, 't, 'r, 'd, 'm) backend_env \<Rightarrow> 'm mmap_view \<Rightarrow> ('tx \<Rightarrow> byte list) \<Rightarrow>
   ('tx, ('tx, 'k, 'f, 'm, 'ts, 'cat) BlockchainBackend) fe_event list \<Rightarrow> bool" where
  "all_roomy N V enc es \<longleftrightarrow> (\<forall>a. Tried a \<in> set es \<longrightarrow> roomy N V enc a)"

lemma event_append [simp]:
  "sent (es @ fs) = sent es @ sent fs" "accepted (es @ fs) = accepted es @ accepted fs"
  "all_roomy N V enc (es @ fs) \<longleftrightarrow> all_roomy N V enc es \<and> all_roomy N V enc fs" "all_roomy N V enc []"
  by (induction es) (auto simp: all_roomy_def split: fe_event.splits)

text \<open>Transactions taken out of the mempool whose fate is open.\<close>

fun in_flight :: "'tx builder_stage \<Rightarrow> 'tx list" where
  "in_flight (Built txs) = txs"
| "in_flight (Refused txs) = txs"
| "in_flight _ = []"

definition pending :: "('tx, 'k, 'f, 'be) BlockchainFrontend \<Rightarrow> 'tx multiset" where
  "pending fe = mset (fe_mempool fe) + mset (in_flight (fe_builder fe))"

definition block_txs :: "'tx block list \<Rightarrow> 'tx multiset" where
  "block_txs bs = mset (concat (map snd bs))"

text \<open>What a frontend's backend holds, with timestamps below the maximal value.\<close>

definition fe_chain ::
  "('tx, 'k, 'f, 'm, ('tt, 'b, 't, 'r, 'd) Catalog) app_ops \<Rightarrow> ('ts, 'tt, 'b, 't, 'r, 'd, 'm) backend_env \<Rightarrow>
   'm mmap_view \<Rightarrow> ('tx \<Rightarrow> byte list) \<Rightarrow> ('ts \<Rightarrow> bool) \<Rightarrow> ('ts \<Rightarrow> block_timestamp_entry_t set) \<Rightarrow>
   ('tx, 'k, 'f, 'm, 'ts, 'tt, 'b, 't, 'r, 'd) frontend \<Rightarrow> 'tx block list \<Rightarrow> bool" where
  "fe_chain A N V enc okT cont fe bs \<longleftrightarrow>
     backend_contract A N (bk_txTypes (fe_backend fe)) V enc okT cont \<and>
     chain_holds V enc okT cont (fe_backend fe) bs \<and> (\<forall>x \<in> set bs. fst x \<noteq> - 1)"

lemma fe_chain_same: "fe_backend fe' = fe_backend fe \<Longrightarrow> fe_chain A N V enc okT cont fe' bs = fe_chain A N V enc okT cont fe bs"
  by (simp add: fe_chain_def)

lemma fe_chain_backend: "fe_chain A N V enc okT cont fe bs \<longleftrightarrow> committed_chain A N V enc okT cont (fe_backend fe) bs"
  by (simp add: fe_chain_def committed_chain_def)

lemma fe_chain_read:
  assumes "fe_chain A N V enc okT cont fe bs"
    and "getBlock N n (fe_backend fe) = (r, fe_backend fe') \<or>
      getTransactionsByTimeWindow N s t (fe_backend fe) = Some (q, fe_backend fe')"
  shows "fe_chain A N V enc okT cont fe' bs"
  using assms(2)
proof
  note C = assms(1) [unfolded fe_chain_def]
  assume "getBlock N n (fe_backend fe) = (r, fe_backend fe')"
  then show ?thesis using getBlock_keeps_chain [of A N "fe_backend fe" V enc okT cont bs n r "fe_backend fe'"] C
    by (simp add: fe_chain_def)
next
  note C = assms(1) [unfolded fe_chain_def]
  assume "getTransactionsByTimeWindow N s t (fe_backend fe) = Some (q, fe_backend fe')"
  then show ?thesis using window_keeps_chain [of A N "fe_backend fe" V enc okT cont bs s t q "fe_backend fe'"] C
    by (simp add: fe_chain_def)
qed

text \<open>One lemma per kind of step: what it does to the pending transactions and the chain.\<close>

lemma builder_select_pending:
  assumes "fe_builder fe = Round"
  shows "fe_backend (builder_select A clk now fe) = fe_backend fe" and "pending (builder_select A clk now fe) = pending fe"
proof -
  have bb: "mset txs + mset mempool = mset (fe_mempool fe)"
    if "buildBlock (fe_tx A fe) clk sim (fe_mempool fe) mx deadline = (txs, mempool)" for sim mx deadline txs mempool
    using buildBlock_mset [of "fe_tx A fe" clk sim "fe_mempool fe" mx deadline] that by simp
  show "fe_backend (builder_select A clk now fe) = fe_backend fe"
    by (auto simp: builder_select_def Let_def split: sum.splits prod.splits)
  show "pending (builder_select A clk now fe) = pending fe"
    using assms by (auto simp: builder_select_def Let_def pending_def add.commute split: sum.splits prod.splits dest: bb)
qed

lemma builder_commit_cases:
  assumes "addBlock A N clock millis txs (fe_backend fe) = Some (r, b)" and "builder_commit A N clock millis txs fe = Some fe'"
  shows "fe_backend fe' = b" and "fe_mempool fe' = fe_mempool fe"
    and "fe_builder fe' = (case r of Inl e \<Rightarrow> Crashed | Inr k \<Rightarrow> if k = - 1 then Refused txs else Committed)"
  using assms by (auto simp: builder_commit_def split: option.splits sum.splits)

lemma builder_commit_chain:
  assumes chain: "fe_chain A N V enc okT cont fe bs" and room: "roomy N V enc (Attempt millis txs (fe_backend fe) r b)"
    and add: "addBlock A N clock millis txs (fe_backend fe) = Some (r, b)"
    and run: "builder_commit A N clock millis txs fe = Some fe'"
  obtains (kept) "fe_chain A N V enc okT cont fe' bs" "\<forall>k. r = Inr k \<longrightarrow> k = - 1 \<and> 0 < length txs \<and> length txs \<noteq> 1024"
  | (appended) "fe_chain A N V enc okT cont fe' (bs @ [(millis, txs)])" "\<forall>k. r = Inr k \<longrightarrow> k \<noteq> - 1" "b \<noteq> fe_backend fe"
proof -
  note C = chain [unfolded fe_chain_def] and out = builder_commit_cases [OF add run]
  from C have "backend_contract A N (bk_txTypes (fe_backend fe)) V enc okT cont" "chain_holds V enc okT cont (fe_backend fe) bs"
    by blast+
  from this add room show thesis
  proof (cases rule: addBlock_roomy)
    case kept
    with C out(1) show thesis by (intro that(1)) (simp_all add: fe_chain_def)
  next
    case appended
    with C out(1) show thesis by (intro that(2)) (auto simp: fe_chain_def)
  qed
qed

text \<open>The kinds of steps; all but four leave mempool and builder as they are, and the backend's blocks.\<close>

lemma fe_step_kinds:
  assumes step: "fe_step A N fe es fe'"
  obtains (send) tx where "es = [Sent tx]" "fe' = sendTransaction A tx fe"
  | (select) clk now where "es = []" "fe_builder fe = Round" "fe' = builder_select A clk now fe"
  | (commit) txs clock millis r b where "fe_builder fe = Built txs" "es = [Tried (Attempt millis txs (fe_backend fe) r b)]"
      "addBlock A N clock millis txs (fe_backend fe) = Some (r, b)" "builder_commit A N clock millis txs fe = Some fe'"
  | (putback) txs where "es = []" "fe_builder fe = Refused txs" "fe' = builder_putback txs fe"
  | (quiet) "es = []" "fe_mempool fe' = fe_mempool fe" "in_flight (fe_builder fe') = in_flight (fe_builder fe)"
      "\<And>txs. fe_builder fe' = Refused txs \<Longrightarrow> fe_builder fe = Refused txs"
      "\<And>V enc okT cont bs. fe_chain A N V enc okT cont fe bs \<Longrightarrow> fe_chain A N V enc okT cont fe' bs"
  using step
proof cases
  case fe_rebuild
  then have "fe_backend fe' = fe_backend fe" "fe_mempool fe' = fe_mempool fe" "fe_builder fe' \<in> {Idle, Crashed}"
    by (cases "newStateOverride A (fe_backend fe)"; simp add: builder_rebuild_def rebuildSpeculativeState_def)+
  then show thesis using fe_rebuild by (intro quiet) (auto simp: fe_chain_def)
next
  case (fe_byId n q)
  then obtain r where "getBlock N (drop_bit 20 n) (fe_backend fe) = (r, fe_backend fe')"
      "fe_mempool fe' = fe_mempool fe" "fe_builder fe' = fe_builder fe"
    by (auto simp: getTransactionById_def Let_def split: prod.splits sum.splits)
  then show thesis using fe_chain_read [OF _ disjI1] fe_byId(1) by (intro quiet) auto
next
  case (fe_window s t results r)
  then obtain q where "getTransactionsByTimeWindow N s t (fe_backend fe) = Some (q, fe_backend fe')"
      "fe_mempool fe' = fe_mempool fe" "fe_builder fe' = fe_builder fe"
    by (auto simp: window_committed_def split: option.splits prod.splits sum.splits)
  then show thesis using fe_chain_read [OF _ disjI2] fe_window(1) by (intro quiet) auto
next
  case (fe_commit txs clock millis r b)
  then show thesis by (intro commit)
next
  case (fe_background cat')
  then show thesis by (intro quiet) (simp_all add: fe_chain_def chain_holds_def)
next
  case fe_stop
  then show thesis by (intro quiet) (simp_all add: stop_frontend_def fe_chain_def)
next
  case fe_wake
  then show thesis by (intro quiet) (simp_all add: fe_chain_def)
next
  case fe_finish
  then show thesis by (intro quiet) (simp_all add: fe_chain_def)
qed (erule send select putback; assumption)+

lemma fe_step_pending:
  assumes step: "fe_step A N fe es fe'" and alive: "fe_builder fe' \<noteq> Crashed"
  shows "pending fe' + block_txs (accepted es) = pending fe + mset (sent es)"
  using step
proof (cases rule: fe_step_kinds)
  case (commit txs clock millis r b)
  then show ?thesis using builder_commit_cases [OF commit(3,4)] alive
    by (auto simp: pending_def block_txs_def accepts_def split: sum.splits if_splits)
next
  case (select clk now)
  then show ?thesis using builder_select_pending(2) [OF select(2), of A clk now] by (simp add: block_txs_def)
qed (simp_all add: sendTransaction_def builder_putback_def pending_def block_txs_def)

lemma fe_step_chain:
  assumes step: "fe_step A N fe es fe'" and chain: "fe_chain A N V enc okT cont fe bs" and room: "all_roomy N V enc es"
  shows "\<exists>ext. fe_chain A N V enc okT cont fe' (bs @ ext) \<and> (fe_builder fe' \<noteq> Crashed \<longrightarrow> ext = accepted es)"
proof -
  have same: ?thesis if "fe_chain A N V enc okT cont fe' bs" and "accepted es = []"
    using that by (intro exI [of _ "[]"]) simp
  from step show ?thesis
  proof (cases rule: fe_step_kinds)
    case (commit txs clock millis r b)
    note out = builder_commit_cases(3) [OF commit(3,4)]
    have "roomy N V enc (Attempt millis txs (fe_backend fe) r b)" using room commit(2) by (simp add: all_roomy_def)
    from chain this commit(3,4) show ?thesis
    proof (cases rule: builder_commit_chain)
      case kept
      then show ?thesis using commit(2) by (intro same) (auto simp: accepts_def split: sum.splits)
    next
      case appended
      then show ?thesis using commit(2) out
        by (intro exI [of _ "[(millis, txs)]"]) (auto simp: accepts_def split: sum.splits)
    qed
  next
    case (select clk now)
    then show ?thesis using chain builder_select_pending(1) [OF select(2), of A clk now] by (intro same) (simp_all add: fe_chain_def)
  next
    case quiet
    then show ?thesis using chain by (intro same) simp_all
  qed (rule same; use chain in \<open>simp add: fe_chain_def sendTransaction_def builder_putback_def\<close>)+
qed

lemma fe_step_alive: "fe_step A N fe es fe' \<Longrightarrow> fe_builder fe \<noteq> Crashed"
  by (auto elim: fe_step.cases)

lemma fe_run_alive: "fe_run A N fe es fe' \<Longrightarrow> fe_builder fe' \<noteq> Crashed \<Longrightarrow> fe_builder fe \<noteq> Crashed"
  by (induction rule: labelled_run.induct) (auto dest: fe_step_alive)

lemma fe_run_pending:
  assumes "fe_run A N fe es fe'" and "fe_builder fe' \<noteq> Crashed"
  shows "pending fe' + block_txs (accepted es) = pending fe + mset (sent es)"
  using assms
proof (induction rule: labelled_run.induct)
  case (labelled_step fe es fe1 fs fe2)
  have 1: "pending fe1 + block_txs (accepted es) = pending fe + mset (sent es)"
    using labelled_step fe_step_alive by blast
  have 2: "pending fe2 + block_txs (accepted fs) = pending fe1 + mset (sent fs)"
    by (rule fe_step_pending [OF labelled_step.hyps(2) labelled_step.prems])
  have "pending fe2 + (x + x') = pending fe + (y + y')" if "pending fe2 + x' = pending fe1 + y'" "pending fe1 + x = pending fe + y"
    for x x' y y' using that by (metis add.assoc add.commute)
  from this [OF 2 1] show ?case by (simp add: block_txs_def)
qed (simp add: block_txs_def)

lemma fe_run_chain:
  assumes "fe_run A N fe es fe'" and "fe_chain A N V enc okT cont fe bs" and "all_roomy N V enc es"
  shows "\<exists>ext. fe_chain A N V enc okT cont fe' (bs @ ext) \<and> (fe_builder fe' \<noteq> Crashed \<longrightarrow> ext = accepted es)"
  using assms
proof (induction rule: labelled_run.induct)
  case (labelled_step fe es fe1 fs fe2)
  then have ext: "fe_chain A N V enc okT cont fe1 (bs @ accepted es)" using fe_step_alive by fastforce
  have "all_roomy N V enc fs" using labelled_step.prems by simp
  from fe_step_chain [OF labelled_step.hyps(2) ext this] show ?case by auto
qed (auto intro: exI [of _ "[]"])

text \<open>
  C1 (BlockchainFrontend.frontend_conserves_transactions): in every interleaving of client submissions, reads, \<open>stop\<close>,
  builder rounds (selection, a call of \<open>addBlock\<close> with any outcome, putting back, rebuilding) and
  background writes, as long as the builder has not died from an exception, every transaction that was
  pending at the start or submitted since is, with its multiplicity, in exactly one of the
  mempool, the block being built, and the blocks for which \<open>addBlock\<close> returned a number.  This
  needs nothing of the files.  If moreover the backend held the chain \<open>bs\<close> at the start and every
  call of \<open>addBlock\<close> that reached the commit had room (the epoch file opens, the block fits into its
  mapping, the height is below 2^48 and the clock not at its maximal value), the backend holds at the
  end \<open>bs\<close> followed by exactly these blocks: none is lost and none is committed twice.  (A builder that
  died inside \<open>addBlock\<close> leaves \<open>bs\<close> or an extension of it.)
\<close>

theorem frontend_conserves_transactions:
  assumes "fe_run A N fe es fe'"
  shows "(fe_builder fe' \<noteq> Crashed \<longrightarrow> pending fe' + block_txs (accepted es) = pending fe + mset (sent es)) \<and>
    (fe_chain A N V enc okT cont fe bs \<and> all_roomy N V enc es \<longrightarrow>
       (\<exists>ext. fe_chain A N V enc okT cont fe' (bs @ ext) \<and> (fe_builder fe' \<noteq> Crashed \<longrightarrow> ext = accepted es)))"
  using fe_run_pending [OF assms] fe_run_chain [OF assms] by blast

subsection \<open>The speculative state\<close>

lemma send_all_state:
  "fe_state (fold (sendTransaction A) txs fe) = apply_all (fe_tx A fe) txs (fe_state fe) \<and>
   fe_mempool (fold (sendTransaction A) txs fe) = fe_mempool fe @ txs \<and>
   fe_backend (fold (sendTransaction A) txs fe) = fe_backend fe"
proof (induction txs arbitrary: fe)
  case (Cons tx txs)
  from Cons.IH [of "sendTransaction A tx fe"] show ?case by (simp add: sendTransaction_def fe_tx_def)
qed simp

text \<open>
  C24 (BlockchainFrontend.speculative_state_exact): after the speculative state has been rebuilt and any
  transactions have been submitted, the state clients see is a fresh override on the committed
  chain with the whole mempool applied to it, in mempool order.
\<close>

theorem speculative_state_exact:
  assumes "rebuildSpeculativeState A fe = Inr fe'" and "fe'' = fold (sendTransaction A) txs fe'"
  shows "\<exists>s. newStateOverride A (fe_backend fe'') = Inr s \<and> fe_mempool fe'' = fe_mempool fe @ txs \<and>
    fe_state fe'' = apply_all (fe_tx A fe'') (fe_mempool fe'') s"
proof -
  from assms(1) obtain s where s: "newStateOverride A (fe_backend fe) = Inr s"
    and fe': "fe' = fe\<lparr>fe_state := apply_all (fe_tx A fe) (fe_mempool fe) s\<rparr>"
    by (cases "newStateOverride A (fe_backend fe)") (auto simp: rebuildSpeculativeState_def)
  then show ?thesis
    using send_all_state [of A txs fe'] assms(2) by (simp add: fe_tx_def)
qed

text \<open>
  (refused block reorders): when the block a round selected is refused, the speculative
  state stays the one of the old mempool order although the mempool now has the unselected
  transactions first, in order, and behind them the selected ones in the order they were
  picked.
\<close>

theorem refused_block_reorders:
  assumes "fe_builder (builder_select A clk now fe) = Built txs"
    and "fe' = builder_putback txs (builder_select A clk now fe)" and "fe_builder fe = Round"
  shows "fe_state fe' = fe_state fe \<and> mset (fe_mempool fe') = mset (fe_mempool fe) \<and>
    (\<exists>idxs. distinct idxs \<and> txs = map ((!) (fe_mempool fe)) idxs \<and>
       fe_mempool fe' = nths (fe_mempool fe) (- set idxs) @ txs)"
proof -
  from assms(1,3) obtain sim where sim: "newStateOverride A (fe_backend fe) = Inr sim" "fe_mempool fe \<noteq> []"
    by (auto simp: builder_select_def Let_def split: if_splits sum.splits)
  let ?mx = "ucast (cg_targetThroughput (fe_config fe)) :: u16"
  from buildBlock_run [of "fe_tx A fe" clk sim "fe_mempool fe" ?mx "now + 10"] obtain idxs
    where bb: "buildBlock (fe_tx A fe) clk sim (fe_mempool fe) ?mx (now + 10) =
      (map ((!) (fe_mempool fe)) idxs, nths (fe_mempool fe) (- set idxs))"
      and run: "greedy_run (fe_tx A fe) sim (fe_mempool fe) idxs" by metis
  have "txs = map ((!) (fe_mempool fe)) idxs" "fe_mempool fe' = nths (fe_mempool fe) (- set idxs) @ txs"
      "fe_state fe' = fe_state fe"
    using assms(1,2) by (auto simp: builder_select_def Let_def sim bb builder_putback_def split: if_splits)
  moreover have "mset (fe_mempool fe') = mset (fe_mempool fe)"
    using buildBlock_mset [of "fe_tx A fe" clk sim "fe_mempool fe" ?mx "now + 10"] calculation by (simp add: bb add.commute)
  ultimately show ?thesis using greedy_run_distinct [OF run] by blast
qed

text \<open>
  (throughput truncated): the configured throughput reaches the builder modulo 65536; when
  that is 0 no round ever selects a transaction, whatever the mempool holds.
\<close>

theorem throughput_truncated:
  assumes "unat (cg_targetThroughput (fe_config fe)) mod 65536 = 0"
    and "newStateOverride A (fe_backend fe) = Inr s"
  shows "builder_select A clk now fe = fe\<lparr>fe_builder := Idle\<rparr>"
proof -
  have "unat (ucast (cg_targetThroughput (fe_config fe)) :: u16) = 0"
    using assms(1) by (simp add: unat_ucast_u32_u16)
  then have "(ucast (cg_targetThroughput (fe_config fe)) :: u16) = 0" by (simp only: unat_eq_0)
  then have "buildBlock (fe_tx A fe) clk s (fe_mempool fe) (ucast (cg_targetThroughput (fe_config fe))) (now + 10) = ([], fe_mempool fe)"
    by (simp add: buildBlock_def greedy_pass.simps remove_selected_def sort_indices_def)
  then show ?thesis using assms(2) by (simp add: builder_select_def)
qed

subsection \<open>The mempool file\<close>

lemma load_transactions_stored:
  assumes M: "mmap_contract M V" and T: "tx_codec T (factories reg) V enc"
    and "vw_pos V m + length (enc_all enc txs) \<le> vw_cap V m"
    and "mem_load (vw_mem V m) (vw_pos V m) (length (enc_all enc txs)) = enc_all enc txs"
  shows "load_transactions M T' reg (length txs) m s mp = Inr (apply_all T' txs s, mp @ txs)"
  using assms(3,4)
proof (induction txs arbitrary: m s mp)
  case (Cons x txs)
  have parts: "mem_load (vw_mem V m) (vw_pos V m) (length (enc x)) = enc x"
    "mem_load (vw_mem V m) (vw_pos V m + length (enc x)) (length (enc_all enc txs)) = enc_all enc txs"
    using Cons.prems(2) by (simp_all add: mem_load_append)
  from registry_read_stored [OF M T, of m x] parts(1) Cons.prems(1) obtain m'
    where m': "registry_read M reg m = Inr (Some x, m')" "vw_mem V m' = vw_mem V m"
      "vw_pos V m' = vw_pos V m + length (enc x)" "vw_cap V m' = vw_cap V m" by auto
  with Cons.IH [of m'] Cons.prems(1) parts(2) show ?case by simp
qed simp

lemma enc_all_length:
  assumes "tx_codec T reg V enc"
  shows "length txs \<le> length (enc_all enc txs)"
proof (induction txs)
  case (Cons x txs)
  have "0 < length (enc x)" using codec_head [OF assms, of x] by (metis length_greater_0_conv list.distinct(1))
  with Cons.IH show ?case unfolding enc_all_simps length_append list.size by linarith
qed simp

lemma sum_list_sizes:
  assumes "tx_codec T reg V enc"
  shows "sum_list (map (tx_size T) txs) = length (enc_all enc txs)"
  by (induction txs) (simp_all add: codec_size [OF assms])

text \<open>What the calls on the file do when they succeed, and a file system in which they do.\<close>

definition fs_contract :: "'m mempool_fs \<Rightarrow> 'm mmap_view \<Rightarrow> bool" where
  "fs_contract fs V \<longleftrightarrow>
     (\<forall>f. fs_create fs = Some f \<longrightarrow> vw_cap V f = 0) \<and>
     (\<forall>bs f. vw_cap V f = 0 \<longrightarrow>
        vw_mem V (fs_write fs bs f) = mem_store (vw_mem V f) 0 bs \<and> vw_cap V (fs_write fs bs f) = length bs) \<and>
     (\<forall>n f f'. fs_truncate fs n f = Some f' \<longrightarrow> vw_cap V f' = n \<and>
        (\<forall>a < n. vw_mem V f' a = (if a < vw_cap V f then vw_mem V f a else 0))) \<and>
     (\<forall>n f m. fs_map fs n f = Some m \<longrightarrow> vw_mem V m = vw_mem V f \<and> vw_cap V m = n) \<and>
     (\<forall>n f. fs_read fs n f = mem_load (vw_mem V f) 0 (min n (vw_cap V f))) \<and>
     (\<forall>f. fs_size fs f = vw_cap V f)"

definition fs_works :: "'m mempool_fs \<Rightarrow> bool" where
  "fs_works fs \<longleftrightarrow> fs_create fs \<noteq> None \<and> (\<forall>n f. fs_truncate fs n f \<noteq> None) \<and> (\<forall>n f. fs_map fs n f \<noteq> None)"

lemma fs_worksD:
  assumes "fs_works fs"
  shows "\<exists>f. fs_create fs = Some f" and "\<exists>f'. fs_truncate fs n f = Some f'" and "\<exists>m. fs_map fs n f = Some m"
  using assms unfolding fs_works_def by blast+

lemma fs_contractD:
  assumes "fs_contract fs V"
  shows fs_create_law: "\<And>f. fs_create fs = Some f \<Longrightarrow> vw_cap V f = 0"
    and fs_write_law: "\<And>bs f. vw_cap V f = 0 \<Longrightarrow> vw_mem V (fs_write fs bs f) = mem_store (vw_mem V f) 0 bs"
      "\<And>bs f. vw_cap V f = 0 \<Longrightarrow> vw_cap V (fs_write fs bs f) = length bs"
    and fs_truncate_law: "\<And>n f f'. fs_truncate fs n f = Some f' \<Longrightarrow> vw_cap V f' = n"
      "\<And>n f f' a. fs_truncate fs n f = Some f' \<Longrightarrow> a < n \<Longrightarrow>
        vw_mem V f' a = (if a < vw_cap V f then vw_mem V f a else 0)"
    and fs_map_law: "\<And>n f m. fs_map fs n f = Some m \<Longrightarrow> vw_mem V m = vw_mem V f"
      "\<And>n f m. fs_map fs n f = Some m \<Longrightarrow> vw_cap V m = n"
    and fs_read_law: "\<And>n f. fs_read fs n f = mem_load (vw_mem V f) 0 (min n (vw_cap V f))"
    and fs_size_law: "\<And>f. fs_size fs f = vw_cap V f"
  using assms by (simp_all add: fs_contract_def)

text \<open>The file once the count has been written and the length set.\<close>

lemma truncated_file:
  assumes F: "fs_contract fs V" and f0: "fs_create fs = Some f0" and n: "4 \<le> n"
    and f2: "fs_truncate fs n (fs_write fs (le_bytes 4 k) f0) = Some f2"
  shows "vw_cap V f2 = n" and "mem_load (vw_mem V f2) 0 4 = le_bytes 4 k"
    and "\<And>a. 4 \<le> a \<Longrightarrow> a < n \<Longrightarrow> vw_mem V f2 a = 0"
proof -
  let ?f1 = "fs_write fs (le_bytes 4 k) f0"
  have f1: "vw_mem V ?f1 = mem_store (vw_mem V f0) 0 (le_bytes 4 k)" "vw_cap V ?f1 = 4"
    using fs_create_law [OF F f0] fs_write_law [OF F] by simp_all
  show "vw_cap V f2 = n" by (rule fs_truncate_law(1) [OF F f2])
  have same: "vw_mem V f2 a = vw_mem V ?f1 a" if "a < 4" for a
    using fs_truncate_law(2) [OF F f2, of a] that n by (simp add: f1(2))
  have "mem_load (vw_mem V f2) 0 4 = mem_load (vw_mem V ?f1) 0 4"
    by (simp add: mem_load_def same cong: map_cong)
  then show "mem_load (vw_mem V f2) 0 4 = le_bytes 4 k" by (simp add: f1(1) mem_load_store_same)
  show "vw_mem V f2 a = 0" if "4 \<le> a" "a < n" for a
    using fs_truncate_law(2) [OF F f2, of a] that by (simp add: f1(2))
qed

lemma loadMempool_file:
  assumes F: "fs_contract fs V" and f: "4 < vw_cap V f" "mem_load (vw_mem V f) 0 4 = le_bytes 4 k" "0 < k" "k < 2 ^ 32"
  shows "loadMempool M T reg fs (Some f) s mp = (case fs_map fs (vw_cap V f) f of
     None \<Rightarrow> Inr (s, mp) | Some m \<Rightarrow> load_transactions M T reg k (mm_seek M 4 m) s mp)"
  using f by (simp add: loadMempool_def Let_def fs_read_law [OF F] fs_size_law [OF F] le_nat_le_bytes min_def)

lemma save_then_load:
  assumes M: "mmap_contract M V" and T: "tx_codec T (factories reg) V enc"
    and F: "fs_contract fs V" "fs_works fs" and len: "length mempool < 2 ^ 32"
  shows "\<exists>m. saveMempool M T fs mempool = Some m \<and>
    loadMempool M T' reg fs (Some m) s mp = Inr (apply_all T' mempool s, mp @ mempool)"
proof -
  let ?sz = "length (enc_all enc mempool)" and ?k = "length mempool"
  have k: "unat (word_of_nat ?k :: u32) = ?k" using len by (simp add: unat_of_nat)
  obtain f0 where f0: "fs_create fs = Some f0" using fs_worksD(1) [OF F(2)] by blast
  let ?f1 = "fs_write fs (le_bytes 4 ?k) f0"
  show ?thesis
  proof (cases mempool)
    case Nil
    have "vw_cap V ?f1 = 4" "vw_mem V ?f1 = mem_store (vw_mem V f0) 0 (le_bytes 4 ?k)"
      using fs_write_law [OF F(1)] fs_create_law [OF F(1) f0] by simp_all
    with Nil show ?thesis using f0
      by (simp add: saveMempool_def loadMempool_def Let_def fs_read_law [OF F(1)] mem_load_store_same le_nat_le_bytes)
  next
    case (Cons x xs)
    have ne: "0 < length mempool" by (simp add: Cons)
    then have pos: "0 < ?sz" using enc_all_length [OF T, of mempool] by linarith
    obtain f2 where f2: "fs_truncate fs (4 + ?sz) ?f1 = Some f2" using fs_worksD(2) [OF F(2)] by blast
    note F2 = truncated_file [OF F(1) f0 _ f2]
    obtain m where m: "fs_map fs (4 + ?sz) f2 = Some m" using fs_worksD(3) [OF F(2)] by blast
    have m1: "vw_mem V m = vw_mem V f2" "vw_cap V m = 4 + ?sz" using fs_map_law [OF F(1) m] by auto
    let ?m2 = "write_all T mempool (mm_seek M 4 m)"
    have m2: "vw_mem V ?m2 = mem_store (vw_mem V f2) 4 (enc_all enc mempool)" "vw_cap V ?m2 = 4 + ?sz"
      using write_all_codec [OF T, of "mm_seek M 4 m" mempool] by (simp_all add: mmap_seek [OF M] m1)
    obtain m3 where m3: "fs_map fs (4 + ?sz) ?m2 = Some m3" using fs_worksD(3) [OF F(2)] by blast
    have "load_transactions M T' reg ?k (mm_seek M 4 m3) s mp = Inr (apply_all T' mempool s, mp @ mempool)"
      using fs_map_law [OF F(1) m3]
      by (intro load_transactions_stored [OF M T]) (simp_all add: mmap_seek [OF M] m2 mem_load_store_same)
    moreover have "loadMempool M T' reg fs (Some ?m2) s mp = load_transactions M T' reg ?k (mm_seek M 4 m3) s mp"
      using loadMempool_file [OF F(1), of ?m2 ?k M T' reg s mp] ne pos len F2(2) m3
      by (simp add: m2 mem_load_store_disjoint)
    moreover have "saveMempool M T fs mempool = Some ?m2"
      using pos f0 f2 m by (simp add: saveMempool_def sum_list_sizes [OF T] k Let_def)
    ultimately show ?thesis by simp
  qed
qed

text \<open>
  (mempool save load): a mempool written by the destructor and loaded by the next
  constructor comes back complete and in order behind what is already there, and each
  transaction is applied once, in order, to the speculative state.
\<close>

theorem mempool_save_load:
  assumes "mmap_contract M V" and "tx_codec T (factories reg) V enc"
    and "fs_contract fs V" and "fs_works fs" and "length mempool < 2 ^ 32"
  shows "\<exists>m. saveMempool M T fs mempool = Some m \<and>
    loadMempool M T' reg fs (Some m) s mp = Inr (apply_all T' mempool s, mp @ mempool)"
  using assms by (rule save_then_load)

lemma load_transactions_zeros:
  assumes M: "mmap_contract M V" and "factories reg 0 = None"
    and "vw_pos V m + n \<le> vw_cap V m" and "\<And>a. vw_pos V m \<le> a \<Longrightarrow> a < vw_pos V m + n \<Longrightarrow> vw_mem V m a = 0"
  shows "load_transactions M T reg n m s mp = Inr (s, mp)"
  using assms(3,4)
proof (induction n arbitrary: m)
  case (Suc n)
  have "vw_pos V m + 1 \<le> vw_cap V m" using Suc.prems(1) by simp
  note rd = mmap_read [OF M this]
  define m' where "m' = snd (mm_read M 1 m)"
  have "fst (mm_read M 1 m) = [0]" using rd(1) Suc.prems(2) [of "vw_pos V m"] by (simp add: mem_load_Suc)
  then have "registry_read M reg m = Inr (None, m')"
    using assms(2) by (simp add: registry_read_def case_prod_beta getFactory_def m'_def)
  moreover have "vw_mem V m' = vw_mem V m" "vw_pos V m' = vw_pos V m + 1" "vw_cap V m' = vw_cap V m"
    unfolding m'_def by (fact rd(2-4))+
  then have "load_transactions M T reg n m' s mp = Inr (s, mp)"
    using Suc.prems by (intro Suc.IH) simp_all
  ultimately show ?case by simp
qed simp

text \<open>
  C31 (BlockchainFrontend.mempool_file_faults): when the file can be opened but not extended, or not mapped (and no
  transaction type has the id 0), the destructor leaves a file from which the next constructor,
  with a file system that works again, loads nothing: the whole mempool is lost, without an
  error on either side.
\<close>

theorem mempool_file_faults:
  assumes M: "mmap_contract M V" and T: "tx_codec T (factories reg) V enc" and F: "fs_contract fs V" "fs_contract fs' V"
    and f0: "fs_create fs = Some f0" and len: "length mempool < 2 ^ 32"
    and fault: "(\<forall>n f. fs_truncate fs n f = None) \<or> (\<forall>n f. fs_map fs n f = None) \<and> factories reg 0 = None"
  shows "\<exists>m. saveMempool M T fs mempool = Some m \<and> loadMempool M T' reg fs' (Some m) s mp = Inr (s, mp)"
proof -
  let ?sz = "length (enc_all enc mempool)" and ?k = "length mempool"
  let ?f1 = "fs_write fs (le_bytes 4 ?k) f0"
  have k: "unat (word_of_nat ?k :: u32) = ?k" using len by (simp add: unat_of_nat)
  have "vw_cap V ?f1 = 4" using fs_write_law(2) [OF F(1)] fs_create_law [OF F(1) f0] by simp
  then have short: "loadMempool M T' reg fs' (Some ?f1) s mp = Inr (s, mp)"
    by (simp add: loadMempool_def Let_def fs_size_law [OF F(2)])
  show ?thesis
  proof (cases "fs_truncate fs (4 + ?sz) ?f1 = None \<or> ?sz = 0")
    case True
    then have "saveMempool M T fs mempool = Some ?f1"
      using f0 by (auto simp: saveMempool_def sum_list_sizes [OF T] k Let_def)
    with short show ?thesis by blast
  next
    case False
    then obtain f2 where f2: "fs_truncate fs (4 + ?sz) ?f1 = Some f2" and sz: "0 < ?sz" by auto
    with fault have nomap: "fs_map fs n f = None" and no0: "factories reg 0 = None" for n f by auto
    note F2 = truncated_file [OF F(1) f0 _ f2]
    have "?k \<le> ?sz" by (rule enc_all_length [OF T])
    moreover have "0 < ?k" using sz by (cases mempool) auto
    ultimately have "loadMempool M T' reg fs' (Some f2) s mp = Inr (s, mp)"
      using loadMempool_file [OF F(2), of f2 ?k M T' reg s mp] F2 sz len fs_map_law [OF F(2), of "4 + ?sz" f2]
      by (auto split: option.splits intro!: load_transactions_zeros [OF M no0] simp: mmap_seek [OF M])
    moreover have "saveMempool M T fs mempool = Some f2"
      using f0 f2 sz nomap by (simp add: saveMempool_def sum_list_sizes [OF T] k Let_def)
    ultimately show ?thesis by blast
  qed
qed

subsection \<open>Queries\<close>

lemma getTransactionById_chain:
  assumes "fe_chain A N V enc okT cont fe bs" and "unat txId = blk * 2 ^ 20 + i" and "i < 2 ^ 20"
  shows "fst (getTransactionById N txId fe) =
    (if blk < length bs
     then Inr (if i < length (snd (bs ! blk)) then Some (snd (bs ! blk) ! i) else None)
     else Inl Range_error)"
proof -
  have blk: "unat (drop_bit 20 txId) = blk" using assms(2,3) by (simp add: drop_bit_eq_div unat_div_distrib)
  have "txId AND 0xFFFFF = take_bit 20 txId" by (simp add: take_bit_eq_mask mask_eq_exp_minus_1)
  then have i: "unat (ucast (txId AND 0xFFFFF) :: u32) = i"
    using assms(2,3) by (simp add: unat_ucast_u64_u32 take_bit_eq_mod unat_mod_distrib)
  have "fst (getBlock N (drop_bit 20 txId) (fe_backend fe)) =
      (if blk < length bs then Inr (snd (bs ! blk)) else Inl Range_error)"
    using backend.get_fst [OF fe_chain_backend [THEN iffD1, OF assms(1)], of "drop_bit 20 txId"] by (simp add: blk)
  then show ?thesis
    using i by (auto simp: getTransactionById_def Let_def split: prod.splits sum.splits if_splits)
qed

text \<open>
  (getTransactionById exact): the id \<open>block * 2^20 + position\<close> names the transaction at
  that position of that block: the query returns it, gives null for a position past the end of
  the block, and throws for a block past the end of the chain.
\<close>

theorem getTransactionById_exact:
  assumes "fe_chain A N V enc okT cont fe bs" and "unat txId = blk * 2 ^ 20 + i" and "i < 2 ^ 20"
  shows "fst (getTransactionById N txId fe) =
    (if blk < length bs
     then Inr (if i < length (snd (bs ! blk)) then Some (snd (bs ! blk) ! i) else None)
     else Inl Range_error)"
  using assms by (rule getTransactionById_chain)

text \<open>
  (frontend height wraps): the height a frontend reports is the length of the chain as long as
  that is below \<open>2 ^ 31\<close>; with \<open>2 ^ 31\<close> blocks it is negative.
\<close>

theorem frontend_height_wraps:
  assumes "fe_chain A N V enc okT cont fe bs"
  shows "(length bs < 2 ^ 31 \<longrightarrow> fe_getBlockHeight fe = int (length bs)) \<and>
    (length bs = 2 ^ 31 \<longrightarrow> fe_getBlockHeight fe = - (2 ^ 31))"
proof -
  have "chain_holds V enc okT cont (fe_backend fe) bs" using assms by (simp add: fe_chain_def)
  note inv = chain_holdsD [OF this]
  have h: "fe_getBlockHeight fe = signed_take_bit 31 (int (length bs))"
    using sint_u64_small [of "bk_currentBlockHeight (fe_backend fe)"] inv(1,2)
    by (simp add: fe_getBlockHeight_def getBlockHeight_def signed_of_nat)
  have "int (length bs) < 2 ^ 31" if "length bs < 2 ^ 31" using that by (simp add: zless_nat_eq_int_zless flip: of_nat_less_iff)
  then show ?thesis by (auto simp: h signed_take_bit_int_eq_self)
qed

lemma window_at:
  assumes "fe_chain A N V enc okT cont fe2 bs" and "sorted (map fst bs)" and "s \<le> t"
  shows "\<exists>fe'. fe_getTransactionsByTimeWindow A N s t fe0 fe1 fe2 = Some (Inr (
      (if getLastBlockTimestamp (fe_backend fe0) < t then window_mempool A s t fe1 else []) @
      concat (map snd (filter (\<lambda>x. s \<le> fst x \<and> fst x \<le> t) bs))), fe') \<and>
    fe_chain A N V enc okT cont fe' bs \<and> fe_mempool fe' = fe_mempool fe2"
proof -
  note C = assms(1) [unfolded fe_chain_def]
  obtain b' where b': "getTransactionsByTimeWindow N s t (fe_backend fe2) =
      Some (Inr (concat (map snd (filter (\<lambda>x. s \<le> fst x \<and> fst x \<le> t) bs))), b')"
    using window_chain [of A N "fe_backend fe2" V enc okT cont bs s t] C assms(2,3) by blast
  have "fe_chain A N V enc okT cont (fe2\<lparr>fe_backend := b'\<rparr>) bs"
    using fe_chain_read [OF assms(1) disjI2, where fe' = "fe2\<lparr>fe_backend := b'\<rparr>"] b' by simp
  with b' show ?thesis
    by (auto simp: fe_getTransactionsByTimeWindow_def window_committed_def Let_def)
qed

text \<open>
  (frontend window exact): for a chain with ascending timestamps, the frontend's
  time-window query, when no other thread runs in between, returns the mempool transactions
  whose own timestamp is in the window (in mempool order, and only when the window ends after the
  last block), followed by the transactions of exactly the blocks in the window, in chain order;
  no transaction is returned more often than it is pending and on the chain together.
\<close>

theorem frontend_window_exact:
  assumes "fe_chain A N V enc okT cont fe bs" and "sorted (map fst bs)" and "s \<le> t"
  shows "\<exists>r fe'. fe_getTransactionsByTimeWindow A N s t fe fe fe = Some (Inr r, fe') \<and>
    r = (if bk_lastBlockTimestamp (fe_backend fe) < t
         then filter (\<lambda>tx. s \<le> tx_getTimestamp (fe_tx A fe) tx \<and> tx_getTimestamp (fe_tx A fe) tx \<le> t) (fe_mempool fe)
         else []) @ concat (map snd (filter (\<lambda>x. s \<le> fst x \<and> fst x \<le> t) bs)) \<and>
    mset r \<subseteq># pending fe + block_txs bs \<and> fe_chain A N V enc okT cont fe' bs \<and> fe_mempool fe' = fe_mempool fe"
proof -
  have blocks: "mset (concat (map snd (filter P bs))) \<subseteq># block_txs bs" for P :: "'a block \<Rightarrow> bool"
    by (induction bs) (auto simp: block_txs_def intro: subset_mset.add_mono subset_mset.order_trans)
  have pool: "mset (window_mempool A s t fe) \<subseteq># pending fe"
    by (auto simp: window_mempool_def pending_def intro: subset_mset.order_trans [OF multiset_filter_subset])
  let ?c = "concat (map snd (filter (\<lambda>x. s \<le> fst x \<and> fst x \<le> t) bs))"
  have "mset (window_mempool A s t fe @ ?c) \<subseteq># pending fe + block_txs bs"
    using subset_mset.add_mono [OF pool blocks [of "\<lambda>x. s \<le> fst x \<and> fst x \<le> t"]] by simp
  moreover have "mset ?c \<subseteq># pending fe + block_txs bs"
    using subset_mset.order_trans [OF blocks mset_subset_eq_add_right] .
  ultimately show ?thesis
    using window_at [OF assms, of fe fe] by (auto simp: getLastBlockTimestamp_def window_mempool_def)
qed

text \<open>
  C32 (BlockchainFrontend.window_query_interleaved): whatever clients and the builder do between the two halves of a
  time-window query with start not after end (the commits that reached the epoch file having room, the
  builder being alive and the block timestamps ascending at the second half), the query returns first, if the
  last block timestamp it read was before the end of the window, the transactions that were in the
  mempool at its first half and have a timestamp in the window, and none of the mempool otherwise; then
  the transactions of the blocks in the window at its second half.  So when that test succeeds, a
  transaction that was pending at the first half and has been committed in a block of the window by
  the second is returned from both, at least twice.
\<close>

theorem window_query_interleaved:
  assumes run: "fe_run A N fe1 es fe2" and alive: "fe_builder fe2 \<noteq> Crashed" and room: "all_roomy N V enc es"
    and chain: "fe_chain A N V enc okT cont fe1 bs" and asc: "sorted (map fst (bs @ accepted es))" and st: "s \<le> t"
    and mempool: "mempool = (if getLastBlockTimestamp (fe_backend fe0) < t then window_mempool A s t fe1 else [])"
  shows "\<exists>r fe'. fe_getTransactionsByTimeWindow A N s t fe0 fe1 fe2 = Some (Inr r, fe') \<and>
    r = mempool @ concat (map snd (filter (\<lambda>x. s \<le> fst x \<and> fst x \<le> t) (bs @ accepted es))) \<and>
    (\<forall>tx ts txs. tx \<in> set mempool \<and> (ts, txs) \<in> set (accepted es) \<and> tx \<in> set txs \<and> s \<le> ts \<and> ts \<le> t \<longrightarrow>
      2 \<le> count (mset r) tx)"
proof -
  have chain2: "fe_chain A N V enc okT cont fe2 (bs @ accepted es)" using fe_run_chain [OF run chain room] alive by auto
  let ?c = "concat (map snd (filter (\<lambda>x. s \<le> fst x \<and> fst x \<le> t) (bs @ accepted es)))"
  have twice: "2 \<le> count (mset (mempool @ ?c)) tx"
    if "tx \<in> set mempool" "(ts, txs) \<in> set (accepted es)" "tx \<in> set txs" "s \<le> ts" "ts \<le> t" for tx ts txs
  proof -
    have "tx \<in> set ?c" using that by force
    then have "0 < count (mset ?c) tx" unfolding count_greater_zero_iff set_mset_mset .
    moreover have "0 < count (mset mempool) tx" using that(1) unfolding count_greater_zero_iff set_mset_mset .
    ultimately show ?thesis unfolding mset_append count_union by linarith
  qed
  from window_at [OF chain2 asc st, of fe0 fe1] obtain fe'
    where "fe_getTransactionsByTimeWindow A N s t fe0 fe1 fe2 = Some (Inr (mempool @ ?c), fe')" unfolding mempool by blast
  with twice show ?thesis by blast
qed

subsection \<open>Witnesses\<close>

definition sample_fe ::
  "byte list \<Rightarrow> (byte, string, nat, flat_file, block_timestamp_entry_t list, 256 word catalog_contents_entry_t list, 256 word,
    segment_btree_metadata_t list, nat, memory) frontend" where
  "sample_fe mempool =
     \<lparr>fe_backend = sample_backend, fe_config = default_config, fe_state = sample_state 0, fe_mempool = mempool,
      fe_running = True, fe_builder = Idle\<rparr>"

lemma sample_fe_tx: "fe_tx sample_app fe = counter_tx"
  by (simp add: fe_tx_def sample_app_laws)

lemma sample_fe_chain: "fe_chain sample_app sample_benv flat_view sample_enc (one_per_key ts_compare) set (sample_fe mp) []"
  using sample_backend_contract sample_chain by (simp add: fe_chain_def sample_fe_def sample_backend_fields)

lemma sample_select:
  "builder_select sample_app (\<lambda>_. 0) 5 ((sample_fe [7])\<lparr>fe_state := x, fe_builder := Round\<rparr>) =
     (sample_fe [])\<lparr>fe_state := x, fe_builder := Built [7]\<rparr>"
proof -
  have "buildBlock counter_tx (\<lambda>_. 0) (sample_state 0) [7] 180 15 = ([7], [])"
    by (simp add: buildBlock_def greedy_pass.simps counter_tx_def worstValue_def flt_nonneg_def Let_def
        remove_selected_def sort_indices_def ordered_remove_def)
  then show ?thesis by (simp add: builder_select_def sample_fe_def sample_override sample_fe_tx default_config_def)
qed

theorem speculative_state_exact_witness:
  "\<exists>s. newStateOverride sample_app sample_backend = Inr s \<and>
     fe_state (sendTransaction sample_app 9 ((sample_fe [7])\<lparr>fe_state := sample_state 7\<rparr>)) = apply_all counter_tx [7, 9] s"
proof -
  have "rebuildSpeculativeState sample_app (sample_fe [7]) = Inr ((sample_fe [7])\<lparr>fe_state := sample_state 7\<rparr>)"
    by (simp add: rebuildSpeculativeState_def sample_fe_tx sample_fe_def sample_override)
      (simp add: counter_tx_def sample_state_facts)
  from speculative_state_exact [OF this refl, of "[9]"] show ?thesis
    by (auto simp: sample_fe_tx) (auto simp: sample_fe_def sendTransaction_def)
qed

theorem refused_block_reorders_witness:
  "mset (fe_mempool (builder_putback [7] (builder_select sample_app (\<lambda>_. 0) 5
     ((sample_fe [7])\<lparr>fe_state := sample_state 7, fe_builder := Round\<rparr>)))) = {#7 :: byte#}"
  using refused_block_reorders [of sample_app "\<lambda>_. 0" 5 "(sample_fe [7])\<lparr>fe_state := sample_state 7, fe_builder := Round\<rparr>"
      "[7]", OF _ refl]
  by (simp add: sample_select) (simp add: sample_fe_def)

theorem throughput_truncated_witness:
  "builder_select sample_app (\<lambda>_. 0) 5 ((sample_fe [7])\<lparr>fe_config := default_config\<lparr>cg_targetThroughput := 65536\<rparr>\<rparr>) =
     (sample_fe [7])\<lparr>fe_config := default_config\<lparr>cg_targetThroughput := 65536\<rparr>, fe_builder := Idle\<rparr>"
  by (rule throughput_truncated [where s = "sample_state 0", THEN trans]) (simp_all add: sample_fe_def sample_override)

definition flat_fs :: "bool \<Rightarrow> flat_file mempool_fs" where
  "flat_fs room =
     \<lparr>fs_create = Some \<lparr>fl_mem = (\<lambda>_. 0), fl_pos = 0, fl_cap = 0\<rparr>,
      fs_write = (\<lambda>bs f. f\<lparr>fl_mem := mem_store (fl_mem f) 0 bs, fl_cap := max (fl_cap f) (length bs)\<rparr>),
      fs_truncate = (\<lambda>n f. if room then Some (f\<lparr>fl_mem := (\<lambda>a. if a < fl_cap f then fl_mem f a else 0), fl_cap := n\<rparr>) else None),
      fs_map = (\<lambda>n f. Some (f\<lparr>fl_pos := 0, fl_cap := n\<rparr>)),
      fs_read = (\<lambda>n f. mem_load (fl_mem f) 0 (min n (fl_cap f))), fs_size = fl_cap\<rparr>"

lemma flat_fs_laws: "fs_contract (flat_fs room) flat_view" "fs_works (flat_fs True)"
  by (auto simp: fs_contract_def fs_works_def flat_fs_def)

theorem mempool_save_load_witness:
  "\<exists>m. saveMempool flat_mmap byte_tx (flat_fs True) [7, 9] = Some m \<and>
     loadMempool flat_mmap byte_tx byte_types (flat_fs True) (Some m) 0 [] = Inr (16, [7, 9])"
  using mempool_save_load [OF flat_mmap_contract byte_types_codec flat_fs_laws(1) flat_fs_laws(2), of "[7, 9]" byte_tx 0 "[]"]
  by (simp add: byte_tx_def)

theorem mempool_file_faults_witness:
  "\<exists>m. saveMempool flat_mmap byte_tx (flat_fs False) [7, 9] = Some m \<and>
     loadMempool flat_mmap byte_tx byte_types (flat_fs True) (Some m) 0 [] = Inr (0, [])"
  using mempool_file_faults [OF flat_mmap_contract byte_types_codec flat_fs_laws(1) [of False] flat_fs_laws(1) [of True],
      of "\<lparr>fl_mem = (\<lambda>_. 0), fl_pos = 0, fl_cap = 0\<rparr>" "[7, 9]" byte_tx 0 "[]"]
  by (simp add: flat_fs_def)

theorem getTransactionById_exact_witness:
  "fst (getTransactionById sample_benv 1048577 ((sample_fe [])\<lparr>fe_backend := sample_committed\<rparr>)) = Inl Range_error \<and>
   fst (getTransactionById sample_benv 1 ((sample_fe [])\<lparr>fe_backend := sample_committed\<rparr>)) = Inr (Some 9)"
proof -
  let ?fe = "(sample_fe [])\<lparr>fe_backend := sample_committed\<rparr>"
  have "fe_chain sample_app sample_benv flat_view sample_enc (one_per_key ts_compare) set ?fe [(1000000, [7, 9])]"
    using sample_committed_contract sample_committed_chain(2) by (simp add: fe_chain_def)
  from getTransactionById_exact [OF this, of 1048577 1 1] getTransactionById_exact [OF this, of 1 0 1]
  show ?thesis by simp
qed

theorem frontend_height_wraps_witness: "fe_getBlockHeight (sample_fe [7]) = 0"
  using frontend_height_wraps [OF sample_fe_chain [of "[7]"]] by simp

theorem frontend_window_exact_witness:
  "\<exists>fe'. fe_getTransactionsByTimeWindow sample_app sample_benv 5 2000000
      ((sample_fe [7])\<lparr>fe_backend := sample_committed\<rparr>) ((sample_fe [7])\<lparr>fe_backend := sample_committed\<rparr>)
      ((sample_fe [7])\<lparr>fe_backend := sample_committed\<rparr>) = Some (Inr [7, 7, 9], fe')"
proof -
  let ?fe = "(sample_fe [7])\<lparr>fe_backend := sample_committed\<rparr>"
  have "fe_chain sample_app sample_benv flat_view sample_enc (one_per_key ts_compare) set ?fe [(1000000, [7, 9])]"
    using sample_committed_contract sample_committed_chain(2) by (simp add: fe_chain_def)
  from frontend_window_exact [OF this, of 5 2000000]
  show ?thesis by (auto simp: sample_fe_tx sample_committed_chain(4)) (auto simp: sample_fe_def counter_tx_def)
qed

lemma sample_one:
  "has_room sample_benv flat_view sample_enc 1000000 [7] sample_backend"
  "\<exists>b'. addBlock sample_app sample_benv (\<lambda>_. (7, 7)) 1000000 [7] sample_backend = Some (Inr 0, b')"
proof -
  obtain b1 where f: "getEpochFile sample_benv (bk_currentBlockHeight sample_backend) sample_backend = (Some sample_epoch, b1)"
    using sample_epoch_file by blast
  have fits: "block_fits sample_enc (vw_cap flat_view sample_epoch) (epoch_slice (length [] div 65536) []) (1000000, [7])"
    using sample_end_of [of 1000000 "[7]"] by (simp add: block_fits_def epoch_slice_def) (simp add: block_bytes_def page_up_def)
  then show "has_room sample_benv flat_view sample_enc 1000000 [7] sample_backend"
    using f by (simp add: has_room_def sample_backend_fields epoch_slice_def)
  have "\<not> too_early default_config 1000000 (Suc 0)" "all_verify counter_tx [7] s" for s
    by (simp_all add: too_early_def default_config_def all_verify_def counter_tx_def)
  then show "\<exists>b'. addBlock sample_app sample_benv (\<lambda>_. (7, 7)) 1000000 [7] sample_backend = Some (Inr 0, b')"
    using addBlock_commit_run [OF _ sample_chain _ f fits _ _ _ _ sample_override sample_state_facts(1),
        of "one_per_key toc_compare" set "\<lambda>_. (7, 7)"] sample_backend_contract sample_app_laws
    by (auto simp: sample_backend_fields sample_catalog_toc)
qed

text \<open>A round of the builder that commits the one pending transaction.\<close>

lemma sample_commit_run:
  obtains b es where "fe_run sample_app sample_benv ((sample_fe [7])\<lparr>fe_state := x\<rparr>) es
      ((sample_fe [])\<lparr>fe_backend := b, fe_state := x, fe_builder := Committed\<rparr>)"
    and "all_roomy sample_benv flat_view sample_enc es" and "sent es = []" and "accepted es = [(1000000, [7])]"
    and "bk_txTypes b = byte_types" and "bk_dataDir b = ''d''"
proof -
  let ?S = "fe_step sample_app sample_benv"
  let ?fe0 = "(sample_fe [7])\<lparr>fe_state := x, fe_builder := Round\<rparr>"
  let ?fe1 = "(sample_fe [])\<lparr>fe_state := x, fe_builder := Built [7]\<rparr>"
  obtain b where b: "addBlock sample_app sample_benv (\<lambda>_. (7, 7)) 1000000 [7] sample_backend = Some (Inr 0, b)"
    using sample_one(2) by blast
  let ?fe2 = "(sample_fe [])\<lparr>fe_backend := b, fe_state := x, fe_builder := Committed\<rparr>"
  let ?e = "Tried (Attempt 1000000 [7] sample_backend (Inr 0) b)"
  have s0: "?S ((sample_fe [7])\<lparr>fe_state := x\<rparr>) [] ?fe0"
    using fe_wake [of "(sample_fe [7])\<lparr>fe_state := x\<rparr>" sample_app sample_benv] by (simp add: sample_fe_def)
  have s1: "?S ?fe0 [] ?fe1"
    using fe_select [of ?fe0 sample_app sample_benv "\<lambda>_. 0" 5] unfolding sample_select by simp
  have s2: "?S ?fe1 [?e] ?fe2"
    using fe_commit [of ?fe1 "[7]" sample_app sample_benv "\<lambda>_. (7, 7)" 1000000 "Inr 0" b ?fe2] b
    by (simp add: builder_commit_def sample_fe_def)
  have run: "fe_run sample_app sample_benv ((sample_fe [7])\<lparr>fe_state := x\<rparr>) [?e] ?fe2"
    using labelled_step [of ?S, OF labelled_step [of ?S, OF labelled_step [of ?S, OF labelled_refl s0] s1] s2] by simp
  have types: "bk_txTypes b = byte_types"
    using addBlock_with_room [OF _ sample_chain sample_one(1) b] sample_backend_contract by (auto simp: sample_backend_fields)
  have dir: "bk_dataDir b = ''d''"
    using commit_block_files(5) [OF _ addBlock_committed [OF b]] sample_epoch_file
    by (auto simp: sample_backend_def new_BlockchainBackend_def case_prod_beta Let_def)
  show thesis
    by (rule that [OF run _ _ _ types dir]) (use sample_one(1) in \<open>auto simp: all_roomy_def roomy_def accepts_def\<close>)
qed

lemma sample_fe_same: "(sample_fe [7])\<lparr>fe_state := sample_state 0\<rparr> = sample_fe [7]"
  by (simp add: sample_fe_def)

theorem frontend_conserves_transactions_witness:
  "\<exists>es fe'. fe_run sample_app sample_benv (sample_fe [7]) es fe' \<and> pending fe' = {#} \<and>
     block_txs (accepted es) = pending (sample_fe [7]) \<and>
     fe_chain sample_app sample_benv flat_view sample_enc (one_per_key ts_compare) set fe' [(1000000, [7])]"
proof -
  from sample_commit_run [of "sample_state 0"] obtain b es
    where run: "fe_run sample_app sample_benv (sample_fe [7]) es
        ((sample_fe [])\<lparr>fe_backend := b, fe_state := sample_state 0, fe_builder := Committed\<rparr>)" (is "fe_run _ _ _ _ ?fe'")
      and es: "all_roomy sample_benv flat_view sample_enc es" "sent es = []" "accepted es = [(1000000, [7])]"
    unfolding sample_fe_same by metis
  have "pending ?fe' = {#}" "fe_builder ?fe' = Committed" by (simp_all add: pending_def sample_fe_def)
  with frontend_conserves_transactions [OF run, of flat_view sample_enc "one_per_key ts_compare" set "[]"]
    sample_fe_chain [of "[7]"] es run show ?thesis
    by (intro exI [of _ es] exI [of _ ?fe']) simp
qed

theorem window_query_interleaved_witness:
  "\<exists>es fe2 r fe'. fe_run sample_app sample_benv (sample_fe [7]) es fe2 \<and>
     fe_getTransactionsByTimeWindow sample_app sample_benv 5 2000000 (sample_fe [7]) (sample_fe [7]) fe2 = Some (Inr r, fe') \<and>
     r = [7, 7] \<and> 2 \<le> count (mset r) 7"
proof -
  from sample_commit_run [of "sample_state 0"] obtain b es
    where run: "fe_run sample_app sample_benv (sample_fe [7]) es
        ((sample_fe [])\<lparr>fe_backend := b, fe_state := sample_state 0, fe_builder := Committed\<rparr>)" (is "fe_run _ _ _ _ ?fe'")
      and es: "all_roomy sample_benv flat_view sample_enc es" "accepted es = [(1000000, [7])]"
    unfolding sample_fe_same by metis
  have "window_mempool sample_app 5 2000000 (sample_fe [7]) = [7]" "getLastBlockTimestamp (fe_backend (sample_fe [7])) = 0"
    by (simp_all add: window_mempool_def sample_fe_tx getLastBlockTimestamp_def)
      (simp_all add: sample_fe_def counter_tx_def sample_backend_fields)
  with window_query_interleaved [OF run _ es(1) sample_fe_chain, of 5 2000000 "[7]" "sample_fe [7]"] run
  show ?thesis by (auto simp: es(2))
qed

end
