(* ===== verification/FrontendSpec.thy ===== *)
theory FrontendSpec
  imports BlockchainFrontend
begin

text \<open>
  An abstract specification of what a frontend and its backend do together, and the proof that
  they implement it.  The specification has four parts: a pool of submitted transactions, the
  block being built, the chain, and whether the process is alive.  The files, the caches, the
  registries and the order of the mempool are not in it.
\<close>

subsection \<open>The specification\<close>

record 'tx chain_spec =
  cs_pool :: "'tx multiset"
  cs_building :: "'tx list"
  cs_chain :: "'tx block list"
  cs_alive :: bool

text \<open>
  While the process is alive, a transaction is submitted; a block of at most \<open>limit\<close> transactions is
  taken out of the pool when none is being built; the block being built, of 1 to 1024 transactions,
  becomes the next block of the chain; a block being built that is not empty and not full goes back
  into the pool; nothing happens that the specification sees; or the process dies, and with it the
  pool and the block being built, which may have become the next block of the chain before.  A dead
  process does nothing.
\<close>

inductive spec_step :: "nat \<Rightarrow> 'tx chain_spec \<Rightarrow> 'tx list \<Rightarrow> 'tx chain_spec \<Rightarrow> bool" for limit where
  spec_submit: "cs_alive c \<Longrightarrow> spec_step limit c [tx] (c\<lparr>cs_pool := add_mset tx (cs_pool c)\<rparr>)"
| spec_select: "cs_alive c \<Longrightarrow> cs_building c = [] \<Longrightarrow> cs_pool c = pool + mset txs \<Longrightarrow> length txs \<le> limit \<Longrightarrow>
    spec_step limit c [] (c\<lparr>cs_pool := pool, cs_building := txs\<rparr>)"
| spec_commit: "cs_alive c \<Longrightarrow> cs_building c = txs \<Longrightarrow> 0 < length txs \<Longrightarrow> length txs \<le> 1024 \<Longrightarrow>
    spec_step limit c [] (c\<lparr>cs_building := [], cs_chain := cs_chain c @ [(millis, txs)]\<rparr>)"
| spec_refuse: "cs_alive c \<Longrightarrow> cs_building c = txs \<Longrightarrow> 0 < length txs \<Longrightarrow> length txs \<noteq> 1024 \<Longrightarrow>
    spec_step limit c [] (c\<lparr>cs_pool := cs_pool c + mset txs, cs_building := []\<rparr>)"
| spec_skip: "cs_alive c \<Longrightarrow> spec_step limit c [] c"
| spec_die: "cs_alive c \<Longrightarrow> spec_step limit c [] (c\<lparr>cs_pool := {#}, cs_building := [], cs_alive := False\<rparr>)"
| spec_commit_die: "cs_alive c \<Longrightarrow> cs_building c = txs \<Longrightarrow> 0 < length txs \<Longrightarrow> length txs \<le> 1024 \<Longrightarrow>
    spec_step limit c [] (c\<lparr>cs_pool := {#}, cs_building := [], cs_chain := cs_chain c @ [(millis, txs)], cs_alive := False\<rparr>)"

inductive_cases spec_stepE: "spec_step limit c txs c'"

text \<open>Blocks behind the first \<open>n\<close> have between one and \<open>limit\<close> transactions, and never more than 1024.\<close>

definition sized_blocks :: "nat \<Rightarrow> nat \<Rightarrow> 'tx chain_spec \<Rightarrow> bool" where
  "sized_blocks limit n c \<longleftrightarrow> length (cs_building c) \<le> limit \<and> n \<le> length (cs_chain c) \<and>
     (\<forall>x \<in> set (drop n (cs_chain c)). 0 < length (snd x) \<and> length (snd x) \<le> limit \<and> length (snd x) \<le> 1024)"

lemma spec_step_sized: "sized_blocks limit n c \<Longrightarrow> spec_step limit c txs c' \<Longrightarrow> sized_blocks limit n c'"
  by (erule spec_stepE) (auto simp: sized_blocks_def)

lemma spec_step_prefix: "spec_step limit c txs c' \<Longrightarrow> \<exists>ext. cs_chain c' = cs_chain c @ ext"
  by (erule spec_stepE) auto

subsection \<open>The implementation\<close>

definition abs_frontend :: "('tx, 'k, 'f, 'be) BlockchainFrontend \<Rightarrow> 'tx block list \<Rightarrow> 'tx chain_spec" where
  "abs_frontend fe bs =
     \<lparr>cs_pool = (if fe_builder fe = Crashed then {#} else mset (fe_mempool fe)),
      cs_building = in_flight (fe_builder fe), cs_chain = bs, cs_alive = (fe_builder fe \<noteq> Crashed)\<rparr>"

lemma abs_frontend_parts [simp]:
  "cs_alive (abs_frontend fe bs) \<longleftrightarrow> fe_builder fe \<noteq> Crashed" "cs_building (abs_frontend fe bs) = in_flight (fe_builder fe)"
  by (simp_all add: abs_frontend_def)

definition block_limit :: "('tx, 'k, 'f, 'be) BlockchainFrontend \<Rightarrow> nat" where
  "block_limit fe = unat (ucast (cg_targetThroughput (fe_config fe)) :: u16)"

text \<open>A refused block is one the gate may refuse.\<close>

definition refusal_ok :: "('tx, 'k, 'f, 'be) BlockchainFrontend \<Rightarrow> bool" where
  "refusal_ok fe \<longleftrightarrow> (\<forall>txs. fe_builder fe = Refused txs \<longrightarrow> 0 < length txs \<and> length txs \<noteq> 1024)"

definition implements ::
  "('tx, 'k, 'f, 'm, ('tt, 'b, 't, 'r, 'd) Catalog) app_ops \<Rightarrow> ('ts, 'tt, 'b, 't, 'r, 'd, 'm) backend_env \<Rightarrow>
   'm mmap_view \<Rightarrow> ('tx \<Rightarrow> byte list) \<Rightarrow> ('ts \<Rightarrow> bool) \<Rightarrow> ('ts \<Rightarrow> block_timestamp_entry_t set) \<Rightarrow> nat \<Rightarrow>
   ('tx, 'k, 'f, 'm, 'ts, 'tt, 'b, 't, 'r, 'd) frontend \<Rightarrow> 'tx chain_spec \<Rightarrow> bool" where
  "implements A N V enc okT cont limit fe c \<longleftrightarrow>
     (\<exists>bs. fe_chain A N V enc okT cont fe bs \<and> c = abs_frontend fe bs) \<and> block_limit fe = limit \<and> refusal_ok fe"

text \<open>The steps of a frontend whose commits have room, labelled with what was submitted.\<close>

definition roomy_step ::
  "('tx, 'k, 'f, 'm, ('tt, 'b, 't, 'r, 'd) Catalog) app_ops \<Rightarrow> ('ts, 'tt, 'b, 't, 'r, 'd, 'm) backend_env \<Rightarrow>
   'm mmap_view \<Rightarrow> ('tx \<Rightarrow> byte list) \<Rightarrow> ('tx, 'k, 'f, 'm, 'ts, 'tt, 'b, 't, 'r, 'd) frontend \<Rightarrow> 'tx list \<Rightarrow>
   ('tx, 'k, 'f, 'm, 'ts, 'tt, 'b, 't, 'r, 'd) frontend \<Rightarrow> bool" where
  "roomy_step A N V enc fe txs fe' \<longleftrightarrow> (\<exists>es. fe_step A N fe es fe' \<and> all_roomy N V enc es \<and> sent es = txs)"

lemma roomy_run:
  assumes "fe_run A N fe es fe'" and "all_roomy N V enc es"
  shows "labelled_run (roomy_step A N V enc) fe (sent es) fe'"
  using assms by (induction rule: labelled_run.induct) (auto intro!: labelled_run.intros simp: roomy_step_def)

lemma addBlock_size:
  assumes "addBlock A N clock millis txs b = Some (r, b')"
  shows "b' = b \<or> 0 < length txs \<and> length txs \<le> 1024"
  using assms
  by (auto simp: addBlock_def Let_def MAX_TX_PER_BLOCK_def gate_rejects_def split: if_splits)

lemma select_step:
  assumes "fe_builder fe = Round"
  shows "spec_step (block_limit fe) (abs_frontend fe bs) [] (abs_frontend (builder_select A clk now fe) bs)"
proof (cases "\<exists>sim. fe_mempool fe \<noteq> [] \<and> newStateOverride A (fe_backend fe) = Inr sim")
  case True
  then obtain sim where sim: "fe_mempool fe \<noteq> []" "newStateOverride A (fe_backend fe) = Inr sim" by blast
  let ?mx = "ucast (cg_targetThroughput (fe_config fe)) :: u16"
  obtain txs mp where bb: "buildBlock (fe_tx A fe) clk sim (fe_mempool fe) ?mx (now + 10) = (txs, mp)" by fastforce
  have "mset (fe_mempool fe) = mset mp + mset txs"
    using buildBlock_mset [of "fe_tx A fe" clk sim "fe_mempool fe" ?mx "now + 10"] by (simp add: bb add.commute)
  moreover have "length txs \<le> block_limit fe"
    using buildBlock_run [of "fe_tx A fe" clk sim "fe_mempool fe" ?mx "now + 10"]
    by (metis bb block_limit_def fst_conv length_map)
  ultimately have "spec_step (block_limit fe) (abs_frontend fe bs) []
      ((abs_frontend fe bs)\<lparr>cs_pool := mset mp, cs_building := txs\<rparr>)"
    using assms by (intro spec_select) (simp_all add: abs_frontend_def)
  then show ?thesis using sim bb assms by (auto simp: builder_select_def abs_frontend_def)
next
  case False
  let ?c = "abs_frontend fe bs"
  have alive: "cs_alive ?c" using assms by (simp add: abs_frontend_def)
  have "abs_frontend (builder_select A clk now fe) bs \<in>
      {?c, ?c\<lparr>cs_pool := {#}, cs_building := [], cs_alive := False\<rparr>}"
    using False assms by (auto simp: builder_select_def Let_def abs_frontend_def split: sum.splits)
  then show ?thesis using spec_skip [OF alive] spec_die [OF alive] by auto
qed

text \<open>What a call of \<open>addBlock\<close> by the builder is for the specification.\<close>

lemma commit_step:
  assumes chain: "fe_chain A N V enc okT cont fe bs" and st: "fe_builder fe = Built txs"
    and room: "roomy N V enc (Attempt millis txs (fe_backend fe) r b)"
    and add: "addBlock A N clock millis txs (fe_backend fe) = Some (r, b)"
    and run: "builder_commit A N clock millis txs fe = Some fe'"
  shows "\<exists>bs'. fe_chain A N V enc okT cont fe' bs' \<and> refusal_ok fe' \<and>
    spec_step limit (abs_frontend fe bs) [] (abs_frontend fe' bs')"
proof -
  let ?c = "abs_frontend fe bs"
  note out = builder_commit_cases [OF add run]
  have c: "cs_alive ?c" "cs_building ?c = txs" using st by (simp_all add: abs_frontend_def)
  from chain room add run show ?thesis
  proof (cases rule: builder_commit_chain)
    case kept
    have "refusal_ok fe'" using kept(2) out(3) by (auto simp: refusal_ok_def split: sum.splits if_splits)
    moreover have "abs_frontend fe' bs \<in> {?c, ?c\<lparr>cs_pool := {#}, cs_building := [], cs_alive := False\<rparr>}"
      using kept(2) out st by (auto simp: abs_frontend_def split: sum.splits)
    ultimately show ?thesis using kept(1) spec_skip [OF c(1)] spec_die [OF c(1)] by (intro exI [of _ bs]) auto
  next
    case appended
    let ?bs = "bs @ [(millis, txs)]"
    have size: "0 < length txs" "length txs \<le> 1024" using addBlock_size [OF add] appended(3) by auto
    have "refusal_ok fe'" using appended(2) out(3) by (auto simp: refusal_ok_def split: sum.splits)
    moreover have "abs_frontend fe' ?bs \<in> {?c\<lparr>cs_building := [], cs_chain := cs_chain ?c @ [(millis, txs)]\<rparr>,
        ?c\<lparr>cs_pool := {#}, cs_building := [], cs_chain := cs_chain ?c @ [(millis, txs)], cs_alive := False\<rparr>}"
      using appended(2) out st by (auto simp: abs_frontend_def split: sum.splits)
    ultimately show ?thesis using appended(1) spec_commit [OF c size] spec_commit_die [OF c size]
      by (intro exI [of _ ?bs]) auto
  qed
qed

lemma step_config: "fe_step A N fe es fe' \<Longrightarrow> block_limit fe' = block_limit fe"
  by (erule fe_step.cases)
    (auto simp: block_limit_def sendTransaction_def builder_select_def builder_commit_def builder_putback_def builder_rebuild_def
      rebuildSpeculativeState_def stop_frontend_def getTransactionById_def window_committed_def Let_def bind_result_def
      split: sum.splits prod.splits option.splits if_splits)

lemma quiet_spec_step:
  assumes "fe_builder fe \<noteq> Crashed" and "fe_mempool fe' = fe_mempool fe"
    and "in_flight (fe_builder fe') = in_flight (fe_builder fe)"
  shows "spec_step limit (abs_frontend fe bs) [] (abs_frontend fe' bs)"
proof (cases "fe_builder fe' = Crashed")
  case True
  then have "abs_frontend fe' bs = (abs_frontend fe bs)\<lparr>cs_pool := {#}, cs_building := [], cs_alive := False\<rparr>"
    using assms(3) by (simp add: abs_frontend_def)
  then show ?thesis using assms(1) by (simp add: spec_die)
next
  case False
  then have "abs_frontend fe' bs = abs_frontend fe bs" using assms by (simp add: abs_frontend_def)
  then show ?thesis using assms(1) by (simp add: spec_skip)
qed

lemma frontend_step_simulated:
  assumes step: "fe_step A N fe es fe'" and chain: "fe_chain A N V enc okT cont fe bs"
    and room: "all_roomy N V enc es" and ok: "refusal_ok fe"
  shows "\<exists>bs'. fe_chain A N V enc okT cont fe' bs' \<and> refusal_ok fe' \<and>
    spec_step (block_limit fe) (abs_frontend fe bs) (sent es) (abs_frontend fe' bs')"
proof -
  note alive = fe_step_alive [OF step]
  have same: ?thesis if "fe_chain A N V enc okT cont fe' bs" "refusal_ok fe'"
    "spec_step (block_limit fe) (abs_frontend fe bs) (sent es) (abs_frontend fe' bs)" using that by blast
  from step show ?thesis
  proof (cases rule: fe_step_kinds)
    case (send tx)
    have "abs_frontend fe' bs = (abs_frontend fe bs)\<lparr>cs_pool := add_mset tx (cs_pool (abs_frontend fe bs))\<rparr>"
      using send alive by (simp add: abs_frontend_def sendTransaction_def)
    moreover have "fe_chain A N V enc okT cont fe' bs" "refusal_ok fe'"
      using chain send ok by (simp_all add: fe_chain_def sendTransaction_def refusal_ok_def)
    ultimately show ?thesis using send(1) alive spec_submit [of "abs_frontend fe bs"] by (intro same) simp_all
  next
    case (select clk now)
    have "fe_chain A N V enc okT cont fe' bs" "refusal_ok fe'"
      using chain builder_select_pending(1) [OF select(2)] select(3) select(2)
      by (auto simp: fe_chain_def refusal_ok_def builder_select_def Let_def split: sum.splits prod.splits if_splits)
    then show ?thesis using select_step [OF select(2)] select(1,3) by (intro same) simp_all
  next
    case (commit txs clock millis r b)
    have "roomy N V enc (Attempt millis txs (fe_backend fe) r b)" using room commit(2) by (simp add: all_roomy_def)
    from commit_step [OF chain commit(1) this commit(3,4)] show ?thesis using commit(2) by simp
  next
    case (putback txs)
    have "abs_frontend fe' bs = (abs_frontend fe bs)\<lparr>cs_pool := cs_pool (abs_frontend fe bs) + mset txs, cs_building := []\<rparr>"
      using putback by (simp add: abs_frontend_def builder_putback_def)
    moreover have "0 < length txs" "length txs \<noteq> 1024" using ok putback(2) by (simp_all add: refusal_ok_def)
    moreover have "fe_chain A N V enc okT cont fe' bs" "refusal_ok fe'"
      using chain putback by (simp_all add: fe_chain_def builder_putback_def refusal_ok_def)
    ultimately show ?thesis using putback spec_refuse [of "abs_frontend fe bs" txs] by (intro same) simp_all
  next
    case quiet
    then show ?thesis using chain ok quiet_spec_step [OF alive quiet(2,3)] by (intro same) (auto simp: refusal_ok_def)
  qed
qed

interpretation frontend: labelled_simulation "roomy_step A N V enc" "spec_step limit" "implements A N V enc okT cont limit"
  for A N V enc okT cont limit
proof unfold_locales
  fix fe c txs fe'
  assume "implements A N V enc okT cont limit fe c" and "roomy_step A N V enc fe txs fe'"
  then obtain bs es where "fe_chain A N V enc okT cont fe bs" "c = abs_frontend fe bs" "block_limit fe = limit" "refusal_ok fe"
      and step: "fe_step A N fe es fe'" "all_roomy N V enc es" "txs = sent es"
    by (auto simp: implements_def roomy_step_def)
  with frontend_step_simulated [OF step(1)] step_config [OF step(1)]
  show "\<exists>c'. implements A N V enc okT cont limit fe' c' \<and> spec_step limit c txs c'"
    by (fastforce simp: implements_def)
qed

text \<open>
  C2 (FrontendSpec.frontend_refines_spec): every interleaved run of a frontend, started between two rounds of its
  builder, and its backend, in which each call of \<open>addBlock\<close> that reached the commit had room (the
  epoch file opens, the block fits into its mapping, the height is below 2^48 and the clock not at its
  maximal value), is a run of the specification with the same submissions, from the pool and the
  chain at the start to the pool, the block being built and the chain at the end.  In particular only
  blocks that are neither empty nor full are put back, transactions disappear from the pool only into
  the block being built or with the process, the chain only grows, and every block added to it has
  between one transaction and the configured throughput (taken modulo 65536), and never more than 1024.
\<close>

theorem frontend_refines_spec:
  assumes "fe_run A N fe es fe'" and "all_roomy N V enc es" and "fe_chain A N V enc okT cont fe bs"
    and "fe_builder fe = Idle"
  shows "\<exists>ext. fe_chain A N V enc okT cont fe' (bs @ ext) \<and>
    labelled_run (spec_step (block_limit fe)) (abs_frontend fe bs) (sent es) (abs_frontend fe' (bs @ ext)) \<and>
    (\<forall>x \<in> set ext. 0 < length (snd x) \<and> length (snd x) \<le> block_limit fe \<and> length (snd x) \<le> 1024)"
proof -
  let ?I = "\<lambda>c. sized_blocks (block_limit fe) (length bs) c \<and> (\<exists>ext. cs_chain c = bs @ ext)"
  have start: "implements A N V enc okT cont (block_limit fe) fe (abs_frontend fe bs)"
    using assms(3,4) by (auto simp: implements_def refusal_ok_def)
  have "?I (abs_frontend fe bs)" using assms(4) by (simp add: sized_blocks_def abs_frontend_def)
  moreover have "?I y" if "?I x" "spec_step (block_limit fe) x ks y" for x ks y
    using that spec_step_sized spec_step_prefix by (metis append.assoc)
  ultimately obtain c where "implements A N V enc okT cont (block_limit fe) fe' c"
      and run: "labelled_run (spec_step (block_limit fe)) (abs_frontend fe bs) (sent es) c" and I: "?I c"
    using frontend.run_invariant [OF roomy_run [OF assms(1,2)] start, of ?I] by blast
  then obtain ext where ext: "cs_chain c = bs @ ext" "fe_chain A N V enc okT cont fe' (bs @ ext)" "c = abs_frontend fe' (bs @ ext)"
    by (auto simp: implements_def abs_frontend_def)
  with run I show ?thesis by (auto simp: sized_blocks_def)
qed

theorem frontend_refines_spec_witness:
  "\<exists>b ext. labelled_run (spec_step 180) \<lparr>cs_pool = {#7#}, cs_building = [], cs_chain = [], cs_alive = True\<rparr> []
     (abs_frontend ((sample_fe [])\<lparr>fe_backend := b, fe_state := sample_state 0, fe_builder := Committed\<rparr>) ext) \<and>
     bk_txTypes b = byte_types"
proof -
  from sample_commit_run [of "sample_state 0"] obtain b es
    where run: "fe_run sample_app sample_benv (sample_fe [7]) es
        ((sample_fe [])\<lparr>fe_backend := b, fe_state := sample_state 0, fe_builder := Committed\<rparr>)" (is "fe_run _ _ _ _ ?fe'")
      and es: "all_roomy sample_benv flat_view sample_enc es" "sent es = []" and b: "bk_txTypes b = byte_types"
    unfolding sample_fe_same by metis
  have "block_limit (sample_fe [7]) = 180" "fe_builder (sample_fe [7]) = Idle"
    "abs_frontend (sample_fe [7]) [] = \<lparr>cs_pool = {#7#}, cs_building = [], cs_chain = [], cs_alive = True\<rparr>"
    by (simp_all add: block_limit_def sample_fe_def default_config_def abs_frontend_def)
  with frontend_refines_spec [OF run es(1) sample_fe_chain] es(2) b show ?thesis
    by (intro exI [of _ b]) auto
qed

end
