(* ===== verification/CustomizableFileCache.thy ===== *)
theory CustomizableFileCache
  imports Prelude
begin

text \<open>
  \<^verbatim>\<open>src/storage/CustomizableFileCache.h\<close>: the cache of open files and their accessor objects,
  used for epoch files and catalog files.  The hash map of libexcessive is a parameter
  (\<open>hashmap_ops\<close>, \<open>hashmap_contract\<close>), as are opening a file, building its accessor, and
  the state of the shared pointers (how many references an accessor has).
\<close>

record ('h, 'a) open_path_t =
  op_lastAccess :: u64
  op_accessor :: 'a
  op_handle :: 'h

record ('m, 'v) hashmap_ops =
  hm_get :: "'m \<Rightarrow> string \<Rightarrow> 'v option"
  hm_put :: "string \<Rightarrow> 'v \<Rightarrow> 'm \<Rightarrow> 'm"
  hm_remove :: "string \<Rightarrow> 'm \<Rightarrow> 'm"
  hm_size :: "'m \<Rightarrow> nat"
  hm_capacity :: "'m \<Rightarrow> nat"
  hm_keyAtIndex :: "'m \<Rightarrow> nat \<Rightarrow> string"
  hm_valueAtIndex :: "'m \<Rightarrow> nat \<Rightarrow> 'v"

text \<open>
  A finite map; a table filled to its capacity has an entry at every index.  Writing through
  the reference that \<open>get\<close> returns replaces the value under its key.
\<close>

definition hashmap_contract :: "('m, 'v) hashmap_ops \<Rightarrow> bool" where
  "hashmap_contract H \<longleftrightarrow>
     (\<forall>m k v. hm_get H (hm_put H k v m) = (hm_get H m)(k \<mapsto> v)) \<and>
     (\<forall>m k. hm_get H (hm_remove H k m) = (hm_get H m)(k := None)) \<and>
     (\<forall>m. hm_size H m = card (dom (hm_get H m))) \<and>
     (\<forall>m i. hm_size H m \<ge> hm_capacity H m \<and> i < hm_capacity H m \<longrightarrow>
        hm_get H m (hm_keyAtIndex H m i) = Some (hm_valueAtIndex H m i))"

text \<open>The world around the cache.\<close>

record ('h, 'a) file_env =
  fv_valid :: "'h \<Rightarrow> bool"
  fv_open :: "string \<Rightarrow> 'h"
  fv_builder :: "'h \<Rightarrow> 'a"
  fv_isUnique :: "'a \<Rightarrow> bool"
  fv_numReferences :: "'a \<Rightarrow> nat"

record 'm CustomizableFileCache =
  fc_root :: string
  fc_openPaths :: 'm

definition new_CustomizableFileCache :: "string \<Rightarrow> 'm \<Rightarrow> 'm CustomizableFileCache" where
  "new_CustomizableFileCache rootPath table =
     \<lparr>fc_root = (if rootPath = [] \<or> last rootPath \<noteq> CHR ''/'' then rootPath @ ''/'' else rootPath), fc_openPaths = table\<rparr>"

definition fullPath :: "'m CustomizableFileCache \<Rightarrow> string \<Rightarrow> string" where
  "fullPath c path = (if path \<noteq> [] \<and> hd path = CHR ''/'' then path else fc_root c @ path)"

text \<open>The loop that looks for the entry to drop, over the remaining indices.\<close>

fun oldest_index ::
  "('m, ('h, 'a) open_path_t) hashmap_ops \<Rightarrow> ('h, 'a) file_env \<Rightarrow> 'm \<Rightarrow> nat list \<Rightarrow> nat option \<Rightarrow> u64 \<Rightarrow> nat option" where
  "oldest_index H F m [] oldest oldestTime = oldest"
| "oldest_index H F m (i # is) oldest oldestTime =
     (let openPath = hm_valueAtIndex H m i
      in if \<not> fv_valid F (op_handle openPath) then Some i
         else if op_lastAccess openPath < oldestTime \<and> fv_numReferences F (op_accessor openPath) \<le> 1
         then oldest_index H F m is (Some i) (op_lastAccess openPath)
         else oldest_index H F m is oldest oldestTime)"

definition addRaw ::
  "('m, ('h, 'a) open_path_t) hashmap_ops \<Rightarrow> ('h, 'a) file_env \<Rightarrow> u64 \<Rightarrow> string \<Rightarrow> 'h \<Rightarrow> 'a \<Rightarrow>
   'm CustomizableFileCache \<Rightarrow> 'm CustomizableFileCache" where
  "addRaw H F now path handle accessor c =
     (if \<not> fv_valid F handle then c
      else let m = fc_openPaths c;
               m = (if hm_size H m \<ge> hm_capacity H m
                    then (case oldest_index H F m [0 ..< hm_capacity H m] None (- 1) of
                            None \<Rightarrow> m
                          | Some i \<Rightarrow> hm_remove H (hm_keyAtIndex H m i) m)
                    else m)
           in c\<lparr>fc_openPaths := hm_put H path \<lparr>op_lastAccess = now, op_accessor = accessor, op_handle = handle\<rparr> m\<rparr>)"

definition cache_add ::
  "('m, ('h, 'a) open_path_t) hashmap_ops \<Rightarrow> ('h, 'a) file_env \<Rightarrow> u64 \<Rightarrow> string \<Rightarrow> 'h \<Rightarrow> 'a \<Rightarrow>
   'm CustomizableFileCache \<Rightarrow> 'm CustomizableFileCache" where
  "cache_add H F now path handle accessor c = addRaw H F now path handle accessor c"

definition cache_open ::
  "('m, ('h, 'a) open_path_t) hashmap_ops \<Rightarrow> ('h, 'a) file_env \<Rightarrow> u64 \<Rightarrow> string \<Rightarrow>
   'm CustomizableFileCache \<Rightarrow> 'a option result \<times> 'm CustomizableFileCache" where
  "cache_open H F now path c =
     (let full = fullPath c path;
          miss = (\<lambda>c. let handle = fv_open F full
                      in if \<not> fv_valid F handle then (Inr None, c)
                         else let accessor = fv_builder F handle
                              in if fv_isUnique F accessor then (Inl Runtime_error, c)
                                 else (Inr (Some accessor), addRaw H F now full handle accessor c))
      in case hm_get H (fc_openPaths c) full of
           Some openPath \<Rightarrow>
             if fv_valid F (op_handle openPath)
             then (Inr (Some (op_accessor openPath)),
                   c\<lparr>fc_openPaths := hm_put H full (openPath\<lparr>op_lastAccess := now\<rparr>) (fc_openPaths c)\<rparr>)
             else miss (c\<lparr>fc_openPaths := hm_remove H full (fc_openPaths c)\<rparr>)
         | None \<Rightarrow> miss c)"

subsection \<open>Which entry is dropped\<close>

lemma hashmap_contractD:
  assumes "hashmap_contract H"
  shows hm_get_put: "hm_get H (hm_put H k v m) = (hm_get H m)(k \<mapsto> v)"
    and hm_get_remove: "hm_get H (hm_remove H k m) = (hm_get H m)(k := None)"
    and hm_full: "hm_size H m \<ge> hm_capacity H m \<Longrightarrow> i < hm_capacity H m \<Longrightarrow>
        hm_get H m (hm_keyAtIndex H m i) = Some (hm_valueAtIndex H m i)"
  using assms by (simp_all add: hashmap_contract_def)

definition unused :: "('h, 'a) file_env \<Rightarrow> ('h, 'a) open_path_t \<Rightarrow> bool" where
  "unused F p \<longleftrightarrow> fv_numReferences F (op_accessor p) \<le> 1"

lemma oldest_index_in:
  "oldest_index H F m is oldest t = Some i \<Longrightarrow> oldest = Some i \<or>
     i \<in> set is \<and> (\<not> fv_valid F (op_handle (hm_valueAtIndex H m i)) \<or> unused F (hm_valueAtIndex H m i))"
  by (induction H F m "is" oldest t rule: oldest_index.induct)
    (auto simp: Let_def unused_def split: if_splits)

lemma oldest_index_Some_start: "oldest_index H F m is (Some i) t \<noteq> None"
  by (induction "is" arbitrary: i t) (auto simp: Let_def)

lemma oldest_index_least:
  assumes "\<forall>i \<in> set is. fv_valid F (op_handle (hm_valueAtIndex H m i))"
  shows "case oldest_index H F m is oldest t of
      None \<Rightarrow> \<forall>i \<in> set is. unused F (hm_valueAtIndex H m i) \<longrightarrow> t \<le> op_lastAccess (hm_valueAtIndex H m i)
    | Some j \<Rightarrow>
        oldest = Some j \<and> (\<forall>i \<in> set is. unused F (hm_valueAtIndex H m i) \<longrightarrow> t \<le> op_lastAccess (hm_valueAtIndex H m i)) \<or>
        op_lastAccess (hm_valueAtIndex H m j) < t \<and>
        (\<forall>i \<in> set is. unused F (hm_valueAtIndex H m i) \<longrightarrow>
          op_lastAccess (hm_valueAtIndex H m j) \<le> op_lastAccess (hm_valueAtIndex H m i))"
  using assms
proof (induction H F m "is" oldest t rule: oldest_index.induct)
  case (2 H F m i "is" oldest t)
  let ?p = "hm_valueAtIndex H m i"
  have v: "fv_valid F (op_handle ?p)" "\<forall>i \<in> set is. fv_valid F (op_handle (hm_valueAtIndex H m i))" using 2(3) by auto
  show ?case
  proof (cases "op_lastAccess ?p < t \<and> unused F ?p")
    case True
    then have "oldest_index H F m (i # is) oldest t = oldest_index H F m is (Some i) (op_lastAccess ?p)"
      using v(1) by (simp add: unused_def Let_def)
    with 2(1) [OF refl] v True show ?thesis
      by (auto simp: unused_def oldest_index_Some_start split: option.splits)
  next
    case False
    then have "oldest_index H F m (i # is) oldest t = oldest_index H F m is oldest t"
      using v(1) by (auto simp: unused_def Let_def)
    with 2(2) [OF refl] v False show ?thesis
      by (auto simp: unused_def not_less split: option.splits)
  qed
qed (auto split: option.splits)

lemma addRaw_get:
  assumes "hashmap_contract H"
  shows "fc_root (addRaw H F now path h a c) = fc_root c"
    and "fv_valid F h \<Longrightarrow> hm_get H (fc_openPaths (addRaw H F now path h a c)) path =
      Some \<lparr>op_lastAccess = now, op_accessor = a, op_handle = h\<rparr>"
  by (simp_all add: addRaw_def Let_def hm_get_put [OF assms])

lemma addRaw_keeps_used:
  assumes H: "hashmap_contract H" and p: "hm_get H (fc_openPaths c) k = Some p"
    and used: "fv_valid F (op_handle p)" "\<not> unused F p" and "k \<noteq> path"
  shows "hm_get H (fc_openPaths (addRaw H F now path h a c)) k = Some p"
proof (cases "hm_size H (fc_openPaths c) \<ge> hm_capacity H (fc_openPaths c)")
  case True
  let ?m = "fc_openPaths c"
  have "hm_keyAtIndex H ?m i \<noteq> k"
    if "oldest_index H F ?m [0 ..< hm_capacity H ?m] None (- 1) = Some i" for i
  proof
    assume "hm_keyAtIndex H ?m i = k"
    moreover note oldest_index_in [OF that]
    ultimately show False using hm_full [OF H True, of i] p used by auto
  qed
  then show ?thesis
    using p \<open>k \<noteq> path\<close> by (auto simp: addRaw_def Let_def hm_get_put [OF H] hm_get_remove [OF H] split: option.splits)
next
  case False
  then show ?thesis using p \<open>k \<noteq> path\<close> by (simp add: addRaw_def Let_def hm_get_put [OF H])
qed

lemma open_again_same:
  assumes H: "hashmap_contract H" and first: "cache_open H F now path c = (Inr (Some a), c')"
    and valid: "fv_valid F' = fv_valid F"
  shows "\<exists>c''. cache_open H F' now' path c' = (Inr (Some a), c'')"
proof -
  have "fc_root c' = fc_root c"
    using first addRaw_get(1) [OF H] by (auto simp: cache_open_def Let_def split: option.splits if_splits)
  then have full: "fullPath c' path = fullPath c path" by (simp add: fullPath_def)
  have "\<exists>p. hm_get H (fc_openPaths c') (fullPath c path) = Some p \<and> fv_valid F (op_handle p) \<and> op_accessor p = a"
    using first by (auto simp: cache_open_def Let_def hm_get_put [OF H] addRaw_get(2) [OF H] split: option.splits if_splits)
  then show ?thesis by (auto simp: cache_open_def Let_def full valid)
qed

lemma open_keeps_used:
  assumes H: "hashmap_contract H" and run: "cache_open H F now path c = (r, c')"
    and p: "hm_get H (fc_openPaths c) k = Some p" and used: "fv_valid F (op_handle p)" "1 < fv_numReferences F (op_accessor p)"
  shows "\<exists>t. hm_get H (fc_openPaths c') k = Some (p\<lparr>op_lastAccess := t\<rparr>)"
proof (cases "k = fullPath c path")
  case True
  then have "hm_get H (fc_openPaths c') k = Some (p\<lparr>op_lastAccess := now\<rparr>)"
    using run p used(1) by (auto simp: cache_open_def Let_def hm_get_put [OF H])
  then show ?thesis by blast
next
  case False
  have u: "\<not> unused F p" using used(2) by (simp add: unused_def)
  have "hm_get H (fc_openPaths c') k = Some p"
  proof (cases "hm_get H (fc_openPaths c) (fullPath c path)")
    case None
    then show ?thesis
      using run p addRaw_keeps_used [OF H p used(1) u False]
      by (auto simp: cache_open_def Let_def split: if_splits)
  next
    case (Some q)
    let ?c = "c\<lparr>fc_openPaths := hm_remove H (fullPath c path) (fc_openPaths c)\<rparr>"
    have "hm_get H (fc_openPaths ?c) k = Some p" using p False by (simp add: hm_get_remove [OF H])
    then show ?thesis
      using run Some p False addRaw_keeps_used [OF H _ used(1) u False, of ?c]
      by (auto simp: cache_open_def Let_def hm_get_put [OF H] hm_get_remove [OF H] split: if_splits)
  qed
  then have "hm_get H (fc_openPaths c') k = Some (p\<lparr>op_lastAccess := op_lastAccess p\<rparr>)" by simp
  then show ?thesis by blast
qed

subsection \<open>Properties\<close>

text \<open>
  (cache reopen same): once \<open>open\<close> has returned an accessor for a path, opening the path
  again returns the same accessor for as long as the file handle is valid, without opening the
  file or building an accessor: two users of one file share one object.
\<close>

theorem cache_reopen_same:
  assumes H: "hashmap_contract H" and first: "cache_open H F now path c = (Inr (Some a), c')"
    and valid: "fv_valid F' = fv_valid F"
  shows "\<exists>c''. cache_open H F' now' path c' = (Inr (Some a), c'')"
  using assms by (rule open_again_same)

text \<open>
  (cache keeps used files): opening a file never drops another file that somebody still
  uses (its accessor has a reference besides the cache's), even when the cache is full: the
  entry keeps its accessor and handle.
\<close>

theorem cache_keeps_used_files:
  assumes H: "hashmap_contract H" and run: "cache_open H F now path c = (r, c')"
    and p: "hm_get H (fc_openPaths c) k = Some p" and used: "fv_valid F (op_handle p)" "1 < fv_numReferences F (op_accessor p)"
  shows "\<exists>t. hm_get H (fc_openPaths c') k = Some (p\<lparr>op_lastAccess := t\<rparr>)"
  using assms by (rule open_keeps_used)

text \<open>
  (cache drops least recent): adding a file to a full cache whose handles are all valid
  drops nothing when every file is in use, and otherwise exactly one file: an unused one that
  was accessed least recently among the unused ones.
\<close>

theorem cache_drops_least_recent:
  assumes H: "hashmap_contract H" and m: "m = fc_openPaths c" and full: "hm_size H m \<ge> hm_capacity H m"
    and valid: "\<forall>i < hm_capacity H m. fv_valid F (op_handle (hm_valueAtIndex H m i))" and h: "fv_valid F h"
  shows "(\<forall>k. k \<noteq> path \<longrightarrow> hm_get H (fc_openPaths (addRaw H F now path h a c)) k = hm_get H m k) \<and>
      (\<forall>i < hm_capacity H m. unused F (hm_valueAtIndex H m i) \<longrightarrow> op_lastAccess (hm_valueAtIndex H m i) = - 1) \<or>
    (\<exists>j < hm_capacity H m. unused F (hm_valueAtIndex H m j) \<and>
      (\<forall>i < hm_capacity H m. unused F (hm_valueAtIndex H m i) \<longrightarrow>
         op_lastAccess (hm_valueAtIndex H m j) \<le> op_lastAccess (hm_valueAtIndex H m i)) \<and>
      (\<forall>k. k \<noteq> path \<longrightarrow> hm_get H (fc_openPaths (addRaw H F now path h a c)) k =
         (if k = hm_keyAtIndex H m j then None else hm_get H m k)))"
proof -
  let ?is = "[0 ..< hm_capacity H m]"
  have v: "\<forall>i \<in> set ?is. fv_valid F (op_handle (hm_valueAtIndex H m i))" using valid by simp
  show ?thesis
  proof (cases "oldest_index H F m ?is None (- 1)")
    case None
    have top: "(- 1 :: u64) \<le> x \<longleftrightarrow> x = - 1" for x
      by (metis max_word_max order_antisym order_refl)
    have "unused F (hm_valueAtIndex H m i) \<longrightarrow> op_lastAccess (hm_valueAtIndex H m i) = - 1" if "i < hm_capacity H m" for i
      using oldest_index_least [OF v, where oldest = None and t = "- 1"] that by (simp add: None top)
    then show ?thesis using None h full by (auto simp: addRaw_def Let_def hm_get_put [OF H] m)
  next
    case (Some j)
    then have "j < hm_capacity H m" "unused F (hm_valueAtIndex H m j)"
      using oldest_index_in [OF Some] valid by auto
    moreover have "\<forall>i < hm_capacity H m. unused F (hm_valueAtIndex H m i) \<longrightarrow>
        op_lastAccess (hm_valueAtIndex H m j) \<le> op_lastAccess (hm_valueAtIndex H m i)"
      using oldest_index_least [OF v, where oldest = None and t = "- 1"] by (simp add: Some)
    ultimately show ?thesis
      using Some h full by (auto simp: addRaw_def Let_def hm_get_put [OF H] hm_get_remove [OF H] m)
  qed
qed

subsection \<open>Witnesses\<close>

definition two_slots :: "((string \<times> 'v) list, 'v) hashmap_ops" where
  "two_slots =
     \<lparr>hm_get = map_of, hm_put = (\<lambda>k v m. (k, v) # filter (\<lambda>x. fst x \<noteq> k) m),
      hm_remove = (\<lambda>k m. filter (\<lambda>x. fst x \<noteq> k) m), hm_size = (\<lambda>m. card (fst ` set m)), hm_capacity = (\<lambda>_. 2),
      hm_keyAtIndex = (\<lambda>m i. remdups (map fst m) ! i),
      hm_valueAtIndex = (\<lambda>m i. the (map_of m (remdups (map fst m) ! i)))\<rparr>"

lemma map_of_filter_key: "map_of (filter (\<lambda>x. fst x \<noteq> k) m) = (map_of m)(k := None)"
  by (induction m) (auto simp: fun_eq_iff)

lemma two_slots_contract: "hashmap_contract (two_slots :: ((string \<times> 'v) list, 'v) hashmap_ops)"
proof -
  have "map_of m (remdups (map fst m) ! i) = Some (the (map_of m (remdups (map fst m) ! i)))"
    if "2 \<le> card (fst ` set m)" "i < 2" for m :: "(string \<times> 'v) list" and i
  proof -
    have "length (remdups (map fst m)) = card (fst ` set m)" by (simp add: length_remdups_card_conv)
    then have "remdups (map fst m) ! i \<in> set (remdups (map fst m))" using that by (intro nth_mem) simp
    then have "map_of m (remdups (map fst m) ! i) \<noteq> None" by (simp add: map_of_eq_None_iff)
    then show ?thesis by simp
  qed
  then show ?thesis
    by (simp add: hashmap_contract_def two_slots_def map_of_filter_key dom_map_of_conv_image_fst)
qed

definition sample_files :: "(nat, nat) file_env" where
  "sample_files = \<lparr>fv_valid = (\<lambda>_. True), fv_open = length, fv_builder = (\<lambda>h. h + 100), fv_isUnique = (\<lambda>_. False),
     fv_numReferences = (\<lambda>a. if a = 104 then 2 else 1)\<rparr>"

abbreviation sample_path :: "u64 \<Rightarrow> nat \<Rightarrow> (nat, nat) open_path_t" where
  "sample_path t h \<equiv> \<lparr>op_lastAccess = t, op_accessor = h + 100, op_handle = h\<rparr>"

definition sample_cache :: "(string \<times> (nat, nat) open_path_t) list CustomizableFileCache" where
  "sample_cache = \<lparr>fc_root = ''/'', fc_openPaths = [(''/0.b'', sample_path 5 4), (''/10.b'', sample_path 9 5)]\<rparr>"

lemmas sample_cache_run = cache_open_def fullPath_def sample_cache_def two_slots_def sample_files_def

theorem cache_reopen_same_witness:
  "\<exists>c''. cache_open two_slots sample_files 20 ''2.bi'' (snd (cache_open two_slots sample_files 10 ''2.bi'' sample_cache)) =
     (Inr (Some 105), c'')"
proof -
  have "fst (cache_open two_slots sample_files 10 ''2.bi'' sample_cache) = Inr (Some 105)"
    by (simp add: sample_cache_run)
  then have "cache_open two_slots sample_files 10 ''2.bi'' sample_cache =
      (Inr (Some 105), snd (cache_open two_slots sample_files 10 ''2.bi'' sample_cache))" by (simp add: prod_eq_iff)
  then show ?thesis by (rule cache_reopen_same [OF two_slots_contract _ refl])
qed

theorem cache_keeps_used_files_witness:
  "\<exists>t. hm_get two_slots (fc_openPaths (snd (cache_open two_slots sample_files 10 ''2.bi'' sample_cache))) ''/0.b'' =
     Some (sample_path t 4)"
  using cache_keeps_used_files [OF two_slots_contract prod.collapse [symmetric], of sample_cache "''/0.b''" "sample_path 5 4" sample_files 10 "''2.bi''"]
  by (simp add: sample_cache_run)

theorem cache_drops_least_recent_witness:
  "\<exists>j < 2. hm_get two_slots (fc_openPaths (addRaw two_slots sample_files 10 ''/x'' 7 107 sample_cache))
     (hm_keyAtIndex two_slots (fc_openPaths sample_cache) j) = None"
proof -
  have full: "hm_size two_slots (fc_openPaths sample_cache) \<ge> hm_capacity two_slots (fc_openPaths sample_cache)"
    by (simp add: two_slots_def sample_cache_def)
  have "\<not> (\<forall>i < 2. unused sample_files (hm_valueAtIndex two_slots (fc_openPaths sample_cache) i) \<longrightarrow>
      op_lastAccess (hm_valueAtIndex two_slots (fc_openPaths sample_cache) i) = - 1)"
    by (auto simp: two_slots_def sample_cache_def unused_def sample_files_def intro!: exI [of _ 1])
  moreover have "hm_capacity two_slots m = 2" for m :: "(string \<times> (nat, nat) open_path_t) list" by (simp add: two_slots_def)
  moreover have "hm_keyAtIndex two_slots (fc_openPaths sample_cache) j \<noteq> ''/x''" if "j < 2" for j
    using that by (auto simp: two_slots_def sample_cache_def less_2_cases_iff)
  ultimately show ?thesis
    using cache_drops_least_recent [OF two_slots_contract refl full, of sample_files 7 "''/x''" 10 107]
    by (auto simp: sample_files_def)
qed

end
