(* ===== verification/FileNames.thy ===== *)
theory FileNames
  imports CustomizableFileCache BlockchainBackend
begin

text \<open>
  How the two stores name their files in the cache: \<open>idToFilename\<close> of
  \<^verbatim>\<open>src/storage/Catalog.cpp\<close> and the path in \<open>BlockchainBackend::getEpochFile\<close>.  The models of
  the catalog and of the backend index their files by id, one object per id; this theory
  shows that the cache gives them that: different ids have different paths, and a file that is
  in use is handed out as the same object however many other files are opened meanwhile.
\<close>

text \<open>\<open>std::to_string\<close> of an unsigned integer.\<close>

fun to_string :: "nat \<Rightarrow> string" where
  "to_string n = (if n < 10 then [char_of (48 + n)] else to_string (n div 10) @ [char_of (48 + n mod 10)])"

declare to_string.simps [simp del]

definition idToFilename :: "u64 \<Rightarrow> string" where
  "idToFilename i = to_string (unat i) @ ''.bin''"

definition epochFilename :: "u64 \<Rightarrow> string" where
  "epochFilename blockNumber = to_string (unat (epoch_number blockNumber)) @ ''.bin''"

definition dec_value :: "string \<Rightarrow> nat" where
  "dec_value s = foldl (\<lambda>v c. 10 * v + (of_char c - 48)) 0 s"

lemma dec_value_to_string: "dec_value (to_string n) = n"
proof (induction n rule: to_string.induct)
  case (1 n)
  show ?case
  proof (cases "n < 10")
    case True
    then show ?thesis by (simp add: to_string.simps [of n] dec_value_def)
  next
    case False
    with 1 have "dec_value (to_string (n div 10)) = n div 10" by simp
    with False show ?thesis by (simp add: to_string.simps [of n] dec_value_def)
  qed
qed

lemma to_string_digits: "c \<in> set (to_string n) \<Longrightarrow> 48 \<le> (of_char c :: nat)"
proof (induction n rule: to_string.induct)
  case (1 n)
  then show ?case
    by (cases "n < 10") (auto simp: to_string.simps [of n])
qed

lemma to_string_inj: "to_string a = to_string b \<longleftrightarrow> a = b"
  using dec_value_to_string by metis

lemma to_string_relative: "to_string n \<noteq> [] \<and> hd (to_string n) \<noteq> CHR ''/''"
proof -
  have ne: "to_string n \<noteq> []" by (simp add: to_string.simps [of n])
  have "48 \<le> (of_char (hd (to_string n)) :: nat)" using ne by (intro to_string_digits [of _ n]) simp
  with ne show ?thesis by auto
qed

lemma fullPath_to_string: "fullPath c (to_string n @ s) = fc_root c @ to_string n @ s"
  using to_string_relative [of n] by (auto simp: fullPath_def)

subsection \<open>A sequence of opens\<close>

text \<open>
  Any number of \<open>open\<close> calls, of any paths and at any times, in file worlds that satisfy \<open>P\<close>.
\<close>

inductive opens ::
  "('m, ('h, 'a) open_path_t) hashmap_ops \<Rightarrow> (('h, 'a) file_env \<Rightarrow> bool) \<Rightarrow>
   'm CustomizableFileCache \<Rightarrow> 'm CustomizableFileCache \<Rightarrow> bool" for H P where
  opens_none: "opens H P c c"
| opens_one: "opens H P c c' \<Longrightarrow> P F \<Longrightarrow> cache_open H F now path c' = (r, c'') \<Longrightarrow> opens H P c c''"

lemma cache_open_root:
  "hashmap_contract H \<Longrightarrow> cache_open H F now path c = (r, c') \<Longrightarrow> fc_root c' = fc_root c"
  by (auto simp: cache_open_def Let_def addRaw_get(1) split: option.splits if_splits)

lemma opens_keeps_used:
  assumes H: "hashmap_contract H" and run: "opens H P c c'"
    and P: "\<And>F. P F \<Longrightarrow> fv_valid F (op_handle p) \<and> 1 < fv_numReferences F (op_accessor p)"
    and p: "hm_get H (fc_openPaths c) k = Some p"
  shows "fc_root c' = fc_root c \<and> (\<exists>t. hm_get H (fc_openPaths c') k = Some (p\<lparr>op_lastAccess := t\<rparr>))"
  using run p
proof (induction rule: opens.induct)
  case (opens_none c)
  then have "hm_get H (fc_openPaths c) k = Some (p\<lparr>op_lastAccess := op_lastAccess p\<rparr>)" by simp
  then show ?case by blast
next
  case (opens_one c c' F now path r c'')
  then obtain t where "hm_get H (fc_openPaths c') k = Some (p\<lparr>op_lastAccess := t\<rparr>)" by blast
  from open_keeps_used [OF H opens_one.hyps(3) this] P [OF opens_one.hyps(2)]
  show ?case using cache_open_root [OF H opens_one.hyps(3)] opens_one.IH [OF opens_one.prems] by auto
qed

lemma cache_open_entry:
  assumes H: "hashmap_contract H" and first: "cache_open H F now path c = (Inr (Some a), c')"
  shows "\<exists>p. hm_get H (fc_openPaths c') (fullPath c path) = Some p \<and> fv_valid F (op_handle p) \<and> op_accessor p = a"
  using first by (auto simp: cache_open_def Let_def hm_get_put [OF H] addRaw_get(2) [OF H] split: option.splits if_splits)

subsection \<open>Properties\<close>

text \<open>
  C40 (FileNames.file_objects_by_id): the caches of the catalog and of the backend keep one object per file.  Once \<open>open\<close> has
  handed out the accessor of the catalog file with id \<open>i\<close>, or of the epoch file of block \<open>n\<close>, and while
  somebody holds it and the handles stay valid, any number of further opens can happen and opening the
  same file again still returns the same accessor.  Catalog files with different ids never have
  the same path, nor do epoch files of different epochs.
\<close>

theorem file_objects_by_id:
  assumes H: "hashmap_contract H" and name: "name = idToFilename i \<or> name = epochFilename n"
    and first: "cache_open H F now name c = (Inr (Some a), c1)"
    and run: "opens H (\<lambda>G. fv_valid G = fv_valid F \<and> 1 < fv_numReferences G a) c1 c2"
    and valid: "fv_valid F' = fv_valid F"
  shows "(\<exists>c3. cache_open H F' now' name c2 = (Inr (Some a), c3)) \<and>
    (\<forall>j. fullPath c2 (idToFilename j) = fullPath c2 (idToFilename i) \<longleftrightarrow> j = i) \<and>
    (\<forall>m. fullPath c2 (epochFilename m) = fullPath c2 (epochFilename n) \<longleftrightarrow> epoch_number m = epoch_number n)"
proof -
  obtain p where p: "hm_get H (fc_openPaths c1) (fullPath c name) = Some p" "fv_valid F (op_handle p)" "op_accessor p = a"
    using cache_open_entry [OF H first] by blast
  from opens_keeps_used [OF H run _ p(1)] p(2,3) obtain t where root: "fc_root c2 = fc_root c1"
    and q: "hm_get H (fc_openPaths c2) (fullPath c name) = Some (p\<lparr>op_lastAccess := t\<rparr>)" by auto
  have "fullPath c2 name = fullPath c name"
    using root cache_open_root [OF H first] by (simp add: fullPath_def)
  then have "\<exists>c3. cache_open H F' now' name c2 = (Inr (Some a), c3)"
    using q p(2,3) by (simp add: cache_open_def Let_def valid)
  then show ?thesis
    by (simp add: idToFilename_def epochFilename_def fullPath_to_string to_string_inj unat_eq_unat)
qed

subsection \<open>Witnesses\<close>

text \<open>A cache with two slots, file 7 held while files 8 and 9 are opened.\<close>

definition "held_files = sample_files\<lparr>fv_numReferences := (\<lambda>_. 2)\<rparr>"
definition "cache_7 = snd (cache_open two_slots sample_files 10 (idToFilename 7) sample_cache)"
definition "cache_8 = snd (cache_open two_slots held_files 11 (idToFilename 8) cache_7)"
definition "cache_9 = snd (cache_open two_slots held_files 12 (idToFilename 9) cache_8)"

theorem file_objects_by_id_witness:
  "\<exists>c3. cache_open two_slots held_files 13 (idToFilename 7) cache_9 = (Inr (Some 106), c3)"
proof -
  have "to_string 7 = ''7''" by (simp add: to_string.simps [of 7] char_of_eq_iff take_bit_eq_mod)
  then have "fst (cache_open two_slots sample_files 10 (idToFilename 7) sample_cache) = Inr (Some 106)"
    by (simp add: idToFilename_def sample_cache_run)
  then have first: "cache_open two_slots sample_files 10 (idToFilename 7) sample_cache = (Inr (Some 106), cache_7)"
    by (simp add: prod_eq_iff cache_7_def)
  let ?P = "\<lambda>G. fv_valid G = fv_valid sample_files \<and> 1 < fv_numReferences G 106"
  have held: "?P held_files" by (simp add: held_files_def)
  have "cache_open two_slots held_files 11 (idToFilename 8) cache_7 =
      (fst (cache_open two_slots held_files 11 (idToFilename 8) cache_7), cache_8)" by (simp add: cache_8_def)
  with opens_none held have o8: "opens two_slots ?P cache_7 cache_8" by (rule opens_one [where P = ?P])
  have e9: "cache_open two_slots held_files 12 (idToFilename 9) cache_8 =
      (fst (cache_open two_slots held_files 12 (idToFilename 9) cache_8), cache_9)" by (simp add: cache_9_def)
  have "opens two_slots ?P cache_7 cache_9" by (rule opens_one [where P = ?P, OF o8 held e9])
  from file_objects_by_id [OF two_slots_contract disjI1 [OF refl] first this, of held_files 13] show ?thesis
    using held by simp
qed

end
