(* ===== verification/TestChainDesign.thy ===== *)
theory TestChainDesign
  imports BlockchainFrontend
begin

text \<open>
  \<^verbatim>\<open>src/testutil/TestChainDesign.{h,cpp}\<close>: the chain the test suite runs, a global sum.  It is
  an application of the library that lives in the repository, so the parameters of the
  other theories (transactions, override families, design) get their instance here, and the
  path from a committed block through the catalog back to the index can be followed to the
  end.  A C++ \<open>int\<close> is a 32-bit word; its additions wrap (where C++ leaves overflow
  undefined).
\<close>

record TestTransaction =
  tt_value :: u32
  tt_timestamp :: u64
  tt_id :: u32

definition new_TestTransaction :: "u64 \<Rightarrow> u32 \<Rightarrow> u32 \<Rightarrow> TestTransaction" where
  "new_TestTransaction now val txid = \<lparr>tt_value = val, tt_timestamp = now, tt_id = txid\<rparr>"

record TestSumOverrideFamily =
  tf_sumDelta :: u32
  tf_countDelta :: u32
  tf_dirty :: bool
  tf_index :: "string BlockchainIndex option"

definition new_TestSumOverrideFamily :: TestSumOverrideFamily where
  "new_TestSumOverrideFamily = \<lparr>tf_sumDelta = 0, tf_countDelta = 0, tf_dirty = False, tf_index = None\<rparr>"

definition test_attach :: "string BlockchainIndex \<Rightarrow> TestSumOverrideFamily \<Rightarrow> TestSumOverrideFamily" where
  "test_attach idx fam = fam\<lparr>tf_index := Some idx\<rparr>"

subsection \<open>Reading the committed state\<close>

text \<open>
  The variables of \<open>readLatestSegment\<close> that its callback updates.  The callback's test for a
  null pointer has no counterpart: a mapping that exists has an address.
\<close>

record latest_segment =
  ls_found :: bool
  ls_bestEnd :: u64
  ls_bestGen :: u32
  ls_bestSum :: u32
  ls_bestCount :: u32

definition no_segment :: latest_segment where
  "no_segment = \<lparr>ls_found = False, ls_bestEnd = 0, ls_bestGen = 0, ls_bestSum = 0, ls_bestCount = 0\<rparr>"

definition consider_segment ::
  "'m mmap_ops \<Rightarrow> ('t, 'r, 'd, 'm) segfile_ops \<Rightarrow> u16 \<Rightarrow> ('t, 'r, 'd) CatalogFile \<Rightarrow>
   segment_btree_metadata_t \<Rightarrow> latest_segment \<Rightarrow> latest_segment" where
  "consider_segment M R wantVersion cf s best =
     (if sg_encodingVersion s \<noteq> wantVersion then best
      else if sg_byteLength s < 8 then best
      else let better = (\<not> ls_found best \<or> sg_blockRangeEnd s > ls_bestEnd best \<or>
                 (sg_blockRangeEnd s = ls_bestEnd best \<and> sg_mergeGeneration s > ls_bestGen best))
           in if \<not> better then best
              else let view = openEntry M R (sg_byteOffset s) (sg_byteLength s) cf;
                       data = mm_peek M (mm_tell M view) 8 view
                   in \<lparr>ls_found = True, ls_bestEnd = sg_blockRangeEnd s, ls_bestGen = sg_mergeGeneration s,
                       ls_bestSum = word_of_nat (le_nat (take 4 data)),
                       ls_bestCount = word_of_nat (le_nat (drop 4 data))\<rparr>)"

fun latest_in_files ::
  "'m mmap_ops \<Rightarrow> ('tt, 'b, 't, 'r, 'd, 'm) catalog_env \<Rightarrow> u16 \<Rightarrow> u16 \<Rightarrow> ('tt, 'b, 't, 'r, 'd) Catalog \<Rightarrow>
   u64 list \<Rightarrow> latest_segment \<Rightarrow> latest_segment option" where
  "latest_in_files M E indexId wantVersion cat [] best = Some best"
| "latest_in_files M E indexId wantVersion cat (f # fs) best =
     (case getCatalogFile E f cat of
        None \<Rightarrow> latest_in_files M E indexId wantVersion cat fs best
      | Some g \<Rightarrow>
          (case ct_files cat g of
             None \<Rightarrow> latest_in_files M E indexId wantVersion cat fs best
           | Some cf \<Rightarrow>
               (case forEachSegment (en_seg E) indexId 0 (- 1) (consider_segment M (en_segfile E) wantVersion cf) cf best of
                  None \<Rightarrow> None
                | Some best \<Rightarrow> latest_in_files M E indexId wantVersion cat fs best)))"

text \<open>
  The result is \<open>None\<close> when a scan runs forever, otherwise the two out parameters.
  \<open>now\<close> is the clock reading of \<open>rangeScan\<close>.
\<close>

definition readLatestSegment ::
  "'m mmap_ops \<Rightarrow> ('tt, 'b, 't, 'r, 'd, 'm) catalog_env \<Rightarrow> u64 \<Rightarrow> string BlockchainIndex \<Rightarrow>
   ('tt, 'b, 't, 'r, 'd) Catalog \<Rightarrow> (u32 \<times> u32) option" where
  "readLatestSegment M E now self cat =
     (if ix_attachedCatalog self = None then Some (0, 0)
      else case rangeScan E now (ix_attachedIndexId self) 0 (- 1) cat of
        None \<Rightarrow> None
      | Some fileIds \<Rightarrow>
          if length fileIds = 0 then Some (0, 0)
          else case latest_in_files M E (ix_attachedIndexId self) (ix_encodingVersion self) cat fileIds no_segment of
                 None \<Rightarrow> None
               | Some best \<Rightarrow> if \<not> ls_found best then Some (0, 0) else Some (ls_bestSum best, ls_bestCount best))"

definition latestSum ::
  "'m mmap_ops \<Rightarrow> ('tt, 'b, 't, 'r, 'd, 'm) catalog_env \<Rightarrow> u64 \<Rightarrow> string BlockchainIndex \<Rightarrow>
   ('tt, 'b, 't, 'r, 'd) Catalog \<Rightarrow> u32 option" where
  "latestSum M E now self cat = map_option fst (readLatestSegment M E now self cat)"

definition latestCount ::
  "'m mmap_ops \<Rightarrow> ('tt, 'b, 't, 'r, 'd, 'm) catalog_env \<Rightarrow> u64 \<Rightarrow> string BlockchainIndex \<Rightarrow>
   ('tt, 'b, 't, 'r, 'd) Catalog \<Rightarrow> u32 option" where
  "latestCount M E now self cat = map_option snd (readLatestSegment M E now self cat)"

text \<open>\<open>mergeSegments\<close> of the test index takes the coordinates of segments and gives up on the merge.\<close>

record segment_coordinate_t =
  sc_fileId :: u64
  sc_offset :: u64
  sc_length :: u64

definition test_mergeSegments :: "segment_coordinate_t list \<Rightarrow> byte list" where
  "test_mergeSegments inputs = []"

subsection \<open>The override family\<close>

definition fam_sum ::
  "'m mmap_ops \<Rightarrow> ('tt, 'b, 't, 'r, 'd, 'm) catalog_env \<Rightarrow> u64 \<Rightarrow> ('tt, 'b, 't, 'r, 'd) Catalog \<Rightarrow>
   TestSumOverrideFamily \<Rightarrow> u32 option" where
  "fam_sum M E now cat fam =
     map_option (\<lambda>s. s + tf_sumDelta fam)
       (case tf_index fam of None \<Rightarrow> Some 0 | Some index \<Rightarrow> latestSum M E now index cat)"

definition fam_count ::
  "'m mmap_ops \<Rightarrow> ('tt, 'b, 't, 'r, 'd, 'm) catalog_env \<Rightarrow> u64 \<Rightarrow> ('tt, 'b, 't, 'r, 'd) Catalog \<Rightarrow>
   TestSumOverrideFamily \<Rightarrow> u32 option" where
  "fam_count M E now cat fam =
     map_option (\<lambda>c. c + tf_countDelta fam)
       (case tf_index fam of None \<Rightarrow> Some 0 | Some index \<Rightarrow> latestCount M E now index cat)"

definition test_seal ::
  "'m mmap_ops \<Rightarrow> ('tt, 'b, 't, 'r, 'd, 'm) catalog_env \<Rightarrow> u64 \<Rightarrow> ('tt, 'b, 't, 'r, 'd) Catalog \<Rightarrow>
   TestSumOverrideFamily \<Rightarrow> byte list option" where
  "test_seal M E now cat fam =
     (if \<not> tf_dirty fam then Some []
      else case (fam_sum M E now cat fam, fam_count M E now cat fam) of
             (Some absSum, Some absCount) \<Rightarrow> Some (le_bytes 4 (unat absSum) @ le_bytes 4 (unat absCount))
           | _ \<Rightarrow> None)"

subsection \<open>Transactions\<close>

definition test_key :: string where
  "test_key = ''TestSumOverrideFamily''"

definition test_add :: "TestTransaction \<Rightarrow> TestSumOverrideFamily \<Rightarrow> TestSumOverrideFamily" where
  "test_add tx fam =
     fam\<lparr>tf_sumDelta := tf_sumDelta fam + tt_value tx, tf_countDelta := tf_countDelta fam + 1, tf_dirty := True\<rparr>"

text \<open>
  \<open>override<TestSumOverrideFamily>(0)\<close> exists in every override of the chain; on an override
  without it the model leaves the state alone.
\<close>

definition test_apply ::
  "TestTransaction \<Rightarrow> (string, TestSumOverrideFamily) StateOverride \<Rightarrow>
   bool \<times> (string, TestSumOverrideFamily) StateOverride" where
  "test_apply tx state =
     (case override_mut test_key 0 (test_add tx) state of Inl e \<Rightarrow> (False, state) | Inr s \<Rightarrow> (True, s))"

text \<open>\<open>(float)value\<close>: round to 24 significant bits, ties to even.\<close>

fun bit_length :: "nat \<Rightarrow> nat" where
  "bit_length n = (if n = 0 then 0 else Suc (bit_length (n div 2)))"

declare bit_length.simps [simp del]

definition round_f32 :: "nat \<Rightarrow> nat" where
  "round_f32 n =
     (let e = bit_length n - 24; q = n div 2 ^ e; r = n mod 2 ^ e
      in (if 2 * r > 2 ^ e \<or> 2 * r = 2 ^ e \<and> odd q then q + 1 else q) * 2 ^ e)"

definition f32_of_int32 :: "u32 \<Rightarrow> flt" where
  "f32_of_int32 v = Fin (of_int (sgn (sint v) * int (round_f32 (nat \<bar>sint v\<bar>))))"

text \<open>The score, from the count the family shows (\<open>fam.count()\<close>).\<close>

definition test_score :: "TestTransaction \<Rightarrow> u32 \<Rightarrow> flt" where
  "test_score tx curCount =
     (if tt_id tx = 2 then (if sint curCount > 0 then Fin 20 else Fin 5)
      else if tt_id tx = 1 then Fin 10
      else if tt_id tx = 3 then (if curCount = 0 then Fin 15 else Fin 1)
      else f32_of_int32 (tt_value tx))"

definition test_write :: "'m mmap_ops \<Rightarrow> TestTransaction \<Rightarrow> 'm \<Rightarrow> 'm" where
  "test_write M tx dst =
     mm_write M (le_bytes 4 (unat (tt_id tx)))
       (mm_write M (le_bytes 4 (unat (tt_value tx)))
         (mm_write M (le_bytes 8 (unat (tt_timestamp tx))) (mm_write M [1] dst)))"

definition createFromMmap :: "'m mmap_ops \<Rightarrow> ('m, TestTransaction) factory" where
  "createFromMmap M src =
     (let (ts, src) = mm_read M 8 src;
          (val, src) = mm_read M 4 src;
          (txid, src) = mm_read M 4 src
      in (Some \<lparr>tt_value = word_of_nat (le_nat val), tt_timestamp = word_of_nat (le_nat ts),
                tt_id = word_of_nat (le_nat txid)\<rparr>, src))"

text \<open>
  The operations as the library sees them.  A score or a payload needs the committed count;
  where reading it would run forever the functions below give 0 and the empty payload, and
  the results that depend on it assume that the scans end.
\<close>

definition test_tx ::
  "'m mmap_ops \<Rightarrow> ('tt, 'b, 't, 'r, 'd, 'm) catalog_env \<Rightarrow> u64 \<Rightarrow> ('tt, 'b, 't, 'r, 'd) Catalog \<Rightarrow>
   (TestTransaction, (string, TestSumOverrideFamily) StateOverride, 'm) tx_ops" where
  "test_tx M E now cat =
     \<lparr>tx_verify = (\<lambda>tx state. True), tx_apply = test_apply,
      tx_computeValue = (\<lambda>tx state. case override_get test_key 0 state of
          Inl e \<Rightarrow> Fin 0
        | Inr fam \<Rightarrow> test_score tx (case fam_count M E now cat fam of None \<Rightarrow> 0 | Some c \<Rightarrow> c)),
      tx_write = test_write M, tx_size = (\<lambda>tx. 1 + 8 + 4 + 4), tx_getTypeId = (\<lambda>tx. 1),
      tx_getTimestamp = tt_timestamp\<rparr>"

definition test_app ::
  "'m mmap_ops \<Rightarrow> ('tt, 'b, 't, 'r, 'd, 'm) catalog_env \<Rightarrow> u64 \<Rightarrow>
   (TestTransaction, string, TestSumOverrideFamily, 'm, ('tt, 'b, 't, 'r, 'd) Catalog) app_ops" where
  "test_app M E now =
     \<lparr>ap_tx = test_tx M E now,
      ap_seal = (\<lambda>cat fam. case test_seal M E now cat fam of None \<Rightarrow> [] | Some payload \<Rightarrow> payload),
      ap_attach = test_attach\<rparr>"

definition test_design :: "'m mmap_ops \<Rightarrow> (TestTransaction, string, TestSumOverrideFamily, 'm) ChainDesign" where
  "test_design M =
     \<lparr>cd_registerIndexes = (\<lambda>registry. registerIndex ''TestSumIndex''
        \<lparr>ix_attachedCatalog = None, ix_attachedIndexId = 0, ix_encodingVersion = 1\<rparr> registry),
      cd_registerOverrides = (\<lambda>registry. registerOverride test_key (\<lambda>_. new_TestSumOverrideFamily) registry),
      cd_registerTransactionTypes = (\<lambda>registry. registerType 1 (createFromMmap M) registry)\<rparr>"

subsection \<open>The serialization rules hold\<close>

definition test_enc :: "TestTransaction \<Rightarrow> byte list" where
  "test_enc tx = 1 # le_bytes 8 (unat (tt_timestamp tx)) @ le_bytes 4 (unat (tt_value tx)) @ le_bytes 4 (unat (tt_id tx))"

lemma length_test_enc [simp]: "length (test_enc tx) = 17"
  by (simp add: test_enc_def)

lemma test_write_enc:
  assumes M: "mmap_contract M V" and "vw_pos V m + 17 \<le> vw_cap V m"
  shows "vw_mem V (test_write M tx m) = mem_store (vw_mem V m) (vw_pos V m) (test_enc tx)"
    and "vw_pos V (test_write M tx m) = vw_pos V m + 17" and "vw_cap V (test_write M tx m) = vw_cap V m"
proof -
  have enc: "test_enc tx = ([1] @ le_bytes 8 (unat (tt_timestamp tx))) @ (le_bytes 4 (unat (tt_value tx)) @ le_bytes 4 (unat (tt_id tx)))"
    by (simp add: test_enc_def)
  show "vw_mem V (test_write M tx m) = mem_store (vw_mem V m) (vw_pos V m) (test_enc tx)"
    unfolding enc mem_store_append [symmetric] using assms(2)
    by (simp add: test_write_def mmap_write [OF M] ac_simps)
  show "vw_pos V (test_write M tx m) = vw_pos V m + 17" and "vw_cap V (test_write M tx m) = vw_cap V m"
    using assms(2) by (simp_all add: test_write_def mmap_write [OF M])
qed

lemma word_of_le_bytes:
  "(word_of_nat (le_nat (le_bytes 8 (unat w))) :: u64) = w" "(word_of_nat (le_nat (le_bytes 4 (unat v))) :: u32) = v"
  using unat_u64_bound [of w] unat_u32_bound [of v] by (simp_all add: le_nat_le_bytes)

lemma createFromMmap_enc:
  assumes M: "mmap_contract M V" and fits: "vw_pos V m + 16 \<le> vw_cap V m"
    and stored: "mem_load (vw_mem V m) (vw_pos V m) 16 = tl (test_enc tx)"
  shows "fst (createFromMmap M m) = Some tx" and "vw_mem V (snd (createFromMmap M m)) = vw_mem V m"
    and "vw_pos V (snd (createFromMmap M m)) = vw_pos V m + 16" and "vw_cap V (snd (createFromMmap M m)) = vw_cap V m"
proof -
  let ?p = "vw_pos V m" and ?mem = "vw_mem V m"
  have "mem_load ?mem ?p (8 + (4 + 4)) =
      le_bytes 8 (unat (tt_timestamp tx)) @ le_bytes 4 (unat (tt_value tx)) @ le_bytes 4 (unat (tt_id tx))"
    using stored by (simp add: test_enc_def)
  then have parts: "mem_load ?mem ?p 8 = le_bytes 8 (unat (tt_timestamp tx))"
    "mem_load ?mem (?p + 8) 4 = le_bytes 4 (unat (tt_value tx))"
    "mem_load ?mem (12 + ?p) 4 = le_bytes 4 (unat (tt_id tx))"
    by (simp_all only: mem_load_add append_eq_append_conv length_mem_load length_le_bytes) (simp_all add: ac_simps)
  show "fst (createFromMmap M m) = Some tx" and "vw_mem V (snd (createFromMmap M m)) = vw_mem V m"
    and "vw_pos V (snd (createFromMmap M m)) = ?p + 16" and "vw_cap V (snd (createFromMmap M m)) = vw_cap V m"
    using fits by (simp_all add: createFromMmap_def case_prod_beta Let_def mmap_read [OF M] parts word_of_le_bytes)
qed

lemma test_codec:
  assumes M: "mmap_contract M V" and reg: "reg 1 = Some (createFromMmap M)"
  shows "tx_codec (test_tx M E now cat) reg V test_enc"
proof -
  have "tl (test_enc x) = le_bytes 8 (unat (tt_timestamp x)) @ le_bytes 4 (unat (tt_value x)) @ le_bytes 4 (unat (tt_id x))" for x
    by (simp add: test_enc_def)
  then show ?thesis
    using test_write_enc [OF M] createFromMmap_enc [OF M] reg
    by (simp add: tx_codec_def test_tx_def) (simp add: test_enc_def)
qed

subsection \<open>Scores\<close>

lemma bit_length_bound: "0 < n \<Longrightarrow> 2 ^ (bit_length n - 1) \<le> n \<and> 0 < bit_length n"
proof (induction n rule: bit_length.induct)
  case (1 n)
  show ?case
  proof (cases "n div 2 = 0")
    case True
    then show ?thesis using "1.prems" by (simp add: bit_length.simps [of n]) (simp add: bit_length.simps)
  next
    case False
    then have "2 ^ (bit_length (n div 2) - 1) \<le> n div 2" "0 < bit_length (n div 2)" using 1 by auto
    then have "2 * 2 ^ (bit_length (n div 2) - 1) \<le> n" by linarith
    then show ?thesis
      using \<open>0 < bit_length (n div 2)\<close> "1.prems" by (simp add: bit_length.simps [of n] power_Suc [symmetric] del: power_Suc)
  qed
qed

lemma scaled_abs_small:
  fixes d k a :: int
  assumes "k * \<bar>d\<bar> \<le> a" and "a < k" and "0 < k"
  shows "d = 0"
proof (rule ccontr)
  assume "d \<noteq> 0"
  then have "k * 1 \<le> k * \<bar>d\<bar>" using assms(3) by (intro mult_left_mono) auto
  with assms(1,2) show False by simp
qed

lemma round_f32_near:
  "2 ^ 24 * \<bar>int (round_f32 n) - int n\<bar> \<le> int n" and round_f32_exact: "n < 2 ^ 24 \<Longrightarrow> round_f32 n = n"
proof -
  define e P q r where "e = bit_length n - 24" and "P = (2 :: nat) ^ e" and "q = n div P" and "r = n mod P"
  have n: "n = q * P + r" unfolding q_def r_def by (rule div_mult_mod_eq [symmetric])
  have r: "r < P" by (simp add: r_def P_def)
  have round: "round_f32 n = (if 2 * r > P \<or> 2 * r = P \<and> odd q then q + 1 else q) * P"
    by (simp only: round_f32_def Let_def e_def P_def q_def r_def)
  have half: "2 * \<bar>int (round_f32 n) - int n\<bar> \<le> int P"
    unfolding round using r by (auto simp: n algebra_simps)
  show "2 ^ 24 * \<bar>int (round_f32 n) - int n\<bar> \<le> int n"
  proof (cases "e = 0")
    case True
    then have "int (round_f32 n) - int n = 0" using half by (intro scaled_abs_small [of 2 _ 1]) (simp_all add: P_def)
    then show ?thesis by simp
  next
    case False
    have "0 < n" using False by (intro gr0I) (simp add: e_def bit_length.simps)
    then have "2 ^ (23 + e) \<le> n" using bit_length_bound [of n] False by (simp add: e_def)
    then have "2 ^ 23 * P \<le> n" by (simp add: power_add P_def)
    then have "2 ^ 23 * int P \<le> int n" by (simp flip: of_nat_le_iff [where 'a = int])
    with half show ?thesis by simp
  qed
  from scaled_abs_small [OF this] show "round_f32 n = n" if "n < 2 ^ 24" using that by simp
qed

subsection \<open>One block on the override\<close>

definition test_state :: "TestSumOverrideFamily \<Rightarrow> (string, TestSumOverrideFamily) StateOverride" where
  "test_state fam = \<lparr>so_families = [test_key \<mapsto> [fam]], so_order = [(test_key, 0)]\<rparr>"

lemma test_state_facts:
  "so_wf (test_state fam)" "familySize (test_state fam) = 1" "familyAt 0 (test_state fam) = Inr fam"
  "override_mut test_key 0 g (test_state fam) = Inr (test_state (g fam))"
  "familyAt_mut 0 g (test_state fam) = Inr (test_state (g fam))"
  by (simp_all add: test_state_def so_wf_def at_most_256_def familySize_def familyAt_def override_get_def
      override_mut_def familyAt_mut_def)

lemma apply_all_test:
  "apply_all (test_tx M E now cat) txs (test_state fam) = test_state (fold test_add txs fam)"
  by (induction txs arbitrary: fam) (simp_all add: test_tx_def test_apply_def test_state_facts)

lemma fold_test_add:
  "fold test_add txs fam =
     fam\<lparr>tf_sumDelta := tf_sumDelta fam + sum_list (map tt_value txs),
        tf_countDelta := tf_countDelta fam + word_of_nat (length txs), tf_dirty := tf_dirty fam \<or> txs \<noteq> []\<rparr>"
  by (induction txs arbitrary: fam) (simp_all add: test_add_def add.assoc)

lemma test_apply_keeps_slots: "apply_keeps_slots (test_tx M E now cat)"
  using override_mut_wf override_mut_order
  by (auto simp: apply_keeps_slots_def test_tx_def test_apply_def split: sum.splits)

text \<open>A backend built on this design.\<close>

abbreviation test_index :: "string \<Rightarrow> string BlockchainIndex" where
  "test_index dataDir \<equiv>
     \<lparr>ix_attachedCatalog = Some (dataDir @ ''/catalog''), ix_attachedIndexId = 0, ix_encodingVersion = 1\<rparr>"

lemma test_backend_fields:
  assumes b: "b = new_BlockchainBackend (test_design M) config dataDir md epochs tracker cat"
  shows "bk_overrideReg b = register_overrides [(test_key, \<lambda>_. new_TestSumOverrideFamily)]"
    and "factories (bk_txTypes b) 1 = Some (createFromMmap M)"
    and "length (br_entries (bk_indexes b)) = 1" and "getIndexAt 0 (bk_indexes b) = Some (test_index dataDir)"
    and "bk_catalog b = cat" and "bk_config b = config"
  by (cases md; auto simp: b new_BlockchainBackend_def test_design_def register_overrides_def
      attachIndexesToStorage_def registerIndex_def new_BackendRegistry_def registerType_def Let_def
      getIndexAt_def family_get_def family_add_def updateIndexAt_def index_attach_def)+

lemma test_newStateOverride:
  assumes "bk_overrideReg b = register_overrides [(test_key, \<lambda>_. new_TestSumOverrideFamily)]"
    and "length (br_entries (bk_indexes b)) = 1" and "getIndexAt 0 (bk_indexes b) = Some ix"
  shows "newStateOverride (test_app M E now) b = Inr (test_state (test_attach ix new_TestSumOverrideFamily))"
proof -
  have "new_StateOverride (register_overrides [(test_key, \<lambda>_. new_TestSumOverrideFamily)]) =
      test_state new_TestSumOverrideFamily"
    by (simp add: new_StateOverride_def register_overrides_def registerOverride_def new_StateOverrideRegistry_def
        getEntries_def add_family_def test_state_def)
  then show ?thesis
    by (simp add: newStateOverride_def attachOverrideFamilies_def assms test_state_facts test_app_def)
qed

subsection \<open>Which segment is read\<close>

text \<open>
  \<open>latest_of C best\<close>: \<open>best\<close> is what the callback holds after it has been handed the
  candidates \<open>C\<close> (segments with the file they are in) in some order.
\<close>

definition seg_candidate :: "u16 \<Rightarrow> segment_btree_metadata_t \<Rightarrow> bool" where
  "seg_candidate version s \<longleftrightarrow> sg_encodingVersion s = version \<and> 8 \<le> sg_byteLength s"

definition seg_newer :: "segment_btree_metadata_t \<Rightarrow> segment_btree_metadata_t \<Rightarrow> bool" where
  "seg_newer s t \<longleftrightarrow> sg_blockRangeEnd s > sg_blockRangeEnd t \<or>
     sg_blockRangeEnd s = sg_blockRangeEnd t \<and> sg_mergeGeneration s > sg_mergeGeneration t"

definition seg_info :: "'m mmap_ops \<Rightarrow> ('t, 'r, 'd, 'm) segfile_ops \<Rightarrow> ('t, 'r, 'd) CatalogFile \<Rightarrow>
   segment_btree_metadata_t \<Rightarrow> latest_segment" where
  "seg_info M R cf s =
     (let view = openEntry M R (sg_byteOffset s) (sg_byteLength s) cf;
          data = mm_peek M (mm_tell M view) 8 view
      in \<lparr>ls_found = True, ls_bestEnd = sg_blockRangeEnd s, ls_bestGen = sg_mergeGeneration s,
          ls_bestSum = word_of_nat (le_nat (take 4 data)), ls_bestCount = word_of_nat (le_nat (drop 4 data))\<rparr>)"

definition latest_of :: "'m mmap_ops \<Rightarrow> ('t, 'r, 'd, 'm) segfile_ops \<Rightarrow>
   (('t, 'r, 'd) CatalogFile \<times> segment_btree_metadata_t) set \<Rightarrow> latest_segment \<Rightarrow> bool" where
  "latest_of M R C best \<longleftrightarrow>
     C = {} \<and> best = no_segment \<or>
     (\<exists>cf s. (cf, s) \<in> C \<and> best = seg_info M R cf s \<and> (\<forall>(cf', t) \<in> C. \<not> seg_newer t s))"

lemma consider_segment_latest:
  assumes "latest_of M R C best"
  shows "latest_of M R (C \<union> {(cf, s') |s'. s' = s \<and> seg_candidate v s}) (consider_segment M R v cf s best)"
proof (cases "seg_candidate v s")
  case False
  then have "consider_segment M R v cf s best = best"
    by (auto simp: consider_segment_def seg_candidate_def not_less)
  with False assms show ?thesis by simp
next
  case cand: True
  let ?better = "\<not> ls_found best \<or> sg_blockRangeEnd s > ls_bestEnd best \<or>
      sg_blockRangeEnd s = ls_bestEnd best \<and> sg_mergeGeneration s > ls_bestGen best"
  have step: "consider_segment M R v cf s best = (if ?better then seg_info M R cf s else best)"
    using cand by (auto simp: consider_segment_def seg_candidate_def seg_info_def Let_def dest: leD)
  have set: "{(cf, s') |s'. s' = s \<and> seg_candidate v s} = {(cf, s)}" using cand by auto
  from assms consider "C = {}" "best = no_segment"
    | cf0 s0 where "(cf0, s0) \<in> C" "best = seg_info M R cf0 s0" "\<forall>(cf', t) \<in> C. \<not> seg_newer t s0"
    unfolding latest_of_def by blast
  then show ?thesis
  proof cases
    case 1
    then show ?thesis unfolding step set by (simp add: latest_of_def no_segment_def seg_newer_def)
  next
    case 2
    have better: "?better \<longleftrightarrow> seg_newer s s0" by (simp add: 2(2) seg_info_def Let_def seg_newer_def)
    have irrefl: "\<not> seg_newer s s" by (simp add: seg_newer_def)
    have trans: "\<not> seg_newer t s" if "seg_newer s s0" "\<not> seg_newer t s0" for t
      using that by (auto simp: seg_newer_def)
    show ?thesis
    proof (cases "seg_newer s s0")
      case True
      then show ?thesis
        unfolding step set latest_of_def using 2(3) better irrefl trans
        by (intro disjI2 exI [of _ cf] exI [of _ s]) auto
    next
      case False
      then show ?thesis
        unfolding step set latest_of_def using 2 better
        by (intro disjI2 exI [of _ cf0] exI [of _ s0]) auto
    qed
  qed
qed

lemma fold_consider_latest:
  "latest_of M R C best \<Longrightarrow>
   latest_of M R (C \<union> {(cf, s) |s. s \<in> set es \<and> seg_candidate v s}) (fold (consider_segment M R v cf) es best)"
proof (induction es arbitrary: C best)
  case (Cons s es)
  have "C \<union> {(cf, s') |s'. s' = s \<and> seg_candidate v s} \<union> {(cf, s) |s. s \<in> set es \<and> seg_candidate v s} =
      C \<union> {(cf, t) |t. t \<in> set (s # es) \<and> seg_candidate v t}" by auto
  with Cons.IH [OF consider_segment_latest [OF Cons.prems, of cf s v]] show ?case by simp
qed simp

text \<open>The candidates in the files \<open>fs\<close> that can be opened.\<close>

definition candidates_in :: "('tt, 'b, 't, 'r, 'd, 'm) catalog_env \<Rightarrow> ('t \<Rightarrow> segment_btree_metadata_t set) \<Rightarrow>
   ('tt, 'b, 't, 'r, 'd) Catalog \<Rightarrow> u16 \<Rightarrow> u16 \<Rightarrow> u64 set \<Rightarrow> (('t, 'r, 'd) CatalogFile \<times> segment_btree_metadata_t) set" where
  "candidates_in E segs cat i v F =
     {(cf, s) |f cf s. f \<in> F \<and> en_opens E f \<and> ct_files cat f = Some cf \<and> s \<in> segs (cf_segmentIndex cf) \<and>
        sg_indexId s = i \<and> seg_candidate v s}"

lemma latest_in_files_latest:
  assumes bt: "btree_contract (en_seg E) seg_compare okS segs"
    and files: "\<And>f cf. ct_files cat f = Some cf \<Longrightarrow> okS (cf_segmentIndex cf) \<and> (\<forall>s \<in> segs (cf_segmentIndex cf). \<not> top_segment s)"
    and acc: "latest_of M (en_segfile E) C best"
  shows "\<exists>best'. latest_in_files M E i v cat fs best = Some best' \<and>
    latest_of M (en_segfile E) (C \<union> candidates_in E segs cat i v (set fs)) best'"
  using acc
proof (induction fs arbitrary: C best)
  case Nil
  then show ?case by (simp add: candidates_in_def)
next
  case (Cons f fs)
  have split: "C \<union> candidates_in E segs cat i v (set (f # fs)) =
      (C \<union> candidates_in E segs cat i v {f}) \<union> candidates_in E segs cat i v (set fs)"
    by (auto simp: candidates_in_def)
  show ?case
  proof (cases "en_opens E f \<and> ct_files cat f \<noteq> None")
    case False
    then have "C \<union> candidates_in E segs cat i v {f} = C" by (auto simp: candidates_in_def)
    with False Cons.IH [OF Cons.prems] show ?thesis unfolding split by (auto simp: getCatalogFile_def)
  next
    case True
    then obtain cf where cf: "ct_files cat f = Some cf" by auto
    from forEachSegment_walk [OF bt, of cf i 0 "- 1"] files [OF cf] obtain es where
      walk: "\<And>cb (a :: latest_segment). forEachSegment (en_seg E) i 0 (- 1) cb cf a = Some (fold cb es a)"
      and es: "set es = {e \<in> segs (cf_segmentIndex cf). sg_indexId e = i}" by auto
    have "C \<union> candidates_in E segs cat i v {f} = C \<union> {(cf, s) |s. s \<in> set es \<and> seg_candidate v s}"
      using True cf by (auto simp: candidates_in_def es)
    with Cons.IH [OF fold_consider_latest [OF Cons.prems, of cf es v]] show ?thesis
      unfolding split using True cf walk by (simp add: getCatalogFile_def)
  qed
qed

text \<open>
  A catalog at rest: its invariant holds, no write is pending, the clock is not behind the
  file ids and the scans of the segment indexes end.
\<close>

definition catalog_at_rest ::
  "('tt, 'b, 't, 'r, 'd, 'm) catalog_env \<Rightarrow> ('b \<Rightarrow> nat set) \<Rightarrow> ('tt \<Rightarrow> bool) \<Rightarrow> ('tt \<Rightarrow> 'b catalog_contents_entry_t set) \<Rightarrow>
   ('t \<Rightarrow> bool) \<Rightarrow> ('t \<Rightarrow> segment_btree_metadata_t set) \<Rightarrow> u64 \<Rightarrow> ('tt, 'b, 't, 'r, 'd) Catalog \<Rightarrow> bool" where
  "catalog_at_rest E bits okT toc okS segs now cat \<longleftrightarrow>
     cat_inv E bits okT toc okS segs cat \<and> ct_tasks cat = [] \<and>
     (\<forall>k \<in> toc (ct_tocBTree cat). ce_fileId k \<noteq> 0 \<and> ce_fileId k \<le> now) \<and>
     (\<forall>f s. in_files segs cat f s \<longrightarrow> \<not> top_segment s)"

lemma catalog_at_restD:
  assumes "catalog_at_rest E bits okT toc okS segs now cat"
  shows "cat_inv E bits okT toc okS segs cat" and "ct_tasks cat = []"
    and "\<forall>k \<in> toc (ct_tocBTree cat). ce_fileId k \<noteq> 0 \<and> ce_fileId k \<le> now"
    and "in_files segs cat f s \<Longrightarrow> \<not> top_segment s"
  using assms by (auto simp: catalog_at_rest_def)

lemma readLatestSegment_latest:
  assumes C: "catalog_contract E bits okT toc okS segs" and rest: "catalog_at_rest E bits okT toc okS segs now cat"
    and attached: "ix_attachedCatalog self \<noteq> None"
  shows "\<exists>best. latest_of M (en_segfile E)
      (candidates_in E segs cat (ix_attachedIndexId self) (ix_encodingVersion self) UNIV) best \<and>
    readLatestSegment M E now self cat = Some (ls_bestSum best, ls_bestCount best)"
proof -
  let ?i = "ix_attachedIndexId self" and ?v = "ix_encodingVersion self"
  note R = catalog_at_restD [OF rest]
  obtain out where scan: "rangeScan E now ?i 0 (- 1) cat = Some out"
    and found: "\<And>f cf e. ct_files cat f = Some cf \<Longrightarrow> e \<in> segs (cf_segmentIndex cf) \<Longrightarrow> sg_indexId e = ?i \<Longrightarrow> f \<in> set out"
    using rangeScan_finds [OF C R(1-3), of ?i 0 "- 1"] by auto
  have all: "candidates_in E segs cat ?i ?v (set out) = candidates_in E segs cat ?i ?v UNIV"
    using found by (fastforce simp: candidates_in_def)
  have bt: "btree_contract (en_seg E) seg_compare okS segs" using C by (simp add: catalog_contract_def)
  have files: "okS (cf_segmentIndex cf) \<and> (\<forall>s \<in> segs (cf_segmentIndex cf). \<not> top_segment s)"
    if "ct_files cat f = Some cf" for f cf
    using cat_invD(2) [OF R(1) that] R(4) that by (auto simp: in_files_def)
  have "latest_of M (en_segfile E) {} no_segment" by (simp add: latest_of_def)
  then have "\<exists>best. latest_in_files M E ?i ?v cat out no_segment = Some best \<and>
      latest_of M (en_segfile E) ({} \<union> candidates_in E segs cat ?i ?v (set out)) best"
    using files by (intro latest_in_files_latest [OF bt])
  then obtain best where run: "latest_in_files M E ?i ?v cat out no_segment = Some best"
    and latest: "latest_of M (en_segfile E) (candidates_in E segs cat ?i ?v UNIV) best" by (auto simp: all)
  have "ls_bestSum best = 0 \<and> ls_bestCount best = 0" if "\<not> ls_found best"
    using that latest by (auto simp: latest_of_def seg_info_def Let_def no_segment_def)
  moreover have "\<not> ls_found best" if "out = []" using that run by (auto simp: no_segment_def)
  ultimately have "readLatestSegment M E now self cat = Some (ls_bestSum best, ls_bestCount best)"
    using attached run by (cases "ls_found best"; cases "out = []") (auto simp: readLatestSegment_def scan)
  with latest show ?thesis by blast
qed

definition decode_sums :: "byte list \<Rightarrow> u32 \<times> u32" where
  "decode_sums data = (word_of_nat (le_nat (take 4 data)), word_of_nat (le_nat (drop 4 data)))"

text \<open>Where \<open>openEntry\<close> reads a segment from.\<close>

definition entry_addr :: "segment_btree_metadata_t \<Rightarrow> nat" where
  "entry_addr s = (if unat (sg_byteOffset s) < 4096 then 0 else unat (sg_byteOffset s))"

lemma seg_info_payload:
  assumes "mmap_contract M V" and "segfile_contract R V bytes"
    and "unat (sg_byteOffset s) + unat (sg_byteLength s) < 2 ^ 64" and "seg_candidate v s"
  shows "(ls_bestSum (seg_info M R cf s), ls_bestCount (seg_info M R cf s)) =
    decode_sums (mem_load (bytes (cf_fd cf)) (entry_addr s) 8)"
proof -
  have "8 \<le> unat (sg_byteLength s)" using assms(4) by (simp add: seg_candidate_def word_le_nat_alt)
  then show ?thesis
    by (simp add: seg_info_def Let_def openEntry_peek [OF assms(1-3)] entry_addr_def decode_sums_def)
qed

subsection \<open>A write that runs to its end\<close>

lemma selectFileFor_opens:
  assumes "selectFileFor E now now' indexId startBlock endBlock sz cat = Some (Inr (Some f, key), cat')"
  shows "en_opens E f"
proof -
  have pick: "pick_candidate E cat cs = Inr (Some (f, key)) \<Longrightarrow> en_opens E f" for cs
    by (induction E cat cs rule: pick_candidate.induct)
      (auto simp: getCatalogFile_def split: option.splits if_splits)
  show ?thesis
    using assms pick
    by (auto simp: selectFileFor_def Let_def split: option.splits sum.splits prod.splits if_splits)
qed

text \<open>The metadata of a segment written to \<open>cf\<close>.\<close>

definition new_segment :: "('t, 'r, 'd, 'm) segfile_ops \<Rightarrow> u16 \<Rightarrow> u16 \<Rightarrow> u16 \<Rightarrow> u64 \<Rightarrow> u64 \<Rightarrow> byte list \<Rightarrow>
   ('t, 'r, 'd) CatalogFile \<Rightarrow> segment_btree_metadata_t" where
  "new_segment R i v gen k k' content cf =
     \<lparr>sg_blockRangeStart = k, sg_blockRangeEnd = k',
      sg_byteOffset = word_of_int (fst (rg_getFreeRegion R (word_of_nat (length content)) (cf_regions cf))),
      sg_byteLength = word_of_nat (length content), sg_checksum = rg_hash R content (length content div 8),
      sg_mergeGeneration = ucast gen, sg_indexId = i, sg_encodingVersion = v\<rparr>"

lemma complete_write:
  assumes C: "catalog_contract E bits okT toc okS segs" and I: "cat_inv E bits okT toc okS segs cat"
    and drained: "ct_tasks cat = []" and fresh: "fresh_segment segs cat i k gen"
    and ws: "writeSegment E now now' i v gen k k' content cat = Some (Inr (), cat1)"
    and ok: "ct_tasks (task_write E 0 cat1) \<noteq> []" and small: "length content < 2 ^ 32"
    and cat2: "cat2 = end_task 0 (task_catalogue E 0 (task_write E 0 cat1))"
  obtains f cf cf' md where "cat_inv E bits okT toc okS segs cat2" "ct_tasks cat2 = []" "en_opens E f"
    "createEntry (en_seg E) (en_segfile E) i v gen k k' content cf = (Inr (), cf')" "ct_files cat2 f = Some cf'"
    "\<And>g e. in_files segs cat2 g e \<longleftrightarrow> in_files segs cat g e \<or> g = f \<and> e = md"
    "md = new_segment (en_segfile E) i v gen k k' content cf"
proof -
  have bt: "btree_contract (en_toc E) toc_compare okT toc" "btree_contract (en_seg E) seg_compare okS segs"
    using C by (simp_all add: catalog_contract_def)
  from ws obtain f key cat0 where sel: "selectFileFor E now now' i k k' (word_of_nat (length content)) cat = Some (Inr (Some f, key), cat0)"
    and cat1: "cat1 = cat0\<lparr>ct_filesBeingWritten := insert f (ct_filesBeingWritten cat0),
        ct_tasks := ct_tasks cat0 @ [\<lparr>tk_indexId = i, tk_version = v, tk_mergeGeneration = gen, tk_startBlock = k,
          tk_endBlock = k', tk_content = content, tk_file = f, tk_key = key, tk_stage = Queued\<rparr>]\<rparr>"
    by (rule writeSegment_cases) auto
  note frame = selectFileFor_frame [OF sel]
  have "ct_files cat0 f \<noteq> None" using selectFileFor_file [OF bt(1) cat_invD(1) [OF I] sel] by simp
  then obtain cf where cf: "ct_files cat1 f = Some cf" by (auto simp: cat1)
  obtain r cf' where ce: "createEntry (en_seg E) (en_segfile E) i v gen k k' content cf = (r, cf')" by fastforce
  then have r: "r = Inr ()" using ok cf by (cases r) (auto simp: task_write_def cat1 frame(2) drained end_task_def)
  note ce = ce [unfolded r] note new = createEntry_success [OF ce small]
  have I1: "cat_inv E bits okT toc okS segs cat1" by (rule writeSegment_inv [OF C I fresh ws])
  let ?w = "task_write E 0 cat1" and ?c = "task_catalogue E 0 (task_write E 0 cat1)"
  have w: "ct_files ?w = (ct_files cat1)(f \<mapsto> cf')" "map tk_stage (ct_tasks ?w) = [Written]"
    using ce cf by (simp_all add: task_write_def Let_def cat1 frame(2) drained)
  have c: "ct_files ?c = ct_files ?w" "map tk_stage (ct_tasks ?c) = [Catalogued]"
    using w(2) by (auto simp: task_catalogue_def Let_def)
  have I2: "cat_inv E bits okT toc okS segs ?w"
    by (rule cat_step_inv [OF C I1 step_task [OF step_write]]) (simp_all add: cat1 frame(2) drained)
  have I3: "cat_inv E bits okT toc okS segs ?c"
    by (rule cat_step_inv [OF C I2 step_task [OF step_catalogue]]) (use w(2) in auto)
  have I4: "cat_inv E bits okT toc okS segs cat2" unfolding cat2
    by (rule cat_step_inv [OF C I3 step_task [OF step_end]]) (use c(2) in auto)
  have files1: "in_files segs cat1 g e = in_files segs cat g e" for g e
    using selectFileFor_inv(2) [OF C I sel, of g e] by (simp add: cat1 in_files_def)
  have files2: "ct_files cat2 = (ct_files cat1)(f \<mapsto> cf')" by (simp add: cat2 end_task_def c(1) w(1))
  define md where "md = new_segment (en_segfile E) i v gen k k' content cf"
  have "\<not> (sg_indexId y = i \<and> sg_blockRangeStart y = k \<and> sg_mergeGeneration y = ucast gen)" if "y \<in> segs (cf_segmentIndex cf)" for y
    using fresh files1 [of f y] that cf by (auto simp: fresh_segment_def in_files_def)
  then have "\<forall>y \<in> segs (cf_segmentIndex cf). seg_compare y md \<noteq> 0"
    by (fastforce simp: seg_compare_def md_def new_segment_def split: if_splits)
  from btree_insert [OF bt(2) cat_invD(2) [OF I1 cf] this] new(4)
  have "segs (cf_segmentIndex cf') = insert md (segs (cf_segmentIndex cf))" by (simp add: md_def new_segment_def)
  then have "in_files segs cat2 g e \<longleftrightarrow> in_files segs cat g e \<or> g = f \<and> e = md" for g e
    using cf unfolding files1 [symmetric] by (auto simp: in_files_def files2)
  moreover have "ct_tasks cat2 = []" using c(2) by (auto simp: cat2 end_task_def)
  ultimately show thesis
    using that [OF I4 _ selectFileFor_opens [OF sel] ce] files2 md_def by simp
qed

text \<open>Regions handed out start behind the first page and at an \<open>off_t\<close>.\<close>

definition regions_behind_header :: "('t, 'r, 'd, 'm) segfile_ops \<Rightarrow> bool" where
  "regions_behind_header R \<longleftrightarrow>
     (\<forall>len r. fst (rg_getFreeRegion R len r) < 0 \<or>
        4096 \<le> fst (rg_getFreeRegion R len r) \<and> fst (rg_getFreeRegion R len r) < 2 ^ 63)"

lemma decode_sums_bytes: "decode_sums (le_bytes 4 (unat s) @ le_bytes 4 (unat c)) = (s, c)"
  by (simp add: decode_sums_def word_of_le_bytes)

lemma new_segment_payload:
  assumes M: "mmap_contract M V" and R: "segfile_contract R V bytes" and H: "regions_behind_header R"
    and ce: "createEntry B R i v gen k k' content cf = (Inr (), cf')" and len: "length content = 8"
  shows "seg_candidate v (new_segment R i v gen k k' content cf)"
    and "(ls_bestSum (seg_info M R cf' (new_segment R i v gen k k' content cf)),
          ls_bestCount (seg_info M R cf' (new_segment R i v gen k k' content cf))) = decode_sums content"
proof -
  let ?off = "fst (rg_getFreeRegion R (word_of_nat (length content)) (cf_regions cf))" and ?md = "new_segment R i v gen k k' content cf"
  have small: "length content < 2 ^ 32" using len by simp
  note new = createEntry_success [OF ce small]
  have off: "4096 \<le> ?off" "?off < 2 ^ 63" using H new(1) unfolding regions_behind_header_def by (metis not_less)+
  then have addr: "unat (sg_byteOffset ?md) = nat ?off" by (simp add: new_segment_def unat_eq_nat_uint uint_word_of_int)
  have fits: "unat (sg_byteOffset ?md) + unat (sg_byteLength ?md) < 2 ^ 64"
    unfolding addr using off len by (simp add: new_segment_def)
  show cand: "seg_candidate v ?md" using len by (simp add: new_segment_def seg_candidate_def)
  have "mem_load (bytes (cf_fd cf')) (nat ?off) 8 = content"
    using segfile_pwrite [OF R new(1,2)] len by (simp add: new(3) mem_load_store_same)
  moreover have "entry_addr ?md = nat ?off" unfolding entry_addr_def addr using off by simp
  ultimately show "(ls_bestSum (seg_info M R cf' ?md), ls_bestCount (seg_info M R cf' ?md)) = decode_sums content"
    using seg_info_payload [OF M R fits cand, of cf'] by simp
qed

lemma complete_write_read:
  assumes M: "mmap_contract M V" and R: "segfile_contract (en_segfile E) V bytes" and H: "regions_behind_header (en_segfile E)"
    and C: "catalog_contract E bits okT toc okS segs" and rest: "catalog_at_rest E bits okT toc okS segs now cat"
    and older: "\<forall>f s. in_files segs cat f s \<and> sg_indexId s = i \<longrightarrow> sg_blockRangeStart s < k \<and> sg_blockRangeEnd s < k'"
    and ws: "writeSegment E n n' i v 0 k k' content cat = Some (Inr (), cat1)"
    and ok: "ct_tasks (task_write E 0 cat1) \<noteq> []" and len: "length content = 8"
    and cat2: "cat2 = end_task 0 (task_catalogue E 0 (task_write E 0 cat1))"
  shows "\<And>now' self. (\<forall>t \<in> toc (ct_tocBTree cat2). ce_fileId t \<noteq> 0 \<and> ce_fileId t \<le> now') \<Longrightarrow>
      ix_attachedCatalog self \<noteq> None \<Longrightarrow> ix_attachedIndexId self = i \<Longrightarrow> ix_encodingVersion self = v \<Longrightarrow>
      readLatestSegment M E now' self cat2 = Some (decode_sums content)"
    and "\<And>now'. (\<forall>t \<in> toc (ct_tocBTree cat2). ce_fileId t \<noteq> 0 \<and> ce_fileId t \<le> now') \<Longrightarrow>
      catalog_at_rest E bits okT toc okS segs now' cat2"
    and "\<And>f s. in_files segs cat2 f s \<Longrightarrow>
      in_files segs cat f s \<or> sg_indexId s = i \<and> sg_blockRangeStart s = k \<and> sg_blockRangeEnd s = k'"
proof -
  note rest' = catalog_at_restD [OF rest]
  have older': "sg_blockRangeStart s < k \<and> sg_blockRangeEnd s < k'" if "in_files segs cat f s" "sg_indexId s = i" for f s
    using older that by blast
  then have fresh: "fresh_segment segs cat i k 0" using rest'(2) by (fastforce simp: fresh_segment_def)
  have small: "length content < 2 ^ 32" using len by simp
  from complete_write [OF C rest'(1,2) fresh ws ok small cat2] obtain g cf cf' md where
    inv: "cat_inv E bits okT toc okS segs cat2" "ct_tasks cat2 = []" and opens: "en_opens E g"
    and ce: "createEntry (en_seg E) (en_segfile E) i v 0 k k' content cf = (Inr (), cf')" and cf': "ct_files cat2 g = Some cf'"
    and files: "\<And>h e. in_files segs cat2 h e \<longleftrightarrow> in_files segs cat h e \<or> h = g \<and> e = md"
    and md: "md = new_segment (en_segfile E) i v 0 k k' content cf" by blast
  have md_fields: "sg_indexId md = i" "sg_blockRangeStart md = k" "sg_blockRangeEnd md = k'" "sg_mergeGeneration md = 0"
    by (simp_all add: md new_segment_def)
  show "in_files segs cat f s \<or> sg_indexId s = i \<and> sg_blockRangeStart s = k \<and> sg_blockRangeEnd s = k'"
    if "in_files segs cat2 f s" for f s
    using that by (auto simp: files md_fields)
  show at_rest: "catalog_at_rest E bits okT toc okS segs now' cat2"
    if "\<forall>t \<in> toc (ct_tocBTree cat2). ce_fileId t \<noteq> 0 \<and> ce_fileId t \<le> now'" for now'
    using inv that rest'(4) by (auto simp: catalog_at_rest_def files) (auto simp: md_fields top_segment_def)
  note payload = new_segment_payload [OF M R H ce len, folded md]
  have here: "(cf', md) \<in> candidates_in E segs cat2 i v UNIV"
    using files [of g md] cf' opens payload(1) md_fields by (auto simp: candidates_in_def in_files_def)
  have only: "t = md \<and> c = cf' \<or> seg_newer md t" if "(c, t) \<in> candidates_in E segs cat2 i v UNIV" for c t
  proof -
    from that obtain h where h: "ct_files cat2 h = Some c" "t \<in> segs (cf_segmentIndex c)" "sg_indexId t = i"
      by (auto simp: candidates_in_def)
    then have "in_files segs cat h t \<or> h = g \<and> t = md" using files [of h t] by (auto simp: in_files_def)
    with h cf' older' [of h t] show ?thesis by (auto simp: seg_newer_def md_fields)
  qed
  fix now' and self :: "string BlockchainIndex"
  assume clock: "\<forall>t \<in> toc (ct_tocBTree cat2). ce_fileId t \<noteq> 0 \<and> ce_fileId t \<le> now'"
    and self: "ix_attachedCatalog self \<noteq> None" "ix_attachedIndexId self = i" "ix_encodingVersion self = v"
  obtain best where "latest_of M (en_segfile E) (candidates_in E segs cat2 i v UNIV) best"
    and read: "readLatestSegment M E now' self cat2 = Some (ls_bestSum best, ls_bestCount best)"
    using readLatestSegment_latest [OF C at_rest [OF clock] self(1)] self by auto
  then have "best = seg_info M (en_segfile E) cf' md"
    using here only unfolding latest_of_def by blast
  with read payload(2) show "readLatestSegment M E now' self cat2 = Some (decode_sums content)" by simp
qed

end
