(* ===== verification/TestLedger.thy ===== *)
theory TestLedger
  imports TestChainDesign Backend_Crash
begin

text \<open>
  The test chain end to end: a backend built on \<open>TestChainDesign\<close>, blocks committed through
  \<open>addBlock\<close>, their segments written by the background task, and the sum read back through
  \<open>TestSumIndex\<close>.  The abstract specification is the sum of the values of all committed
  transactions.  The last part shows what happens when a block is sealed before the write of
  the block before it has run, and when the process ends before a write has run.
\<close>

subsection \<open>Sealing a block\<close>

lemma test_seal_block:
  assumes "readLatestSegment M E now ix cat = Some (s, c)"
  shows "test_seal M E now cat (fold test_add txs (test_attach ix new_TestSumOverrideFamily)) =
    Some (if txs = [] then []
          else le_bytes 4 (unat (s + sum_list (map tt_value txs))) @ le_bytes 4 (unat (c + word_of_nat (length txs))))"
  using assms
  by (simp add: fold_test_add test_attach_def new_TestSumOverrideFamily_def test_seal_def fam_sum_def fam_count_def
      latestSum_def latestCount_def)

lemma seal_test_state:
  assumes indexes: "length (br_entries indexes) = 1" "getIndexAt 0 indexes = Some ix"
    and read: "readLatestSegment M E now ix cat = Some (s, c)" and txs: "txs \<noteq> []"
  shows "sealOverrideToSegments (test_app M E now) E indexes clock blk
      (apply_all (ap_tx (test_app M E now) cat) txs (test_state (test_attach ix new_TestSumOverrideFamily))) cat =
    writeSegment E (fst (clock 0)) (snd (clock 0)) 0 (ix_encodingVersion ix) 0 blk (blk + 1)
      (le_bytes 4 (unat (s + sum_list (map tt_value txs))) @ le_bytes 4 (unat (c + word_of_nat (length txs)))) cat"
proof -
  have "ap_tx (test_app M E now) cat = test_tx M E now cat" by (simp add: test_app_def)
  moreover have "ap_seal (test_app M E now) cat (fold test_add txs (test_attach ix new_TestSumOverrideFamily)) =
      le_bytes 4 (unat (s + sum_list (map tt_value txs))) @ le_bytes 4 (unat (c + word_of_nat (length txs)))"
    using txs by (simp add: test_app_def test_seal_block [OF read])
  moreover have "le_bytes 4 x \<noteq> []" for x using length_le_bytes [of 4 x] by (auto simp del: length_le_bytes)
  ultimately show ?thesis
    by (simp add: apply_all_test sealOverrideToSegments_def Let_def test_state_facts indexes
        split: option.splits prod.splits sum.splits)
qed

lemma addBlock_sealed:
  assumes "addBlock A N clock millis txs b = Some (Inr n, b')" and "n \<noteq> - 1"
  shows "txs \<noteq> []" and "bk_currentBlockHeight b' = bk_currentBlockHeight b + 1"
    and "bk_indexes b' = bk_indexes b" and "bk_overrideReg b' = bk_overrideReg b" and "bk_txTypes b' = bk_txTypes b"
    and "\<exists>s. newStateOverride A b = Inr s \<and>
      sealOverrideToSegments A (be_catalog N) (bk_indexes b) clock (bk_currentBlockHeight b)
        (apply_all (ap_tx A (bk_catalog b)) txs s) (bk_catalog b) = Some (Inr (), bk_catalog b')"
  using assms
  by (auto simp: addBlock_def commit_block_steps getEpochFile_def newStateOverride_def MAX_TX_PER_BLOCK_def Let_def
      split: if_splits option.splits sum.splits prod.splits)

subsection \<open>Queued writes are not read\<close>

lemma writeSegment_extends:
  assumes "writeSegment E now now' i v gen k k' content cat = Some (Inr (), cat')"
  shows "catalog_extends E cat cat'"
    and "\<exists>tk. ct_tasks cat' = ct_tasks cat @ [tk] \<and> task_request tk = (i, v, gen, k, k', content) \<and> tk_stage tk = Queued"
proof -
  from assms obtain f key cat1 where sel: "selectFileFor E now now' i k k' (word_of_nat (length content)) cat = Some (Inr (Some f, key), cat1)"
    and cat': "cat' = cat1\<lparr>ct_filesBeingWritten := insert f (ct_filesBeingWritten cat1),
        ct_tasks := ct_tasks cat1 @ [\<lparr>tk_indexId = i, tk_version = v, tk_mergeGeneration = gen, tk_startBlock = k,
          tk_endBlock = k', tk_content = content, tk_file = f, tk_key = key, tk_stage = Queued\<rparr>]\<rparr>"
    by (rule writeSegment_cases) auto
  show "catalog_extends E cat cat'"
    using selectFileFor_frame(1,4) [OF sel] by (simp add: catalog_extends_def cat')
  show "\<exists>tk. ct_tasks cat' = ct_tasks cat @ [tk] \<and> task_request tk = (i, v, gen, k, k', content) \<and> tk_stage tk = Queued"
    using selectFileFor_frame(2) [OF sel] by (simp add: cat' task_request_def)
qed

lemma latest_in_files_extends:
  assumes C: "catalog_contract E bits okT toc okS segs" and ext: "catalog_extends E cat cat'"
  shows "latest_in_files M E i v cat' fs best = latest_in_files M E i v cat fs best"
proof (induction fs arbitrary: best)
  case (Cons f fs)
  have bt: "btree_contract (en_seg E) seg_compare okS segs" and new: "okS (cf_segmentIndex (en_newFile E))"
    "segs (cf_segmentIndex (en_newFile E)) = {}" using C by (simp_all add: catalog_contract_def)
  have empty: "forEachSegment (en_seg E) i 0 (- 1) cb (en_newFile E) a = Some a" for cb and a :: latest_segment
    using forEachSegment_walk [OF bt new(1), of i 0 "- 1"] new(2) by auto
  have "ct_files cat' f = ct_files cat f \<or> ct_files cat f = None \<and> ct_files cat' f = Some (en_newFile E)"
    using ext by (simp add: catalog_extends_def)
  then show ?case by (auto simp: Cons.IH getCatalogFile_def empty split: option.splits)
qed simp

lemma readLatestSegment_extends:
  assumes "catalog_contract E bits okT toc okS segs" and "catalog_extends E cat cat'"
  shows "readLatestSegment M E now self cat' = readLatestSegment M E now self cat"
proof -
  have "rangeScan E now i s e cat' = rangeScan E now i s e cat" for i s e
    using assms(2) by (simp add: rangeScan_def catalog_extends_def)
  then show ?thesis unfolding readLatestSegment_def latest_in_files_extends [OF assms] by simp
qed

lemma test_seal_stable:
  assumes "catalog_contract E bits okT toc okS segs"
  shows "seal_stable E (test_app M E now)"
proof -
  have "test_seal M E now cat' fam = test_seal M E now cat fam" if "catalog_extends E cat cat'" for cat cat' fam
    unfolding test_seal_def fam_sum_def fam_count_def latestSum_def latestCount_def
      readLatestSegment_extends [OF assms that] ..
  then show ?thesis by (auto simp: seal_stable_def test_app_def)
qed

subsection \<open>The ledger\<close>

text \<open>
  The clock has passed the ids of the catalog files, which are creation times.
\<close>

definition clock_ok :: "('tt \<Rightarrow> 'b catalog_contents_entry_t set) \<Rightarrow> u64 \<Rightarrow> ('tt, 'b, 't, 'r, 'd) Catalog \<Rightarrow> bool" where
  "clock_ok toc now cat \<longleftrightarrow> (\<forall>k \<in> toc (ct_tocBTree cat). ce_fileId k \<noteq> 0 \<and> ce_fileId k \<le> now)"

text \<open>
  \<open>ledger blocks b\<close>: \<open>b\<close> is a backend of the test chain after \<open>blocks\<close> have been committed,
  each with \<open>addBlock\<close>, and the background write of each has run (without an I/O failure)
  before the next.
\<close>

inductive ledger ::
  "('ts, 'tt, 'b, 't, 'r, 'd, 'm) backend_env \<Rightarrow> ('tt \<Rightarrow> bool) \<Rightarrow> ('tt \<Rightarrow> 'b catalog_contents_entry_t set) \<Rightarrow> string \<Rightarrow>
   TestTransaction list list \<Rightarrow>
   (TestTransaction, string, TestSumOverrideFamily, 'm, 'ts, ('tt, 'b, 't, 'r, 'd) Catalog) BlockchainBackend \<Rightarrow> bool"
  for N okT toc dataDir where
  ledger_new: "okT t0 \<Longrightarrow>
     ledger N okT toc dataDir [] (new_BlockchainBackend (test_design (be_mmap N)) config dataDir None epochs tracker (new_Catalog t0))"
| ledger_block: "ledger N okT toc dataDir blocks b \<Longrightarrow> clock_ok toc now (bk_catalog b) \<Longrightarrow>
     addBlock (test_app (be_mmap N) (be_catalog N) now) N clock millis txs b = Some (Inr n, b1) \<Longrightarrow> n \<noteq> - 1 \<Longrightarrow>
     ct_tasks (task_write (be_catalog N) 0 (bk_catalog b1)) \<noteq> [] \<Longrightarrow>
     ledger N okT toc dataDir (blocks @ [txs])
       (b1\<lparr>bk_catalog := end_task 0 (task_catalogue (be_catalog N) 0 (task_write (be_catalog N) 0 (bk_catalog b1)))\<rparr>)"

abbreviation block_sum :: "TestTransaction list list \<Rightarrow> u32" where
  "block_sum blocks \<equiv> sum_list (map tt_value (concat blocks))"

abbreviation block_count :: "TestTransaction list list \<Rightarrow> u32" where
  "block_count blocks \<equiv> word_of_nat (length (concat blocks))"

definition sums_payload :: "TestTransaction list list \<Rightarrow> byte list" where
  "sums_payload blocks = le_bytes 4 (unat (block_sum blocks)) @ le_bytes 4 (unat (block_count blocks))"

text \<open>What holds of such a backend: its index is wired, the catalog is quiet, and reads give the sum.\<close>

definition ledger_inv ::
  "('ts, 'tt, 'b, 't, 'r, 'd, 'm) backend_env \<Rightarrow> ('b \<Rightarrow> nat set) \<Rightarrow> ('tt \<Rightarrow> bool) \<Rightarrow> ('tt \<Rightarrow> 'b catalog_contents_entry_t set) \<Rightarrow>
   ('t \<Rightarrow> bool) \<Rightarrow> ('t \<Rightarrow> segment_btree_metadata_t set) \<Rightarrow> string \<Rightarrow> TestTransaction list list \<Rightarrow>
   (TestTransaction, string, TestSumOverrideFamily, 'm, 'ts, ('tt, 'b, 't, 'r, 'd) Catalog) BlockchainBackend \<Rightarrow> bool" where
  "ledger_inv N bits okT toc okS segs dataDir blocks b \<longleftrightarrow>
     bk_overrideReg b = register_overrides [(test_key, \<lambda>_. new_TestSumOverrideFamily)] \<and>
     factories (bk_txTypes b) 1 = Some (createFromMmap (be_mmap N)) \<and>
     length (br_entries (bk_indexes b)) = 1 \<and> getIndexAt 0 (bk_indexes b) = Some (test_index dataDir) \<and>
     unat (bk_currentBlockHeight b) = length blocks \<and>
     (\<forall>f s. in_files segs (bk_catalog b) f s \<and> sg_indexId s = 0 \<longrightarrow>
        unat (sg_blockRangeStart s) < length blocks \<and> unat (sg_blockRangeEnd s) \<le> length blocks) \<and>
     (\<forall>now. clock_ok toc now (bk_catalog b) \<longrightarrow>
        catalog_at_rest (be_catalog N) bits okT toc okS segs now (bk_catalog b) \<and>
        readLatestSegment (be_mmap N) (be_catalog N) now (test_index dataDir) (bk_catalog b) =
          Some (block_sum blocks, block_count blocks))"

lemma ledger_inv_new:
  fixes N :: "('ts, 'tt, 'b, 't, 'r, 'd, 'm) backend_env"
  assumes C: "catalog_contract (be_catalog N) bits okT toc okS segs" and "okT t0"
  shows "ledger_inv N bits okT toc okS segs dataDir []
    (new_BlockchainBackend (test_design (be_mmap N)) config dataDir None epochs tracker (new_Catalog t0))"
    (is "ledger_inv _ _ _ _ _ _ _ _ ?b")
proof -
  define cat :: "('tt, 'b, 't, 'r, 'd) Catalog" where "cat = new_Catalog t0"
  have empty: "ct_files cat = Map.empty" "ct_tasks cat = []" by (simp_all add: cat_def new_Catalog_def)
  have "cat_inv (be_catalog N) bits okT toc okS segs cat"
    unfolding cat_def using cat_reach_inv [OF assms] by blast
  then have rest: "catalog_at_rest (be_catalog N) bits okT toc okS segs now cat" if "clock_ok toc now cat" for now
    using that by (simp add: catalog_at_rest_def clock_ok_def in_files_def empty)
  have "readLatestSegment (be_mmap N) (be_catalog N) now (test_index dataDir) cat = Some (0, 0)"
    if "clock_ok toc now cat" for now
    using readLatestSegment_latest [OF C rest [OF that], of "test_index dataDir" "be_mmap N"]
    by (auto simp: latest_of_def candidates_in_def no_segment_def empty)
  moreover have "bk_currentBlockHeight ?b = 0" by (simp add: new_BlockchainBackend_def Let_def)
  ultimately show ?thesis
    using rest by (simp add: ledger_inv_def test_backend_fields [OF refl] cat_def [symmetric] in_files_def empty)
qed

lemma ledger_seals:
  assumes C: "catalog_contract (be_catalog N) bits okT toc okS segs"
    and I: "ledger_inv N bits okT toc okS segs dataDir blocks b" and clk: "clock_ok toc now (bk_catalog b)"
    and ext: "catalog_extends (be_catalog N) (bk_catalog b) (bk_catalog b0)"
    and same: "bk_overrideReg b0 = bk_overrideReg b" "bk_indexes b0 = bk_indexes b"
    and add: "addBlock (test_app (be_mmap N) (be_catalog N) now) N clock millis txs b0 = Some (Inr n, b1)" "n \<noteq> - 1"
  shows "writeSegment (be_catalog N) (fst (clock 0)) (snd (clock 0)) 0 1 0 (bk_currentBlockHeight b0) (bk_currentBlockHeight b0 + 1)
      (sums_payload (blocks @ [txs])) (bk_catalog b0) =
    Some (Inr (), bk_catalog b1)"
proof -
  let ?M = "be_mmap N" and ?E = "be_catalog N" and ?ix = "test_index dataDir"
  note I = I [unfolded ledger_inv_def]
  have "readLatestSegment ?M ?E now ?ix (bk_catalog b0) = Some (block_sum blocks, block_count blocks)"
    using I clk unfolding readLatestSegment_extends [OF C ext] by blast
  from seal_test_state [of "bk_indexes b0" ?ix ?M ?E now "bk_catalog b0" _ _ txs clock "bk_currentBlockHeight b0", OF _ _ this]
  show ?thesis
    using addBlock_sealed [OF add] test_newStateOverride [of b0 ?ix ?M ?E now] I by (auto simp: same sums_payload_def)
qed

lemma ledger_inv_block:
  assumes M: "mmap_contract (be_mmap N) V" and R: "segfile_contract (en_segfile (be_catalog N)) V bytes"
    and H: "regions_behind_header (en_segfile (be_catalog N))"
    and C: "catalog_contract (be_catalog N) bits okT toc okS segs"
    and I: "ledger_inv N bits okT toc okS segs dataDir blocks b" and clk: "clock_ok toc now (bk_catalog b)"
    and add: "addBlock (test_app (be_mmap N) (be_catalog N) now) N clock millis txs b = Some (Inr n, b1)" "n \<noteq> - 1"
    and ok: "ct_tasks (task_write (be_catalog N) 0 (bk_catalog b1)) \<noteq> []" and small: "length blocks < 2 ^ 64 - 1"
  shows "ledger_inv N bits okT toc okS segs dataDir (blocks @ [txs])
    (b1\<lparr>bk_catalog := end_task 0 (task_catalogue (be_catalog N) 0 (task_write (be_catalog N) 0 (bk_catalog b1)))\<rparr>)"
proof -
  let ?M = "be_mmap N" and ?E = "be_catalog N" and ?ix = "test_index dataDir" and ?k = "bk_currentBlockHeight b"
  define cat2 where "cat2 = end_task 0 (task_catalogue ?E 0 (task_write ?E 0 (bk_catalog b1)))"
  note ws = ledger_seals [OF C I clk catalog_extends_refl refl refl add]
  note I = I [unfolded ledger_inv_def] and sealed = addBlock_sealed [OF add]
  have rest: "catalog_at_rest ?E bits okT toc okS segs now (bk_catalog b)"
    using I clk by auto
  have height: "unat ?k = length blocks" "unat (?k + 1) = length blocks + 1"
    using I small by (auto simp: unat_word_ariths)
  have older: "\<forall>f s. in_files segs (bk_catalog b) f s \<and> sg_indexId s = 0 \<longrightarrow> sg_blockRangeStart s < ?k \<and> sg_blockRangeEnd s < ?k + 1"
    using I height by (fastforce simp: word_less_nat_alt)
  have len: "length (sums_payload (blocks @ [txs])) = 8" by (simp add: sums_payload_def)
  note done2 = complete_write_read [OF M R H C rest older ws ok len cat2_def]
  have "decode_sums (sums_payload (blocks @ [txs])) = (block_sum (blocks @ [txs]), block_count (blocks @ [txs]))"
    unfolding sums_payload_def by (rule decode_sums_bytes)
  then have reads: "\<forall>now'. clock_ok toc now' cat2 \<longrightarrow> catalog_at_rest ?E bits okT toc okS segs now' cat2 \<and>
      readLatestSegment ?M ?E now' ?ix cat2 = Some (block_sum (blocks @ [txs]), block_count (blocks @ [txs]))"
    using done2(1) [where self = ?ix] done2(2) by (simp add: clock_ok_def)
  have ranges: "\<forall>f s. in_files segs cat2 f s \<and> sg_indexId s = 0 \<longrightarrow>
      unat (sg_blockRangeStart s) < length (blocks @ [txs]) \<and> unat (sg_blockRangeEnd s) \<le> length (blocks @ [txs])"
    using done2(3) I height by fastforce
  show ?thesis
    unfolding ledger_inv_def cat2_def [symmetric] using I sealed(2-5) height
    by (intro conjI) (use reads ranges in simp_all)
qed

lemma ledger_invariant:
  assumes M: "mmap_contract (be_mmap N) V" and R: "segfile_contract (en_segfile (be_catalog N)) V bytes"
    and H: "regions_behind_header (en_segfile (be_catalog N))"
    and C: "catalog_contract (be_catalog N) bits okT toc okS segs"
    and run: "ledger N okT toc dataDir blocks b" and small: "length blocks < 2 ^ 64"
  shows "ledger_inv N bits okT toc okS segs dataDir blocks b"
  using run small
proof (induction rule: ledger.induct)
  case ledger_new
  then show ?case by (intro ledger_inv_new [OF C])
next
  case (ledger_block blocks b now clock millis txs n b1)
  then show ?case by (intro ledger_inv_block [OF M R H C]) simp_all
qed

subsection \<open>Properties\<close>

text \<open>
  C6 (TestLedger.test_sum_ledger): on the test chain, when the background write of every committed block has run
  before the next block is committed, \<open>latestSum\<close> and \<open>latestCount\<close> return: the scans end, and
  the results are the sum of the values and the number of all transactions committed so far
  (as 32-bit integers), read back from the newest segment on disk.  The clock must not be behind the
  ids of the catalog files, and the allocator must not hand out regions in the first page of a file.
\<close>

theorem test_sum_ledger:
  assumes "mmap_contract (be_mmap N) V" and "segfile_contract (en_segfile (be_catalog N)) V bytes"
    and "regions_behind_header (en_segfile (be_catalog N))"
    and "catalog_contract (be_catalog N) bits okT toc okS segs"
    and "ledger N okT toc dataDir blocks b" and "length blocks < 2 ^ 64" and "clock_ok toc now (bk_catalog b)"
    and "getIndexAt 0 (bk_indexes b) = Some ix"
  shows "latestSum (be_mmap N) (be_catalog N) now ix (bk_catalog b) = Some (sum_list (map tt_value (concat blocks))) \<and>
    latestCount (be_mmap N) (be_catalog N) now ix (bk_catalog b) = Some (word_of_nat (length (concat blocks)))"
  using ledger_invariant [OF assms(1-6)] assms(7,8)
  by (simp add: ledger_inv_def latestSum_def latestCount_def)

text \<open>
  C22 (TestLedger.readLatestSegment_newest): on a catalog at rest (no task pending, the file ids not zero and not
  ahead of the clock, no segment with the greatest key, every segment below 2^64)
  \<open>readLatestSegment\<close> returns.  When no segment of the index has the right version and at least 8 bytes the
  result is (0, 0); otherwise there is such a segment for which no other one has a greater block range end,
  or the same end and a greater merge generation, and the result is the two 32-bit integers at the
  start of the segment if it lies behind the first page of its file, and the two at the start of the
  file, whatever is there, if the segment starts inside the first page.
\<close>

theorem readLatestSegment_newest:
  assumes M: "mmap_contract M V" and R: "segfile_contract (en_segfile E) V bytes"
    and C: "catalog_contract E bits okT toc okS segs" and rest: "catalog_at_rest E bits okT toc okS segs now cat"
    and attached: "ix_attachedCatalog self \<noteq> None" "ix_attachedIndexId self = i" "ix_encodingVersion self = v"
    and fits: "\<forall>f s. in_files segs cat f s \<longrightarrow> unat (sg_byteOffset s) + unat (sg_byteLength s) < 2 ^ 64"
  shows "if candidates_in E segs cat i v UNIV = {} then readLatestSegment M E now self cat = Some (0, 0)
    else \<exists>cf s. (cf, s) \<in> candidates_in E segs cat i v UNIV \<and>
      (\<forall>(cf', t) \<in> candidates_in E segs cat i v UNIV. \<not> seg_newer t s) \<and>
      readLatestSegment M E now self cat = Some (decode_sums (mem_load (bytes (cf_fd cf)) 
        (if unat (sg_byteOffset s) < 4096 then 0 else unat (sg_byteOffset s)) 8))"
proof -
  let ?C = "candidates_in E segs cat i v UNIV"
  obtain best where latest: "latest_of M (en_segfile E) ?C best"
    and read: "readLatestSegment M E now self cat = Some (ls_bestSum best, ls_bestCount best)"
    using readLatestSegment_latest [OF C rest attached(1)] by (auto simp: attached)
  have payload: "(ls_bestSum (seg_info M (en_segfile E) cf s), ls_bestCount (seg_info M (en_segfile E) cf s)) =
      decode_sums (mem_load (bytes (cf_fd cf)) (entry_addr s) 8)" if "(cf, s) \<in> ?C" for cf s
  proof -
    have "unat (sg_byteOffset s) + unat (sg_byteLength s) < 2 ^ 64" "seg_candidate v s"
      using that fits by (auto simp: candidates_in_def in_files_def)
    then show ?thesis by (rule seg_info_payload [OF M R])
  qed
  show ?thesis
  proof (cases "?C = {}")
    case True
    then show ?thesis using latest read by (simp add: latest_of_def no_segment_def)
  next
    case False
    then obtain cf s where "(cf, s) \<in> ?C" "best = seg_info M (en_segfile E) cf s" "\<forall>(cf', t) \<in> ?C. \<not> seg_newer t s"
      using latest unfolding latest_of_def by blast
    with False read payload show ?thesis by (auto simp: entry_addr_def)
  qed
qed

text \<open>
  (test score rounding): the score of a plain test transaction is its value as a \<open>float\<close>: finite, off by
  at most a 2^24th of its magnitude, and exact when the magnitude is below 2^24.
\<close>

theorem test_score_rounding:
  assumes "tt_id tx \<notin> {1, 2, 3}"
  shows "\<exists>z :: int. test_score tx curCount = Fin (of_int z) \<and>
    2 ^ 24 * \<bar>z - sint (tt_value tx)\<bar> \<le> \<bar>sint (tt_value tx)\<bar> \<and>
    (\<bar>sint (tt_value tx)\<bar> < 2 ^ 24 \<longrightarrow> z = sint (tt_value tx))"
proof -
  define n where "n = nat \<bar>sint (tt_value tx)\<bar>"
  let ?z = "sgn (sint (tt_value tx)) * int (round_f32 n)"
  have n: "\<bar>sint (tt_value tx)\<bar> = int n" "sint (tt_value tx) = sgn (sint (tt_value tx)) * int n"
    by (simp_all add: n_def sgn_mult_abs)
  have "\<bar>?z - sint (tt_value tx)\<bar> = \<bar>sgn (sint (tt_value tx))\<bar> * \<bar>int (round_f32 n) - int n\<bar>"
    by (subst (2) n(2)) (simp add: right_diff_distrib [symmetric] abs_mult)
  also have "\<dots> \<le> \<bar>int (round_f32 n) - int n\<bar>" by (simp add: sgn_if)
  finally have "2 ^ 24 * \<bar>?z - sint (tt_value tx)\<bar> \<le> 2 ^ 24 * \<bar>int (round_f32 n) - int n\<bar>" by simp
  also have "\<dots> \<le> \<bar>sint (tt_value tx)\<bar>" unfolding n(1) by (rule round_f32_near)
  finally have near: "2 ^ 24 * \<bar>?z - sint (tt_value tx)\<bar> \<le> \<bar>sint (tt_value tx)\<bar>" .
  moreover have "test_score tx curCount = Fin (of_int ?z)"
    using assms by (simp add: test_score_def f32_of_int32_def n_def)
  moreover have "?z = sint (tt_value tx)" if "\<bar>sint (tt_value tx)\<bar> < 2 ^ 24" using scaled_abs_small [OF near that] by simp
  ultimately show ?thesis by blast
qed

text \<open>
  C21 (TestLedger.test_block_commits): on the test chain, when the background write of every earlier block has run before
  the next block was committed and no write is pending, a non-empty block that the timing gate accepts
  is committed, provided its epoch file opens and has room for it, the catalog's files open, the
  clock is not behind the ids of the catalog files, the allocator never hands out a region in the first
  page of a file, and at least a millisecond has passed since the last
  block (a full block in the same millisecond divides by zero): \<open>addBlock\<close> returns its number, counted from
  0, the chain is extended by it, and one background write is queued, of the new absolute sum and
  count for the one-block range.
\<close>

theorem test_block_commits:
  assumes M: "mmap_contract (be_mmap N) V" and R: "segfile_contract (en_segfile (be_catalog N)) V bytes"
    and H: "regions_behind_header (en_segfile (be_catalog N))"
    and C: "catalog_contract (be_catalog N) bits okT toc okS segs" and opens: "\<forall>f. en_opens (be_catalog N) f"
    and B: "btree_contract (be_tracker N) ts_compare okB cont"
    and cap: "\<forall>e h. be_createEpoch N e = Some h \<longrightarrow> 266240 \<le> vw_cap V h"
    and run: "ledger N okT toc dataDir blocks b" and clk: "clock_ok toc now (bk_catalog b)"
    and chain: "chain_holds V test_enc okB cont b bs" and small: "length bs < 2 ^ 48"
    and f: "getEpochFile N (bk_currentBlockHeight b) b = (Some f, b1)"
    and fits: "block_fits test_enc (vw_cap V f) (epoch_slice (length bs div 65536) bs) (millis, txs)"
    and n: "0 < length txs" "length txs < 2 ^ 31"
    and gate: "length txs = 1024 \<or> \<not> too_early (bk_config b) (unat (millis - bk_lastBlockTimestamp b)) (length txs)"
    and later: "millis \<noteq> bk_lastBlockTimestamp b" and len: "length blocks = length bs"
  shows "\<exists>b' tk. addBlock (test_app (be_mmap N) (be_catalog N) now) N clock millis txs b = Some (Inr (int (length bs)), b') \<and>
    chain_holds V test_enc okB cont b' (bs @ [(millis, txs)]) \<and> ct_tasks (bk_catalog b') = [tk] \<and>
    task_request tk = (0, 1, 0, word_of_nat (length bs), word_of_nat (length bs) + 1, sums_payload (blocks @ [txs]))"
proof -
  let ?A = "test_app (be_mmap N) (be_catalog N) now" and ?fam = "test_attach (test_index dataDir) new_TestSumOverrideFamily"
  have I: "ledger_inv N bits okT toc okS segs dataDir blocks b"
    using ledger_invariant [OF M R H C run] small len by simp
  note J = I [unfolded ledger_inv_def]
  have app: "ap_tx ?A c = test_tx (be_mmap N) (be_catalog N) now c" for c by (simp add: test_app_def)
  have rest: "catalog_at_rest (be_catalog N) bits okT toc okS segs now (bk_catalog b)" using J clk by blast
  have contract: "backend_contract ?A N (bk_txTypes b) V test_enc okB cont"
    using M B cap test_codec [OF M, of "factories (bk_txTypes b)" "be_catalog N"] J by (simp add: backend_contract_def app)
  have ready: "catalog_ready (be_catalog N) okT toc (ct_tocBTree (bk_catalog b))"
    using C opens clk cat_invD(1) [OF catalog_at_restD(1) [OF rest]] by (simp add: catalog_ready_def catalog_contract_def clock_ok_def)
  have fresh: "newStateOverride ?A b = Inr (test_state ?fam)" using test_newStateOverride J by blast
  have "all_verify (ap_tx ?A (bk_catalog b)) txs (test_state ?fam)"
    unfolding app by (induction txs rule: rev_induct) (auto simp: all_verify_def test_tx_def)
  moreover have "apply_keeps_slots (ap_tx ?A (bk_catalog b))" unfolding app by (rule test_apply_keeps_slots)
  ultimately obtain b' where add: "addBlock ?A N clock millis txs b = Some (Inr (int (length bs)), b')"
    "chain_holds V test_enc okB cont b' (bs @ [(millis, txs)])"
    using addBlock_commit_run [OF contract chain small f fits n gate later fresh test_state_facts(1) _ _ test_seal_stable [OF C] ready]
    by blast
  have "bk_currentBlockHeight b = word_of_nat (length bs)"
    using chain_holdsD(1) [OF chain, symmetric] by simp
  with writeSegment_extends(2) [OF ledger_seals [OF C I clk catalog_extends_refl refl refl add(1)]] add catalog_at_restD(2) [OF rest]
  show ?thesis by auto
qed

text \<open>
  (unwritten block lost): when a second block is committed before the background write of the
  first has run, both writes are queued, but the sum in the second one is computed without the
  first block's transactions: the segment that readers will prefer from then on lacks them.
\<close>

theorem unwritten_block_lost:
  assumes "mmap_contract (be_mmap N) V" and "segfile_contract (en_segfile (be_catalog N)) V bytes"
    and "regions_behind_header (en_segfile (be_catalog N))"
    and C: "catalog_contract (be_catalog N) bits okT toc okS segs"
    and "ledger N okT toc dataDir blocks b" and "length blocks < 2 ^ 64"
    and clk: "clock_ok toc now (bk_catalog b)" "clock_ok toc now' (bk_catalog b)"
    and add: "addBlock (test_app (be_mmap N) (be_catalog N) now) N clock millis txs b = Some (Inr n, b1)" "n \<noteq> - 1"
    and add': "addBlock (test_app (be_mmap N) (be_catalog N) now') N clock' millis' txs' b1 = Some (Inr n', b2)" "n' \<noteq> - 1"
  shows "\<exists>tk tk'. ct_tasks (bk_catalog b2) = [tk, tk'] \<and> tk_stage tk = Queued \<and> tk_stage tk' = Queued \<and>
    tk_content tk = sums_payload (blocks @ [txs]) \<and> tk_content tk' = sums_payload (blocks @ [txs'])"
proof -
  have I: "ledger_inv N bits okT toc okS segs dataDir blocks b" using ledger_invariant [OF assms(1-6)] .
  then have "catalog_at_rest (be_catalog N) bits okT toc okS segs now (bk_catalog b)"
    using clk(1) by (simp add: ledger_inv_def)
  note drained = catalog_at_restD(2) [OF this]
  note w = writeSegment_extends [OF ledger_seals [OF C I clk(1) catalog_extends_refl refl refl add]]
  note w' = writeSegment_extends(2) [OF ledger_seals [OF C I clk(2) w(1) addBlock_sealed(4,3) [OF add] add']]
  from w(2) w' drained show ?thesis by (auto simp: task_request_def)
qed

text \<open>
  (test crash loses block): when the process ends after a block of the test chain has been
  committed and before its background write has run, the restarted chain has the block (its
  height counts it) but reports the sum and the count of the blocks before it, and no write is
  left that would change this.
\<close>

theorem test_crash_loses_block:
  assumes "mmap_contract (be_mmap N) V" and "segfile_contract (en_segfile (be_catalog N)) V bytes"
    and "regions_behind_header (en_segfile (be_catalog N))"
    and C: "catalog_contract (be_catalog N) bits okT toc okS segs"
    and "ledger N okT toc dataDir blocks b" and small: "length blocks < 2 ^ 63"
    and clk: "clock_ok toc now (bk_catalog b)"
    and add: "addBlock (test_app (be_mmap N) (be_catalog N) now) N clock millis txs b = Some (Inr n, b1)" "n \<noteq> - 1"
    and b2: "b2 = reopen_backend (be_mmap N) (test_design (be_mmap N)) remap b1"
  shows "unat (bk_currentBlockHeight b2) = Suc (length blocks) \<and> ct_tasks (bk_catalog b2) = [] \<and>
    latestSum (be_mmap N) (be_catalog N) now (test_index dataDir) (bk_catalog b2) = Some (sum_list (map tt_value (concat blocks))) \<and>
    latestCount (be_mmap N) (be_catalog N) now (test_index dataDir) (bk_catalog b2) = Some (word_of_nat (length (concat blocks)))"
proof -
  have I: "ledger_inv N bits okT toc okS segs dataDir blocks b"
    using ledger_invariant [OF assms(1-5)] small by simp
  note w = writeSegment_extends(1) [OF ledger_seals [OF C I clk catalog_extends_refl refl refl add]]
  have "catalog_extends (be_catalog N) (bk_catalog b) (bk_catalog b2)"
    using w by (simp add: b2 reopen_fields open_Catalog_def catalog_extends_def)
  from readLatestSegment_extends [OF C this]
  have "readLatestSegment (be_mmap N) (be_catalog N) now (test_index dataDir) (bk_catalog b2) = Some (block_sum blocks, block_count blocks)"
    using I clk by (simp add: ledger_inv_def)
  moreover have "bk_currentBlockHeight b1 = bk_currentBlockHeight b + 1" using addBlock_sealed(2) [OF add] .
  moreover have "unat (bk_currentBlockHeight b) = length blocks" using I by (simp add: ledger_inv_def)
  then have "unat (bk_currentBlockHeight b + 1) = Suc (length blocks)" using small by (simp add: unat_word_ariths)
  ultimately show ?thesis by (simp add: latestSum_def latestCount_def b2 reopen_fields open_Catalog_def)
qed

subsection \<open>Witnesses\<close>

lemma test_addBlock_returns:
  assumes C: "catalog_contract (be_catalog N) bits okT toc okS segs"
    and wired: "bk_overrideReg b = register_overrides [(test_key, \<lambda>_. new_TestSumOverrideFamily)]"
      "length (br_entries (bk_indexes b)) = 1" "getIndexAt 0 (bk_indexes b) = Some ix"
    and ready: "catalog_ready (be_catalog N) okT toc (ct_tocBTree (bk_catalog b))"
    and n: "0 < length txs" "length txs < 2 ^ 31"
    and gate: "length txs = 1024 \<or> \<not> too_early (bk_config b) (unat (millis - bk_lastBlockTimestamp b)) (length txs)"
    and later: "millis \<noteq> bk_lastBlockTimestamp b" and epochs: "\<forall>e. be_createEpoch N e \<noteq> None"
  shows "\<exists>b'. addBlock (test_app (be_mmap N) (be_catalog N) now) N clock millis txs b = Some (Inr (sint (bk_currentBlockHeight b)), b') \<and>
    bk_lastBlockTimestamp b' = millis \<and> bk_config b' = bk_config b"
proof -
  let ?A = "test_app (be_mmap N) (be_catalog N) now" and ?s = "test_state (test_attach ix new_TestSumOverrideFamily)"
  let ?T = "ap_tx ?A (bk_catalog b)" and ?k = "bk_currentBlockHeight b"
  have app: "?T = test_tx (be_mmap N) (be_catalog N) now (bk_catalog b)" by (simp add: test_app_def)
  obtain cat' where seal: "sealOverrideToSegments ?A (be_catalog N) (bk_indexes b) clock ?k (apply_all ?T txs ?s) (bk_catalog b) = Some (Inr (), cat')"
    using seal_override_writes [OF test_seal_stable [OF C] _ ready, of "apply_all ?T txs ?s"] test_state_facts(1)
    unfolding app apply_all_test by blast
  have new: "newStateOverride ?A b' = Inr ?s" if "bk_overrideReg b' = bk_overrideReg b" "bk_indexes b' = bk_indexes b" for b'
    using that wired by (intro test_newStateOverride) simp_all
  have "all_verify ?T txs ?s" unfolding app by (simp add: all_verify_def test_tx_def)
  moreover obtain f b2 where f: "getEpochFile N ?k (b\<lparr>bk_currentBlockHeight := ?k + 1\<rparr>) = (Some f, b2)"
    and b2: "b2 = b\<lparr>bk_currentBlockHeight := ?k + 1, bk_epochs := bk_epochs b2\<rparr>"
    using epochs [THEN spec, of "epoch_number ?k"]
    by (cases "bk_epochs b (epoch_number ?k)") (auto simp: getEpochFile_def Let_def)
  have flds: "bk_indexes b2 = bk_indexes b" "bk_overrideReg b2 = bk_overrideReg b" "bk_catalog b2 = bk_catalog b" "bk_config b2 = bk_config b"
    by (subst b2, simp)+
  obtain b' where "commit_block ?A N clock millis (millis - bk_lastBlockTimestamp b) txs b = Some (Inr (sint ?k), b')"
    "bk_lastBlockTimestamp b' = millis \<and> bk_config b' = bk_config b"
    using later by (auto simp: commit_block_steps Let_def f new flds seal)
  ultimately show ?thesis by (simp add: addBlock_past_gate [OF n gate] new verify_all_iff)
qed

text \<open>A test chain with one block of the transactions 5 and 9, stored at time 7.\<close>

definition "test_txs = [new_TestTransaction 3 5 0, new_TestTransaction 4 9 1]"

definition test_backend ::
  "(TestTransaction, string, TestSumOverrideFamily, flat_file, block_timestamp_entry_t list, sample_catalog) BlockchainBackend" where
  "test_backend = new_BlockchainBackend (test_design flat_mmap) default_config ''d'' None Map.empty [] (new_Catalog [])"

abbreviation "sample_test_app \<equiv> test_app flat_mmap sample_env 7"

lemma sample_benv_fields: "be_mmap sample_benv = flat_mmap" "be_catalog sample_benv = sample_env"
  "be_tracker sample_benv = list_btree ts_compare" "be_createEpoch sample_benv e \<noteq> None"
  by (simp_all add: sample_benv_def)

lemma test_env_laws:
  "mmap_contract (be_mmap sample_benv) flat_view" "segfile_contract (en_segfile (be_catalog sample_benv)) flat_view (\<lambda>d. d)"
  "regions_behind_header (en_segfile (be_catalog sample_benv))"
  "catalog_contract (be_catalog sample_benv) (\<lambda>a. {i. bit a i}) (one_per_key toc_compare) set (one_per_key seg_compare) set"
  using flat_mmap_contract sample_segfile_contract sample_env_contract
  by (simp_all add: sample_benv_fields) (auto simp: regions_behind_header_def sample_segfile_def)

lemma test_backend_facts:
  "bk_overrideReg test_backend = register_overrides [(test_key, \<lambda>_. new_TestSumOverrideFamily)]"
  "length (br_entries (bk_indexes test_backend)) = 1" "getIndexAt 0 (bk_indexes test_backend) = Some (test_index ''d'')"
  "bk_catalog test_backend = new_Catalog []" "bk_config test_backend = default_config"
  "bk_currentBlockHeight test_backend = 0" "bk_lastBlockTimestamp test_backend = 0"
  "bk_epochs test_backend = Map.empty" "bk_timestampTracker test_backend = []"
  using test_backend_fields [OF test_backend_def]
  by simp_all (simp_all add: test_backend_def new_BlockchainBackend_def Let_def)

lemma test_ledger_start: "ledger sample_benv (one_per_key toc_compare) set ''d'' [] test_backend"
  using ledger_new [of "one_per_key toc_compare" "[]" sample_benv set "''d''" default_config Map.empty "[]"]
  by (simp add: test_backend_def sample_benv_fields one_per_key_Nil)

lemma test_clock_start: "clock_ok set now (bk_catalog test_backend)"
  by (simp add: clock_ok_def test_backend_facts new_Catalog_def)

lemma test_first_block:
  "\<exists>b1. addBlock sample_test_app sample_benv (\<lambda>_. (7, 7)) 1000000 test_txs test_backend = Some (Inr 0, b1) \<and>
     bk_lastBlockTimestamp b1 = 1000000 \<and> bk_config b1 = default_config"
  using test_addBlock_returns [OF test_env_laws(4) test_backend_facts(1-3), of test_txs 1000000 7 "\<lambda>_. (7, 7)"]
    sample_gate sample_app_laws(4) sample_benv_fields
  by (simp add: test_backend_facts test_txs_def new_Catalog_def)

lemma test_payload: "sums_payload [test_txs] = [14, 0, 0, 0, 2, 0, 0, 0]"
proof -
  have "4 = Suc (Suc (Suc (Suc 0)))" by simp
  then have "le_bytes 4 n = [word_of_nat n, word_of_nat (n div 256), word_of_nat (n div 256 div 256), word_of_nat (n div 256 div 256 div 256)]" for n
    by (simp only: le_bytes.simps)
  then show ?thesis by (simp add: sums_payload_def test_txs_def new_TestTransaction_def)
qed

text \<open>The catalog once the first block is queued, and after its write has run.\<close>

definition "test_queued = snd (the (writeSegment sample_env 7 7 0 1 0 0 1 [14, 0, 0, 0, 2, 0, 0, 0] (new_Catalog [])))"
definition "test_stored = end_task 0 (task_catalogue sample_env 0 (task_write sample_env 0 test_queued))"

lemma test_first_write:
  assumes "addBlock sample_test_app sample_benv (\<lambda>_. (7, 7)) 1000000 test_txs test_backend = Some (Inr 0, b1)"
  shows "bk_catalog b1 = test_queued"
proof -
  note I = ledger_invariant [OF test_env_laws test_ledger_start, simplified]
  from ledger_seals [OF test_env_laws(4) I test_clock_start catalog_extends_refl refl refl, of 7 "\<lambda>_. (7, 7)" 1000000 test_txs 0 b1] assms
  show ?thesis by (simp add: sample_benv_fields test_backend_facts test_queued_def test_payload)
qed

lemma test_write_runs:
  "ct_tasks (task_write sample_env 0 test_queued) \<noteq> []" "map ce_fileId (ct_tocBTree test_stored) = [7]"
  by (simp_all add: test_queued_def test_stored_def sample_run)

lemma test_ledger_one:
  "\<exists>b. ledger sample_benv (one_per_key toc_compare) set ''d'' [test_txs] b \<and> bk_catalog b = test_stored \<and>
     bk_indexes b = bk_indexes test_backend"
proof -
  obtain b1 where b1: "addBlock sample_test_app sample_benv (\<lambda>_. (7, 7)) 1000000 test_txs test_backend = Some (Inr 0, b1)"
    using test_first_block by blast
  note ledger_block [OF test_ledger_start test_clock_start, of 7 "\<lambda>_. (7, 7)" 1000000 test_txs 0 b1]
  with b1 test_write_runs(1) show ?thesis
    using addBlock_sealed(3) [OF b1]
    by (intro exI [of _ "b1\<lparr>bk_catalog := test_stored\<rparr>"])
      (auto simp: sample_benv_fields test_first_write [OF b1] test_stored_def)
qed

theorem test_sum_ledger_witness:
  "latestSum flat_mmap sample_env 9 (test_index ''d'') test_stored = Some 14 \<and>
   latestCount flat_mmap sample_env 9 (test_index ''d'') test_stored = Some 2"
proof -
  obtain b where b: "ledger sample_benv (one_per_key toc_compare) set ''d'' [test_txs] b" "bk_catalog b = test_stored"
    "bk_indexes b = bk_indexes test_backend" using test_ledger_one by blast
  have "clock_ok set 9 (bk_catalog b)" using test_write_runs(2) by (auto simp: clock_ok_def b(2))
  from test_sum_ledger [OF test_env_laws b(1) _ this, of "test_index ''d''"] show ?thesis
    by (simp add: b(2,3) test_backend_facts sample_benv_fields test_txs_def new_TestTransaction_def)
qed

lemma test_enc_fits: "block_fits test_enc (vw_cap flat_view sample_epoch) (epoch_slice (length [] div 65536) []) (1000000, test_txs)"
  by (simp add: epoch_slice_def block_fits_def block_bytes_def end_of_def block_header_t_def test_txs_def page_up_def)

theorem test_block_commits_witness:
  "\<exists>b' tk. addBlock sample_test_app sample_benv (\<lambda>_. (7, 7)) 1000000 test_txs test_backend = Some (Inr 0, b') \<and>
     chain_holds flat_view test_enc (one_per_key ts_compare) set b' [(1000000, test_txs)] \<and>
     ct_tasks (bk_catalog b') = [tk] \<and> task_request tk = (0, 1, 0, 0, 1, [14, 0, 0, 0, 2, 0, 0, 0])"
proof -
  have chain: "chain_holds flat_view test_enc (one_per_key ts_compare) set test_backend []"
    by (simp add: chain_holds_def test_backend_facts files_hold_def epoch_slice_def one_per_key_Nil)
  obtain b1 where f: "getEpochFile sample_benv (bk_currentBlockHeight test_backend) test_backend = (Some sample_epoch, b1)"
    by (simp add: getEpochFile_def test_backend_facts sample_benv_def sample_epoch_def Let_def)
  show ?thesis
    using test_block_commits [OF test_env_laws _ _ _ test_ledger_start test_clock_start chain _ f test_enc_fits,
        of 7 "\<lambda>_. (7, 7)"] ts.list_btree_contract sample_gate test_payload
    by (simp add: sample_benv_fields test_backend_facts) (simp add: sample_benv_def test_txs_def)
qed

theorem unwritten_block_lost_witness:
  "\<exists>b1 b2 tk tk'. addBlock sample_test_app sample_benv (\<lambda>_. (7, 7)) 1000000 test_txs test_backend = Some (Inr 0, b1) \<and>
     addBlock sample_test_app sample_benv (\<lambda>_. (8, 8)) 2000000 [new_TestTransaction 6 1 0, new_TestTransaction 6 2 0] b1 = Some (Inr 1, b2) \<and>
     ct_tasks (bk_catalog b2) = [tk, tk'] \<and>
     tk_content tk = sums_payload [test_txs] \<and> tk_content tk' = sums_payload [[new_TestTransaction 6 1 0, new_TestTransaction 6 2 0]]"
proof -
  obtain b1 where b1: "addBlock sample_test_app sample_benv (\<lambda>_. (7, 7)) 1000000 test_txs test_backend = Some (Inr 0, b1)"
    "bk_lastBlockTimestamp b1 = 1000000" "bk_config b1 = default_config" using test_first_block by blast
  note s = addBlock_sealed [OF b1(1)]
  let ?txs = "[new_TestTransaction 6 1 0, new_TestTransaction 6 2 0]"
  have "ct_tocBTree (bk_catalog b1) = []" unfolding test_first_write [OF b1(1)] by (simp add: test_queued_def sample_run)
  then obtain b2 where b2: "addBlock sample_test_app sample_benv (\<lambda>_. (8, 8)) 2000000 ?txs b1 = Some (Inr 1, b2)"
    using test_addBlock_returns [OF test_env_laws(4), of b1 "test_index ''d''" ?txs 2000000 7 "\<lambda>_. (8, 8)"]
      s test_backend_facts sample_app_laws(4) sample_gate sample_benv_fields b1 by auto
  from unwritten_block_lost [OF test_env_laws test_ledger_start _ test_clock_start test_clock_start, of 7 "\<lambda>_. (7, 7)" 1000000 test_txs 0 b1
      7 "\<lambda>_. (8, 8)" 2000000 ?txs 1 b2] b1 b2
  show ?thesis by (auto simp: sample_benv_fields)
qed

theorem test_crash_loses_block_witness:
  "\<exists>b1. addBlock sample_test_app sample_benv (\<lambda>_. (7, 7)) 1000000 test_txs test_backend = Some (Inr 0, b1) \<and>
     unat (bk_currentBlockHeight (reopen_backend flat_mmap (test_design flat_mmap) id b1)) = 1 \<and>
     latestSum flat_mmap sample_env 7 (test_index ''d'') (bk_catalog (reopen_backend flat_mmap (test_design flat_mmap) id b1)) = Some 0"
proof -
  obtain b1 where b1: "addBlock sample_test_app sample_benv (\<lambda>_. (7, 7)) 1000000 test_txs test_backend = Some (Inr 0, b1)"
    using test_first_block by blast
  from test_crash_loses_block [OF test_env_laws test_ledger_start _ test_clock_start, of 7 "\<lambda>_. (7, 7)" 1000000 test_txs 0 b1 _ id, OF _ _ _ refl] b1
  show ?thesis by (auto simp: sample_benv_fields)
qed

theorem test_score_rounding_witness:
  "\<exists>z :: int. test_score (new_TestTransaction 0 16777217 0) 0 = Fin (of_int z) \<and> \<bar>z - 16777217\<bar> \<le> 1"
  using test_score_rounding [of "new_TestTransaction 0 16777217 0" 0] by (auto simp: new_TestTransaction_def)

theorem readLatestSegment_newest_witness:
  "\<exists>(cf :: (segment_btree_metadata_t list, nat, memory) CatalogFile) s. s \<in> set (cf_segmentIndex cf) \<and> sg_indexId s = 0 \<and>
     readLatestSegment flat_mmap sample_env 9 (test_index ''d'') test_stored =
       Some (decode_sums (mem_load (cf_fd cf) (if unat (sg_byteOffset s) < 4096 then 0 else unat (sg_byteOffset s)) 8))"
proof -
  obtain b where b: "ledger sample_benv (one_per_key toc_compare) set ''d'' [test_txs] b" "bk_catalog b = test_stored"
    using test_ledger_one by blast
  have clock: "clock_ok set 9 test_stored" using test_write_runs(2) by (auto simp: clock_ok_def)
  have rest: "catalog_at_rest sample_env (\<lambda>a. {i. bit a i}) (one_per_key toc_compare) set (one_per_key seg_compare) set 9 test_stored"
    using ledger_invariant [OF test_env_laws b(1)] clock by (simp add: ledger_inv_def b(2) sample_benv_fields)
  have "\<forall>f. ct_files test_stored f = (if f = 7 then Some (the (ct_files test_stored 7)) else None)"
    "cf_segmentIndex (the (ct_files test_stored 7)) = [(sample_segment 0 0 1)\<lparr>sg_byteLength := 8\<rparr>]"
    by (simp_all add: test_stored_def test_queued_def sample_run)
  then obtain cf where files: "\<And>f. ct_files test_stored f = (if f = 7 then Some cf else None)"
    and segs: "cf_segmentIndex cf = [(sample_segment 0 0 1)\<lparr>sg_byteLength := 8\<rparr>]" by blast
  have "(cf, (sample_segment 0 0 1)\<lparr>sg_byteLength := 8\<rparr>) \<in> candidates_in sample_env set test_stored 0 1 UNIV"
    by (auto simp: candidates_in_def files segs seg_candidate_def)
  then have one: "candidates_in sample_env set test_stored 0 1 UNIV \<noteq> {}" by blast
  have fits: "\<forall>f s. in_files set test_stored f s \<longrightarrow> unat (sg_byteOffset s) + unat (sg_byteLength s) < 2 ^ 64"
    by (auto simp: in_files_def segs files split: if_splits)
  have "\<exists>cf s. (cf, s) \<in> candidates_in sample_env set test_stored 0 1 UNIV \<and>
      readLatestSegment flat_mmap sample_env 9 (test_index ''d'') test_stored =
        Some (decode_sums (mem_load (cf_fd cf) (if unat (sg_byteOffset s) < 4096 then 0 else unat (sg_byteOffset s)) 8))"
    using readLatestSegment_newest [OF flat_mmap_contract _ sample_env_contract rest, of "\<lambda>d. d" "test_index ''d''" 0 1]
      fits sample_segfile_contract unfolding if_not_P [OF one] entry_addr_def [symmetric] by auto
  then show ?thesis unfolding candidates_in_def by fast
qed

end
