(* ===== verification/Region_Layout.thy ===== *)
theory Region_Layout
  imports Prelude
begin

text \<open>
  The bookkeeping behind the sharing of a catalog file.  Every byte the allocator has handed out belongs to at most one owner: an entry of the index
  or a call that has reserved or removed its region.  \<open>layout region C rs A\<close> states this for a
  set of entries, the regions of the calls and the bytes in use.
\<close>

definition layout :: "('e \<Rightarrow> nat set) \<Rightarrow> 'e set \<Rightarrow> nat set list \<Rightarrow> nat set \<Rightarrow> bool" where
  "layout region C rs A \<longleftrightarrow>
     (\<forall>e \<in> C. region e \<subseteq> A) \<and> (\<forall>i < length rs. rs ! i \<subseteq> A) \<and>
     (\<forall>e \<in> C. \<forall>e' \<in> C. e \<noteq> e' \<longrightarrow> region e \<inter> region e' = {}) \<and>
     (\<forall>e \<in> C. \<forall>i < length rs. region e \<inter> rs ! i = {}) \<and>
     (\<forall>i < length rs. \<forall>j < length rs. i \<noteq> j \<longrightarrow> rs ! i \<inter> rs ! j = {})"

lemma layoutD:
  assumes "layout region C rs A"
  shows layout_seg: "e \<in> C \<Longrightarrow> region e \<subseteq> A"
    and layout_call: "i < length rs \<Longrightarrow> rs ! i \<subseteq> A"
    and layout_segs: "e \<in> C \<Longrightarrow> e' \<in> C \<Longrightarrow> e \<noteq> e' \<Longrightarrow> region e \<inter> region e' = {}"
    and layout_seg_call: "e \<in> C \<Longrightarrow> i < length rs \<Longrightarrow> region e \<inter> rs ! i = {}"
    and layout_calls: "i < length rs \<Longrightarrow> j < length rs \<Longrightarrow> i \<noteq> j \<Longrightarrow> rs ! i \<inter> rs ! j = {}"
  using assms by (simp_all add: layout_def)

text \<open>The region of one call and the entries change; the other calls keep theirs.\<close>

lemma layout_update:
  assumes L: "layout region C rs A" and i: "i < length rs"
    and seg: "\<And>e. e \<in> C' \<Longrightarrow> region e \<subseteq> A'" and r: "r \<subseteq> A'"
    and others: "\<And>j. j < length rs \<Longrightarrow> j \<noteq> i \<Longrightarrow> rs ! j \<subseteq> A'"
    and segs: "\<And>e e'. e \<in> C' \<Longrightarrow> e' \<in> C' \<Longrightarrow> e \<noteq> e' \<Longrightarrow> region e \<inter> region e' = {}"
    and seg_r: "\<And>e. e \<in> C' \<Longrightarrow> region e \<inter> r = {}"
    and seg_others: "\<And>e j. e \<in> C' \<Longrightarrow> j < length rs \<Longrightarrow> j \<noteq> i \<Longrightarrow> region e \<inter> rs ! j = {}"
    and r_others: "\<And>j. j < length rs \<Longrightarrow> j \<noteq> i \<Longrightarrow> r \<inter> rs ! j = {}"
  shows "layout region C' (rs[i := r]) A'"
proof -
  have upd: "rs[i := r] ! j = (if j = i then r else rs ! j)" if "j < length rs" for j
    using that by simp
  have calls: "rs[i := r] ! j \<inter> rs[i := r] ! k = {}" if "j < length rs" "k < length rs" "j \<noteq> k" for j k
    using that layout_calls [OF L that] r_others [of j] r_others [of k] by (simp add: upd Int_commute)
  show ?thesis
    unfolding layout_def length_list_update
  proof (intro conjI ballI allI impI)
    fix e j
    assume "e \<in> C'" "j < length rs"
    then show "region e \<inter> rs[i := r] ! j = {}" using seg_r seg_others by (simp add: upd)
  next
    fix j
    assume "j < length rs"
    then show "rs[i := r] ! j \<subseteq> A'" using r others by (simp add: upd)
  qed (simp_all add: seg segs calls)
qed

lemma layout_shrink:
  assumes L: "layout region C rs A" and "C' \<subseteq> C" and "i < length rs" and "r \<subseteq> rs ! i"
  shows "layout region C' (rs[i := r]) A"
proof (rule layout_update [OF L assms(3)])
  fix e
  assume "e \<in> C'"
  then have "e \<in> C" using assms(2) by blast
  then show "region e \<subseteq> A" and "region e \<inter> r = {}"
    using layout_seg [OF L, of e] layout_seg_call [OF L, of e i] assms(3,4) by blast+
  show "region e \<inter> rs ! j = {}" if "j < length rs" for j using layout_seg_call [OF L \<open>e \<in> C\<close> that] .
  show "region e \<inter> region e' = {}" if "e' \<in> C'" "e \<noteq> e'" for e'
    using layout_segs [OF L \<open>e \<in> C\<close>, of e'] that assms(2) by blast
next
  show "r \<subseteq> A" using layout_call [OF L assms(3)] assms(4) by blast
  fix j
  assume "j < length rs" "j \<noteq> i"
  then show "rs ! j \<subseteq> A" and "r \<inter> rs ! j = {}"
    using layout_call [OF L, of j] layout_calls [OF L assms(3), of j] assms(4) by blast+
qed

lemma layout_reserve:
  assumes L: "layout region C rs A" and i: "i < length rs" and new: "r \<inter> A = {}"
  shows "layout region C (rs[i := r]) (A \<union> r)"
proof (rule layout_update [OF L i])
  fix e
  assume e: "e \<in> C"
  then show "region e \<subseteq> A \<union> r" and "region e \<inter> r = {}" using layout_seg [OF L e] new by blast+
  show "region e \<inter> rs ! j = {}" if "j < length rs" for j using layout_seg_call [OF L e that] .
  show "region e \<inter> region e' = {}" if "e' \<in> C" "e \<noteq> e'" for e' using layout_segs [OF L e that] .
next
  fix j
  assume "j < length rs"
  then show "rs ! j \<subseteq> A \<union> r" and "r \<inter> rs ! j = {}" using layout_call [OF L, of j] new by blast+
qed blast

lemma layout_insert:
  assumes L: "layout region C rs A" and i: "i < length rs" and e: "rs ! i = region e"
  shows "layout region (insert e C) (rs[i := {}]) A"
proof (rule layout_update [OF L i])
  fix x
  assume x: "x \<in> insert e C"
  then show "region x \<subseteq> A" using layout_seg [OF L, of x] layout_call [OF L i] e by auto
  show "region x \<inter> rs ! j = {}" if "j < length rs" "j \<noteq> i" for j
    using x layout_seg_call [OF L _ that(1), of x] layout_calls [OF L i that(1)] that(2) e by auto
  show "region x \<inter> region y = {}" if "y \<in> insert e C" "x \<noteq> y" for y
    using x that layout_segs [OF L, of x y] layout_seg_call [OF L _ i, of x] layout_seg_call [OF L _ i, of y] e
    by (auto simp: Int_commute)
next
  fix j
  assume "j < length rs"
  then show "rs ! j \<subseteq> A" by (rule layout_call [OF L])
qed simp_all

lemma layout_remove:
  assumes L: "layout region C rs A" and i: "i < length rs" and e: "e \<in> C" and C': "C' \<subseteq> C - {e}"
  shows "layout region C' (rs[i := region e]) A"
proof (rule layout_update [OF L i])
  fix x
  assume "x \<in> C'"
  then have x: "x \<in> C" "x \<noteq> e" using C' by auto
  then show "region x \<subseteq> A" and "region x \<inter> region e = {}"
    using layout_seg [OF L] layout_segs [OF L x(1) e x(2)] by auto
  show "region x \<inter> rs ! j = {}" if "j < length rs" for j using layout_seg_call [OF L x(1) that] .
  show "region x \<inter> region y = {}" if "y \<in> C'" "x \<noteq> y" for y
    using layout_segs [OF L x(1) _ that(2)] that(1) C' by blast
next
  show "region e \<subseteq> A" by (rule layout_seg [OF L e])
  fix j
  assume "j < length rs"
  then show "rs ! j \<subseteq> A" and "region e \<inter> rs ! j = {}" using layout_call [OF L] layout_seg_call [OF L e] by auto
qed

lemma layout_free:
  assumes L: "layout region C rs A" and i: "i < length rs"
  shows "layout region C (rs[i := {}]) (A - rs ! i)"
proof (rule layout_update [OF L i])
  fix e
  assume e: "e \<in> C"
  show "region e \<subseteq> A - rs ! i" using layout_seg [OF L e] layout_seg_call [OF L e i] by blast
  show "region e \<inter> rs ! j = {}" if "j < length rs" for j using layout_seg_call [OF L e that] .
  show "region e \<inter> region e' = {}" if "e' \<in> C" "e \<noteq> e'" for e' using layout_segs [OF L e that] .
next
  fix j
  assume "j < length rs" "j \<noteq> i"
  then show "rs ! j \<subseteq> A - rs ! i" using layout_call [OF L, of j] layout_calls [OF L i, of j] by blast
qed simp_all

text \<open>
  The keys that the pending calls will add: none is among the keys in use, and no two calls
  add the same.
\<close>

definition fresh_ids :: "'k set \<Rightarrow> 'k option list \<Rightarrow> bool" where
  "fresh_ids K ps \<longleftrightarrow> (\<forall>i < length ps. \<forall>k. ps ! i = Some k \<longrightarrow> k \<notin> K) \<and>
     (\<forall>i < length ps. \<forall>j < length ps. \<forall>k. i \<noteq> j \<and> ps ! i = Some k \<longrightarrow> ps ! j \<noteq> Some k)"

lemma fresh_idsD:
  assumes "fresh_ids K ps" and "i < length ps" and "ps ! i = Some k"
  shows fresh_new: "k \<notin> K" and fresh_other: "j < length ps \<Longrightarrow> i \<noteq> j \<Longrightarrow> ps ! j \<noteq> Some k"
  using assms unfolding fresh_ids_def by blast+

lemma fresh_ids_shrink:
  assumes "fresh_ids K ps" and "K' \<subseteq> K" and "p = None \<or> p = ps ! i" and "i < length ps"
  shows "fresh_ids K' (ps[i := p])"
proof -
  have "ps ! j = Some k" if "j < length ps" "ps[i := p] ! j = Some k" for j k
    using that assms(3) by (cases "j = i") auto
  then show ?thesis
    using fresh_new [OF assms(1)] fresh_other [OF assms(1)] assms(2)
    unfolding fresh_ids_def length_list_update by blast
qed

lemma fresh_ids_insert:
  assumes "fresh_ids K ps" and "ps ! i = Some k" and "i < length ps"
  shows "fresh_ids (insert k K) (ps[i := None])"
proof -
  have "ps ! j = Some k' \<and> j \<noteq> i" if "j < length ps" "ps[i := None] ! j = Some k'" for j k'
    using that by (cases "j = i") auto
  then show ?thesis
    using fresh_new [OF assms(1)] fresh_other [OF assms(1)] fresh_other [OF assms(1,3,2)]
    unfolding fresh_ids_def length_list_update by (metis insert_iff)
qed

end
