(* ===== verification/CatalogFile_Threads.thy ===== *)
theory CatalogFile_Threads
  imports CatalogFile Region_Layout Labelled_Runs
begin

text \<open>
  Any number of threads calling the operations of one catalog file at the same time.  A call is
  a program counter (\<open>file_call\<close>) that names the section of \<^verbatim>\<open>CatalogFile.cpp\<close> it runs next;
  \<open>call_step\<close> runs that section, \<open>locks_of\<close> lists the mutexes the section takes, and \<open>pool_step\<close> lets one
  call of a pool run its next section, which waits for the readers inside \<open>openForReading\<close> when it
  needs \<open>rwMutex\<close> exclusively.  That the mutexes themselves, taken and given back one at a time, admit
  only such steps is shown in \<open>CatalogFile_Locks\<close>, where the properties are stated.
  \<open>Catalog\<close> lets a background task run \<open>createEntry\<close> in one step; that the sections of concurrent
  calls amount to such steps is what is shown here.
\<close>

record entry_args =
  ea_indexId :: u16
  ea_version :: u16
  ea_mergeGeneration :: u16
  ea_startBlock :: u64
  ea_endBlock :: u64
  ea_content :: "byte list"

datatype file_call =
    Create_called entry_args
  | Create_entered entry_args
  | Create_reserved entry_args int
  | Create_written entry_args int
  | Create_leaving "unit result"
  | Delete_called u16 u64 u16
  | Delete_removed segment_btree_metadata_t
  | Read_called
  | Read_inside
  | Returned "unit result"

definition args_metadata :: "('t, 'r, 'd, 'm) segfile_ops \<Rightarrow> entry_args \<Rightarrow> int \<Rightarrow> segment_btree_metadata_t" where
  "args_metadata R a offset = create_metadata R (ea_indexId a) (ea_version a) (ea_mergeGeneration a)
     (ea_startBlock a) (ea_endBlock a) (ea_content a) offset"

fun call_step ::
  "('t, segment_btree_metadata_t) btree_ops \<Rightarrow> ('t, 'r, 'd, 'm) segfile_ops \<Rightarrow> file_call \<Rightarrow>
   ('t, 'r, 'd) CatalogFile \<Rightarrow> file_call \<times> ('t, 'r, 'd) CatalogFile" where
  "call_step B R (Create_called a) cf = (Create_entered a, cf\<lparr>cf_isSegmentBeingWritten := True\<rparr>)"
| "call_step B R (Create_entered a) cf =
     (case create_reserve R (ea_content a) cf of (offset, cf') \<Rightarrow>
        (if offset < 0 then Create_leaving (Inl Runtime_error) else Create_reserved a offset, cf'))"
| "call_step B R (Create_reserved a offset) cf =
     (case create_write R (ea_content a) offset cf of
        (Inl e, cf') \<Rightarrow> (Create_leaving (Inl e), cf')
      | (Inr _, cf') \<Rightarrow> (Create_written a offset, cf'))"
| "call_step B R (Create_written a offset) cf =
     (Create_leaving (Inr ()), create_insert B (args_metadata R a offset) cf)"
| "call_step B R (Create_leaving r) cf = (Returned r, cf\<lparr>cf_isSegmentBeingWritten := False\<rparr>)"
| "call_step B R (Delete_called indexId startBlock mergeGeneration) cf =
     (case delete_remove B (delete_key indexId startBlock mergeGeneration) cf of
        (removed, cf') \<Rightarrow> (Delete_removed removed, cf'))"
| "call_step B R (Delete_removed removed) cf = (Returned (Inr ()), delete_free R removed cf)"
| "call_step B R Read_called cf = (Read_inside, cf)"
| "call_step B R Read_inside cf = (Returned (Inr ()), cf)"
| "call_step B R (Returned r) cf = (Returned r, cf)"

text \<open>The mutexes a section takes, in the order in which it takes them.\<close>

datatype mutex = RwMutex | AppendMutex

datatype lock_mode = Shared | Exclusive

fun locks_of :: "file_call \<Rightarrow> (mutex \<times> lock_mode) list" where
  "locks_of (Create_entered a) = [(AppendMutex, Exclusive)]"
| "locks_of (Create_reserved a offset) = [(RwMutex, Shared)]"
| "locks_of (Create_written a offset) = [(RwMutex, Exclusive), (AppendMutex, Exclusive)]"
| "locks_of (Delete_called indexId startBlock mergeGeneration) = [(RwMutex, Exclusive)]"
| "locks_of (Delete_removed removed) = [(AppendMutex, Exclusive)]"
| "locks_of Read_called = [(RwMutex, Shared)]"
| "locks_of Read_inside = [(RwMutex, Shared)]"
| "locks_of _ = []"

definition exclusive :: "file_call \<Rightarrow> bool" where
  [simp]: "exclusive c \<longleftrightarrow> (RwMutex, Exclusive) \<in> set (locks_of c)"

fun returned :: "file_call \<Rightarrow> bool" where
  "returned (Returned r) = True"
| "returned _ = False"

subsection \<open>What a catalog file stores\<close>

text \<open>
  The specification of a catalog file: a set of segments, each with its identity, range,
  version, checksum and bytes.  Where the bytes lie is not part of it.
\<close>

type_synonym segment_id = "u16 \<times> u64 \<times> u32"

record stored_segment =
  st_id :: segment_id
  st_blockRangeEnd :: u64
  st_version :: u16
  st_checksum :: u64
  st_bytes :: "byte list"

datatype file_effect = Adds stored_segment | Drops segment_id

primrec apply_effect :: "file_effect \<Rightarrow> stored_segment set \<Rightarrow> stored_segment set" where
  "apply_effect (Adds s) V = insert s V"
| "apply_effect (Drops k) V = {s \<in> V. st_id s \<noteq> k}"

definition seg_id :: "segment_btree_metadata_t \<Rightarrow> segment_id" where
  "seg_id e = (sg_indexId e, sg_blockRangeStart e, sg_mergeGeneration e)"

definition args_id :: "entry_args \<Rightarrow> segment_id" where
  "args_id a = (ea_indexId a, ea_startBlock a, ucast (ea_mergeGeneration a))"

definition stored :: "memory \<Rightarrow> segment_btree_metadata_t \<Rightarrow> stored_segment" where
  "stored m e = \<lparr>st_id = seg_id e, st_blockRangeEnd = sg_blockRangeEnd e, st_version = sg_encodingVersion e,
     st_checksum = sg_checksum e, st_bytes = mem_load m (unat (sg_byteOffset e)) (unat (sg_byteLength e))\<rparr>"

definition segment_view :: "('d \<Rightarrow> memory) \<Rightarrow> ('t \<Rightarrow> segment_btree_metadata_t set) \<Rightarrow>
    ('t, 'r, 'd) CatalogFile \<Rightarrow> stored_segment set" where
  "segment_view bytes cont cf = stored (bytes (cf_fd cf)) ` cont (cf_segmentIndex cf)"

definition written_bytes :: "entry_args \<Rightarrow> byte list" where
  "written_bytes a = take (unat (create_length (ea_content a))) (ea_content a)"

definition created :: "('t, 'r, 'd, 'm) segfile_ops \<Rightarrow> entry_args \<Rightarrow> stored_segment" where
  "created R a = \<lparr>st_id = args_id a, st_blockRangeEnd = ea_endBlock a, st_version = ea_version a,
     st_checksum = rg_hash R (ea_content a) (unat (create_length (ea_content a) div 8)), st_bytes = written_bytes a\<rparr>"

text \<open>What the next section of a call does to the specification.\<close>

fun call_effect :: "('t, 'r, 'd, 'm) segfile_ops \<Rightarrow> file_call \<Rightarrow> file_effect list" where
  "call_effect R (Create_written a offset) = [Adds (created R a)]"
| "call_effect R (Delete_called indexId startBlock mergeGeneration) = [Drops (indexId, startBlock, ucast mergeGeneration)]"
| "call_effect R _ = []"

inductive pool_step ::
  "('t, segment_btree_metadata_t) btree_ops \<Rightarrow> ('t, 'r, 'd, 'm) segfile_ops \<Rightarrow>
   file_call list \<times> ('t, 'r, 'd) CatalogFile \<Rightarrow> (nat \<times> file_effect) list \<Rightarrow>
   file_call list \<times> ('t, 'r, 'd) CatalogFile \<Rightarrow> bool" for B R where
  pool_stepI: "i < length ts \<Longrightarrow> \<not> returned (ts ! i) \<Longrightarrow> exclusive (ts ! i) \<longrightarrow> Read_inside \<notin> set ts \<Longrightarrow>
    call_step B R (ts ! i) cf = (c, cf') \<Longrightarrow>
    pool_step B R (ts, cf) (map (Pair i) (call_effect R (ts ! i))) (ts[i := c], cf')"

subsection \<open>Regions and their owners\<close>

definition seg_region :: "segment_btree_metadata_t \<Rightarrow> nat set" where
  "seg_region e = {unat (sg_byteOffset e) ..< unat (sg_byteOffset e) + unat (sg_byteLength e)}"

definition args_region :: "entry_args \<Rightarrow> int \<Rightarrow> nat set" where
  "args_region a offset = {nat offset ..< nat offset + unat (create_length (ea_content a))}"

fun call_region :: "file_call \<Rightarrow> nat set" where
  "call_region (Create_reserved a offset) = args_region a offset"
| "call_region (Create_written a offset) = args_region a offset"
| "call_region (Delete_removed e) = seg_region e"
| "call_region _ = {}"

fun pending_id :: "file_call \<Rightarrow> segment_id option" where
  "pending_id (Create_called a) = Some (args_id a)"
| "pending_id (Create_entered a) = Some (args_id a)"
| "pending_id (Create_reserved a offset) = Some (args_id a)"
| "pending_id (Create_written a offset) = Some (args_id a)"
| "pending_id _ = None"

text \<open>
  What the sharing of a file relies on.  The allocator hands out bytes that are not in use and
  fit in an \<open>off_t\<close>, a failed request changes nothing, and a freed region is no longer in use.
  A \<open>pwrite\<close>, complete or short, changes no byte outside its range.  What \<open>deleteEntry\<close> needs of
  \<open>remove\<close> is only required of a pool in which some call deletes.
\<close>

definition region_contract :: "('t, 'r, 'd, 'm) segfile_ops \<Rightarrow> ('r \<Rightarrow> nat set) \<Rightarrow> bool" where
  "region_contract R used \<longleftrightarrow>
     (\<forall>len r. fst (rg_getFreeRegion R len r) < 0 \<longrightarrow> used (snd (rg_getFreeRegion R len r)) = used r) \<and>
     (\<forall>len r. 0 \<le> fst (rg_getFreeRegion R len r) \<longrightarrow>
        fst (rg_getFreeRegion R len r) + int (unat len) < 2 ^ 63 \<and>
        {nat (fst (rg_getFreeRegion R len r)) ..< nat (fst (rg_getFreeRegion R len r)) + unat len} \<inter> used r = {} \<and>
        used (snd (rg_getFreeRegion R len r)) =
          used r \<union> {nat (fst (rg_getFreeRegion R len r)) ..< nat (fst (rg_getFreeRegion R len r)) + unat len}) \<and>
     (\<forall>off len r. used (rg_markFreeRegion R off len r) = used r - {unat off ..< unat off + unat len})"

definition pwrite_local :: "('t, 'r, 'd, 'm) segfile_ops \<Rightarrow> ('d \<Rightarrow> memory) \<Rightarrow> bool" where
  "pwrite_local R bytes \<longleftrightarrow>
     (\<forall>bs off d a. 0 \<le> off \<and> a \<notin> {nat off ..< nat off + length bs} \<longrightarrow>
        bytes (snd (rg_pwrite R bs off d)) a = bytes d a)"

definition file_contract where
  "file_contract B R V ok cont bytes used \<longleftrightarrow>
     btree_contract B seg_compare ok cont \<and>
     segfile_contract R V bytes \<and> pwrite_local R bytes \<and> region_contract R used"

fun deletes :: "file_call \<Rightarrow> bool" where
  "deletes (Delete_called indexId startBlock mergeGeneration) = True"
| "deletes _ = False"

definition remove_works where
  "remove_works B ok cont ts \<longleftrightarrow> (\<forall>c \<in> set ts. deletes c \<longrightarrow> remove_contract B seg_compare ok cont)"

text \<open>
  The invariant of a pool: the owners' regions do not overlap, no pending segment is in the
  index yet and no two are the same, and a call past its \<open>pwrite\<close> finds its bytes in the file.
\<close>

definition call_bytes :: "memory \<Rightarrow> file_call \<Rightarrow> bool" where
  "call_bytes m c \<longleftrightarrow>
     (case c of
        Create_reserved a offset \<Rightarrow> 0 \<le> offset \<and> offset + int (unat (create_length (ea_content a))) < 2 ^ 63
      | Create_written a offset \<Rightarrow> 0 \<le> offset \<and> offset + int (unat (create_length (ea_content a))) < 2 ^ 63 \<and>
          mem_load m (nat offset) (unat (create_length (ea_content a))) = written_bytes a
      | _ \<Rightarrow> True)"

definition pool_inv ::
  "('t \<Rightarrow> bool) \<Rightarrow> ('t \<Rightarrow> segment_btree_metadata_t set) \<Rightarrow> ('d \<Rightarrow> memory) \<Rightarrow> ('r \<Rightarrow> nat set) \<Rightarrow>
   file_call list \<times> ('t, 'r, 'd) CatalogFile \<Rightarrow> bool" where
  "pool_inv ok cont bytes used s \<longleftrightarrow>
     (case s of (ts, cf) \<Rightarrow>
        ok (cf_segmentIndex cf) \<and>
        layout seg_region (cont (cf_segmentIndex cf)) (map call_region ts) (used (cf_regions cf)) \<and>
        fresh_ids (seg_id ` cont (cf_segmentIndex cf)) (map pending_id ts) \<and>
        (\<forall>c \<in> set ts. call_bytes (bytes (cf_fd cf)) c))"

subsection \<open>Every section keeps the invariant\<close>

lemma pool_invD:
  assumes "pool_inv ok cont bytes used (ts, cf)"
  shows inv_ok: "ok (cf_segmentIndex cf)"
    and inv_layout: "layout seg_region (cont (cf_segmentIndex cf)) (map call_region ts) (used (cf_regions cf))"
    and inv_fresh: "fresh_ids (seg_id ` cont (cf_segmentIndex cf)) (map pending_id ts)"
    and inv_bytes: "i < length ts \<Longrightarrow> call_bytes (bytes (cf_fd cf)) (ts ! i)"
  using assms by (simp_all add: pool_inv_def)

lemma pool_inv_update:
  assumes inv: "pool_inv ok cont bytes used (ts, cf)" and i: "i < length ts" and "ok (cf_segmentIndex cf')"
    and "layout seg_region (cont (cf_segmentIndex cf')) ((map call_region ts)[i := call_region c]) (used (cf_regions cf'))"
    and "fresh_ids (seg_id ` cont (cf_segmentIndex cf')) ((map pending_id ts)[i := pending_id c])"
    and others: "\<And>j. j < length ts \<Longrightarrow> j \<noteq> i \<Longrightarrow> call_bytes (bytes (cf_fd cf')) (ts ! j)"
    and own: "call_bytes (bytes (cf_fd cf')) c"
  shows "pool_inv ok cont bytes used (ts[i := c], cf')"
proof -
  have "call_bytes (bytes (cf_fd cf')) x" if "x \<in> set (ts[i := c])" for x
  proof -
    from that obtain j where "j < length ts" "x = ts[i := c] ! j" by (auto simp: in_set_conv_nth)
    then show ?thesis using others own by (cases "j = i") auto
  qed
  then show ?thesis using assms(3-5) by (simp add: pool_inv_def map_update)
qed

text \<open>A section that leaves index and file content alone, and gives up at most its own region.\<close>

lemma quiet_section:
  assumes inv: "pool_inv ok cont bytes used (ts, cf)" and i: "i < length ts"
    and same: "cf_segmentIndex cf' = cf_segmentIndex cf" "cf_fd cf' = cf_fd cf" "cf_regions cf' = cf_regions cf"
    and c: "call_region c \<subseteq> call_region (ts ! i)" "pending_id c = None \<or> pending_id c = pending_id (ts ! i)"
      "call_bytes (bytes (cf_fd cf)) c"
  shows "pool_inv ok cont bytes used (ts[i := c], cf')"
proof (rule pool_inv_update [OF inv i])
  show "layout seg_region (cont (cf_segmentIndex cf')) ((map call_region ts)[i := call_region c]) (used (cf_regions cf'))"
    unfolding same using i c(1) by (intro layout_shrink [OF inv_layout [OF inv]]) auto
  show "fresh_ids (seg_id ` cont (cf_segmentIndex cf')) ((map pending_id ts)[i := pending_id c])"
    unfolding same using i c(2) by (intro fresh_ids_shrink [OF inv_fresh [OF inv]]) auto
  show "\<And>j. j < length ts \<Longrightarrow> j \<noteq> i \<Longrightarrow> call_bytes (bytes (cf_fd cf')) (ts ! j)"
    unfolding same by (rule inv_bytes [OF inv])
qed (simp_all add: same inv_ok [OF inv] c(3))

lemma reserve_section:
  assumes R: "region_contract R used" and inv: "pool_inv ok cont bytes used (ts, cf)" and i: "i < length ts"
    and c: "ts ! i = Create_entered a" and run: "create_reserve R (ea_content a) cf = (offset, cf')"
  shows "pool_inv ok cont bytes used
    (ts[i := if offset < 0 then Create_leaving (Inl Runtime_error) else Create_reserved a offset], cf')"
proof -
  let ?len = "create_length (ea_content a)"
  have off: "offset = fst (rg_getFreeRegion R ?len (cf_regions cf))"
    and reg: "cf_regions cf' = snd (rg_getFreeRegion R ?len (cf_regions cf))"
    and same: "cf_segmentIndex cf' = cf_segmentIndex cf" "cf_fd cf' = cf_fd cf"
    using run by (auto simp: create_reserve_def Let_def case_prod_beta)
  note L = inv_layout [OF inv] note F = inv_fresh [OF inv] note b = inv_bytes [OF inv, folded same(2)]
  show ?thesis
  proof (cases "offset < 0")
    case True
    then have used: "used (cf_regions cf') = used (cf_regions cf)" using R by (simp add: region_contract_def off reg)
    have "pool_inv ok cont bytes used (ts[i := Create_leaving (Inl Runtime_error)], cf')"
      using i b layout_shrink [OF L subset_refl, of i "{}"] fresh_ids_shrink [OF F subset_refl, of None i]
      by (intro pool_inv_update [OF inv i]) (simp_all add: same used inv_ok [OF inv] call_bytes_def)
    with True show ?thesis by simp
  next
    case False
    then have r: "args_region a offset \<inter> used (cf_regions cf) = {}" "offset + int (unat ?len) < 2 ^ 63"
      and used: "used (cf_regions cf') = used (cf_regions cf) \<union> args_region a offset"
      using R by (simp_all add: region_contract_def off reg args_region_def)
    have "pool_inv ok cont bytes used (ts[i := Create_reserved a offset], cf')"
      using i b r False layout_reserve [OF L, of i "args_region a offset"] c
        fresh_ids_shrink [OF F subset_refl, of "Some (args_id a)" i]
      by (intro pool_inv_update [OF inv i]) (simp_all add: same used inv_ok [OF inv] call_bytes_def)
    with False show ?thesis by simp
  qed
qed

text \<open>A write into a region leaves the bytes of every other owner as they were.\<close>

lemma mem_load_outside:
  assumes "\<And>a. a \<notin> r \<Longrightarrow> m' a = m a" and "{off ..< off + n} \<inter> r = {}"
  shows "mem_load m' off n = mem_load m off n"
  using assms by (intro mem_load_cong) (metis IntI atLeastLessThan_iff empty_iff)

lemma call_bytes_outside:
  assumes "\<And>a. a \<notin> r \<Longrightarrow> m' a = m a" and "call_region c \<inter> r = {}" and "call_bytes m c"
  shows "call_bytes m' c"
  using assms mem_load_outside [OF assms(1)]
  by (cases c) (auto simp: call_bytes_def args_region_def)

lemma stored_outside:
  assumes "\<And>a. a \<notin> r \<Longrightarrow> m' a = m a" and "seg_region e \<inter> r = {}"
  shows "stored m' e = stored m e"
  using mem_load_outside [OF assms(1)] assms(2) by (simp add: stored_def seg_region_def)

lemma length_written: "length (written_bytes a) = unat (create_length (ea_content a))"
proof -
  have "unat (create_length (ea_content a)) \<le> length (ea_content a)"
    by (simp add: create_length_def unat_of_nat)
  then show ?thesis by (simp add: written_bytes_def)
qed

lemma write_section:
  assumes P: "pwrite_local R bytes" and S: "segfile_contract R V bytes"
    and inv: "pool_inv ok cont bytes used (ts, cf)" and i: "i < length ts"
    and c: "ts ! i = Create_reserved a offset" and run: "create_write R (ea_content a) offset cf = (r, cf')"
    and c': "c' = (case r of Inl e \<Rightarrow> Create_leaving (Inl e) | Inr _ \<Rightarrow> Create_written a offset)"
  shows "pool_inv ok cont bytes used (ts[i := c'], cf')"
    and "cf_segmentIndex cf' = cf_segmentIndex cf"
    and "e \<in> cont (cf_segmentIndex cf) \<Longrightarrow> stored (bytes (cf_fd cf')) e = stored (bytes (cf_fd cf)) e"
proof -
  let ?len = "create_length (ea_content a)"
  let ?w = "rg_pwrite R (written_bytes a) offset (cf_fd cf)"
  have same: "cf_segmentIndex cf' = cf_segmentIndex cf" "cf_regions cf' = cf_regions cf" and fd: "cf_fd cf' = snd ?w"
    and full: "r = Inr () \<Longrightarrow> fst ?w = int (length (written_bytes a))"
    using run unfolding length_written
    by (auto simp: create_write_def written_bytes_def Let_def case_prod_beta split: if_splits)
  have own: "0 \<le> offset" "offset + int (unat ?len) < 2 ^ 63" using inv_bytes [OF inv i] by (simp_all add: c call_bytes_def)
  have outside: "bytes (cf_fd cf') x = bytes (cf_fd cf) x" if "x \<notin> args_region a offset" for x
    using P own(1) that by (simp add: pwrite_local_def fd args_region_def length_written)
  note L = inv_layout [OF inv]
  have others: "call_bytes (bytes (cf_fd cf')) (ts ! j)" if "j < length ts" "j \<noteq> i" for j
    using call_bytes_outside [OF outside _ inv_bytes [OF inv that(1)]] layout_calls [OF L, of j i] that i c by simp
  have "call_bytes (bytes (cf_fd cf')) c'"
  proof (cases r)
    case (Inr u)
    then have "bytes (cf_fd cf') = mem_store (bytes (cf_fd cf)) (nat offset) (written_bytes a)"
      using segfile_pwrite [OF S own(1)] full by (simp add: fd)
    then show ?thesis using Inr own by (simp add: c' call_bytes_def mem_load_store_same length_written)
  qed (simp add: c' call_bytes_def)
  moreover have "call_region c' \<subseteq> map call_region ts ! i" "pending_id c' = None \<or> pending_id c' = map pending_id ts ! i"
    using i by (cases r; simp add: c c')+
  ultimately show "pool_inv ok cont bytes used (ts[i := c'], cf')"
    using i others inv_ok [OF inv]
      layout_shrink [OF L subset_refl, of i "call_region c'"] fresh_ids_shrink [OF inv_fresh [OF inv] subset_refl, of "pending_id c'" i]
    by (intro pool_inv_update [OF inv i]) (simp_all add: same)
  show "cf_segmentIndex cf' = cf_segmentIndex cf" by (rule same)
  show "stored (bytes (cf_fd cf')) e = stored (bytes (cf_fd cf)) e" if "e \<in> cont (cf_segmentIndex cf)"
    using stored_outside [OF outside] layout_seg_call [OF L that, of i] i c by simp
qed

lemma seg_compare_id: "seg_compare x y = 0 \<longleftrightarrow> seg_id x = seg_id y"
  by (auto simp: seg_compare_def seg_id_def)

lemma args_metadata_fields:
  "seg_id (args_metadata R a offset) = args_id a" "sg_blockRangeEnd (args_metadata R a offset) = ea_endBlock a"
  "sg_encodingVersion (args_metadata R a offset) = ea_version a"
  "sg_checksum (args_metadata R a offset) = rg_hash R (ea_content a) (unat (create_length (ea_content a) div 8))"
  by (simp_all add: args_metadata_def create_metadata_def seg_id_def args_id_def Let_def)

lemma args_metadata_region:
  assumes "0 \<le> offset" and "offset + int (unat (create_length (ea_content a))) < 2 ^ 63"
  shows "unat (sg_byteOffset (args_metadata R a offset)) = nat offset"
    and "unat (sg_byteLength (args_metadata R a offset)) = unat (create_length (ea_content a))"
    and "seg_region (args_metadata R a offset) = args_region a offset"
proof -
  have "offset < 2 ^ 63" using assms(2) by linarith
  then show off: "unat (sg_byteOffset (args_metadata R a offset)) = nat offset"
    using assms(1) by (simp add: args_metadata_def create_metadata_def Let_def unsigned_of_int take_bit_int_eq_self)
  show len: "unat (sg_byteLength (args_metadata R a offset)) = unat (create_length (ea_content a))"
    by (simp add: args_metadata_def create_metadata_def Let_def)
  show "seg_region (args_metadata R a offset) = args_region a offset"
    by (simp add: seg_region_def args_region_def off len)
qed

lemma insert_section:
  assumes B: "btree_contract B seg_compare ok cont" and inv: "pool_inv ok cont bytes used (ts, cf)" and i: "i < length ts"
    and c: "ts ! i = Create_written a offset"
    and cf': "cf' = create_insert B (args_metadata R a offset) cf"
  shows "pool_inv ok cont bytes used (ts[i := Create_leaving (Inr ())], cf')"
    and "segment_view bytes cont cf' = insert (created R a) (segment_view bytes cont cf)"
proof -
  let ?md = "args_metadata R a offset"
  have own: "0 \<le> offset" "offset + int (unat (create_length (ea_content a))) < 2 ^ 63"
    "mem_load (bytes (cf_fd cf)) (nat offset) (unat (create_length (ea_content a))) = written_bytes a"
    using inv_bytes [OF inv i] by (simp_all add: c call_bytes_def)
  note md = args_metadata_region [OF own(1,2), of R] args_metadata_fields
  have same: "cf_fd cf' = cf_fd cf" "cf_regions cf' = cf_regions cf"
    "cf_segmentIndex cf' = bt_insert B ?md (cf_segmentIndex cf)"
    by (simp_all add: cf' create_insert_def)
  have pend: "map pending_id ts ! i = Some (args_id a)" using i by (simp add: c)
  have "\<forall>y \<in> cont (cf_segmentIndex cf). seg_compare y ?md \<noteq> 0"
    using fresh_new [OF inv_fresh [OF inv] _ pend] i by (metis imageI length_map md(4) seg_compare_id)
  from btree_insert [OF B inv_ok [OF inv] this]
  have ins: "ok (cf_segmentIndex cf')" "cont (cf_segmentIndex cf') = insert ?md (cont (cf_segmentIndex cf))"
    by (simp_all add: same)
  show "pool_inv ok cont bytes used (ts[i := Create_leaving (Inr ())], cf')"
    using i layout_insert [OF inv_layout [OF inv], of i ?md] fresh_ids_insert [OF inv_fresh [OF inv] pend] inv_bytes [OF inv] c
    by (intro pool_inv_update [OF inv i]) (simp_all add: ins same(1,2) call_bytes_def md)
  have "stored (bytes (cf_fd cf)) ?md = created R a"
    by (simp add: stored_def created_def md own(3))
  then show "segment_view bytes cont cf' = insert (created R a) (segment_view bytes cont cf)"
    by (simp add: segment_view_def ins same(1))
qed

lemma remove_section:
  assumes M: "remove_contract B seg_compare ok cont"
    and inv: "pool_inv ok cont bytes used (ts, cf)" and i: "i < length ts"
    and run: "delete_remove B (delete_key idx startBlock gen) cf = (removed, cf')" and c: "call_region (ts ! i) = {}"
  shows "pool_inv ok cont bytes used (ts[i := Delete_removed removed], cf')"
    and "segment_view bytes cont cf' = {s \<in> segment_view bytes cont cf. st_id s \<noteq> (idx, startBlock, ucast gen)}"
proof -
  let ?k = "delete_key idx startBlock gen" and ?C = "cont (cf_segmentIndex cf)"
  have k: "seg_id ?k = (idx, startBlock, ucast gen)" "seg_region ?k = {}"
    by (simp_all add: delete_key_def seg_id_def seg_region_def)
  have same: "cf_fd cf' = cf_fd cf" "cf_regions cf' = cf_regions cf"
    "cf_segmentIndex cf' = fst (bt_remove B ?k (cf_segmentIndex cf))" and removed: "removed = snd (bt_remove B ?k (cf_segmentIndex cf))"
    using run by (auto simp: delete_remove_def Let_def case_prod_beta)
  note rem = btree_remove [OF M inv_ok [OF inv], of ?k, folded same(3) removed]
  then have ok': "ok (cf_segmentIndex cf')" and C': "cont (cf_segmentIndex cf') = {y \<in> ?C. seg_id y \<noteq> seg_id ?k}"
    by (simp_all add: seg_compare_id)
  have "layout seg_region (cont (cf_segmentIndex cf')) ((map call_region ts)[i := seg_region removed]) (used (cf_regions cf))"
  proof (cases "\<exists>x \<in> ?C. seg_id x = seg_id ?k")
    case True
    then obtain x where x: "x \<in> ?C" "seg_id x = seg_id ?k" by blast
    then have "removed = x" using rem by (simp add: seg_compare_id)
    then show ?thesis
      using layout_remove [OF inv_layout [OF inv] _ x(1), of i "cont (cf_segmentIndex cf')"] i x(2) C' by auto
  next
    case False
    then have "removed = ?k" using btree_remove_missing [OF M inv_ok [OF inv]] by (auto simp: seg_compare_id removed)
    then show ?thesis using layout_shrink [OF inv_layout [OF inv], of "cont (cf_segmentIndex cf')" i "{}"] i C' k by auto
  qed
  moreover have "fresh_ids (seg_id ` cont (cf_segmentIndex cf')) ((map pending_id ts)[i := None])"
    using fresh_ids_shrink [OF inv_fresh [OF inv], of _ None i] i C' by (simp add: image_mono)
  ultimately show "pool_inv ok cont bytes used (ts[i := Delete_removed removed], cf')"
    using ok' inv_bytes [OF inv] by (intro pool_inv_update [OF inv i]) (simp_all add: same call_bytes_def)
  show "segment_view bytes cont cf' = {s \<in> segment_view bytes cont cf. st_id s \<noteq> (idx, startBlock, ucast gen)}"
    unfolding segment_view_def same(1) C' k(1) by (auto simp: stored_def)
qed

lemma free_section:
  assumes R: "region_contract R used" and inv: "pool_inv ok cont bytes used (ts, cf)" and i: "i < length ts"
    and c: "ts ! i = Delete_removed e"
  shows "pool_inv ok cont bytes used (ts[i := Returned r], delete_free R e cf)"
proof -
  have used: "used (cf_regions (delete_free R e cf)) = used (cf_regions cf) - seg_region e"
    using R by (simp add: delete_free_def region_contract_def seg_region_def)
  show ?thesis
    using i c layout_free [OF inv_layout [OF inv], of i] fresh_ids_shrink [OF inv_fresh [OF inv] subset_refl, of None i]
      inv_ok [OF inv] inv_bytes [OF inv] used
    by (intro pool_inv_update [OF inv i]) (simp_all add: delete_free_def call_bytes_def)
qed

lemma file_contractD:
  assumes "file_contract B R V ok cont bytes used"
  shows "btree_contract B seg_compare ok cont" "segfile_contract R V bytes" "pwrite_local R bytes" "region_contract R used"
  using assms by (simp_all add: file_contract_def)

lemma remove_works_step:
  assumes "remove_works B ok cont ts" and "call_step B R (ts ! i) cf = (c, cf')"
  shows "remove_works B ok cont (ts[i := c])"
proof -
  have "\<not> deletes c'" if "call_step B R x cf = (c', cf')" for x c'
    using that by (cases x) (auto split: prod.splits sum.splits if_splits)
  with assms(2) have "\<not> deletes c" by blast
  then show ?thesis using assms(1) set_update_subset_insert [of ts i c] by (auto simp: remove_works_def)
qed

lemma pool_step_sound:
  assumes F: "file_contract B R V ok cont bytes used" and D: "remove_works B ok cont ts"
    and inv: "pool_inv ok cont bytes used (ts, cf)" and i: "i < length ts" and run: "call_step B R (ts ! i) cf = (c, cf')"
  shows "pool_inv ok cont bytes used (ts[i := c], cf') \<and>
    segment_view bytes cont cf' = fold apply_effect (call_effect R (ts ! i)) (segment_view bytes cont cf)"
proof -
  note F = file_contractD [OF F]
  note quiet = quiet_section [OF inv i]
  show ?thesis
  proof (cases "ts ! i")
    case (Create_entered a)
    obtain offset cf1 where r: "create_reserve R (ea_content a) cf = (offset, cf1)" by fastforce
    have "segment_view bytes cont cf1 = segment_view bytes cont cf"
      using r by (auto simp: create_reserve_def segment_view_def Let_def case_prod_beta)
    with reserve_section [OF F(4) inv i Create_entered r] run show ?thesis by (auto simp: Create_entered r)
  next
    case (Create_reserved a offset)
    obtain r cf1 where w: "create_write R (ea_content a) offset cf = (r, cf1)" by fastforce
    have "c = (case r of Inl e \<Rightarrow> Create_leaving (Inl e) | Inr _ \<Rightarrow> Create_written a offset)" "cf' = cf1"
      using run by (auto simp: Create_reserved w split: sum.splits)
    with write_section [OF F(3,2) inv i Create_reserved w] show ?thesis
      by (simp add: Create_reserved segment_view_def cong: image_cong)
  next
    case (Create_written a offset)
    with insert_section [OF F(1) inv i Create_written refl] run show ?thesis by auto
  next
    case (Delete_called idx startBlock gen)
    obtain removed cf1 where d: "delete_remove B (delete_key idx startBlock gen) cf = (removed, cf1)" by fastforce
    have "deletes (ts ! i) \<longrightarrow> remove_contract B seg_compare ok cont"
      using D [unfolded remove_works_def] nth_mem [OF i] by (rule bspec)
    then have "remove_contract B seg_compare ok cont" by (simp add: Delete_called)
    from remove_section [OF this inv i d] d run show ?thesis by (auto simp: Delete_called)
  next
    case (Delete_removed e)
    with free_section [OF F(4) inv i] run show ?thesis by (auto simp: segment_view_def delete_free_def)
  next
    case (Returned r)
    with run have "c = ts ! i" "cf' = cf" by auto
    with inv have "pool_inv ok cont bytes used (ts[i := c], cf')" by simp
    with \<open>cf' = cf\<close> show ?thesis by (simp add: Returned)
  qed (use run quiet in \<open>auto simp: call_bytes_def segment_view_def\<close>)
qed

text \<open>
  A pool implements the specification: steps of the pool are steps on the set of segments with
  the same effects.
\<close>

definition view_step :: "stored_segment set \<Rightarrow> (nat \<times> file_effect) list \<Rightarrow> stored_segment set \<Rightarrow> bool" where
  "view_step V ls V' \<longleftrightarrow> V' = fold (\<lambda>(i, e). apply_effect e) ls V"

definition shows_view where
  "shows_view B R V ok cont bytes used s W \<longleftrightarrow> file_contract B R V ok cont bytes used \<and> remove_works B ok cont (fst s) \<and>
     pool_inv ok cont bytes used s \<and> segment_view bytes cont (snd s) = W"

lemma fold_labels: "fold (\<lambda>(i, e). apply_effect e) (map (Pair j) es) W = fold apply_effect es W"
  by (induction es arbitrary: W) simp_all

interpretation catalog_pool: labelled_simulation "pool_step B R" view_step "shows_view B R V ok cont bytes used"
  for B R V ok cont bytes used
proof unfold_locales
  fix s W ls s'
  assume rel: "shows_view B R V ok cont bytes used s W" and "pool_step B R s ls s'"
  from this(2) show "\<exists>W'. shows_view B R V ok cont bytes used s' W' \<and> view_step W ls W'"
  proof cases
    case (pool_stepI i ts cf c cf')
    with rel pool_step_sound [of B R V ok cont bytes used ts cf i c cf'] remove_works_step [of B ok cont ts R i cf c cf']
    show ?thesis by (auto simp: shows_view_def view_step_def fold_labels)
  qed
qed

lemma view_run: "labelled_run view_step W ls W' \<Longrightarrow> W' = fold (\<lambda>(i, e). apply_effect e) ls W"
  by (induction rule: labelled_run.induct) (auto simp: view_step_def)

lemma pool_run:
  assumes "labelled_run (pool_step B R) (ts, cf) ls (ts', cf')" and "file_contract B R V ok cont bytes used"
    and "remove_works B ok cont ts" and "pool_inv ok cont bytes used (ts, cf)"
  shows "pool_inv ok cont bytes used (ts', cf')" and "remove_works B ok cont ts'"
    and "segment_view bytes cont cf' = fold (\<lambda>(i, e). apply_effect e) ls (segment_view bytes cont cf)"
  using catalog_pool.run_simulated [OF assms(1), of V ok cont bytes used] assms(2-4)
  by (auto simp: shows_view_def dest: view_run)

subsection \<open>What each call has done\<close>

text \<open>
  The calls a client can make, and the effects a call must have had by the time it has reached
  a given point: a \<open>createEntry\<close> that is past its last section has added its segment once if it
  succeeded and has done nothing if it throws; a \<open>deleteEntry\<close> has dropped its segment id once.
\<close>

fun started :: "file_call \<Rightarrow> bool" where
  "started (Create_called a) = True"
| "started (Delete_called indexId startBlock mergeGeneration) = True"
| "started Read_called = True"
| "started _ = False"

definition create_effects :: "('t, 'r, 'd, 'm) segfile_ops \<Rightarrow> entry_args \<Rightarrow> unit result \<Rightarrow> file_effect list" where
  "create_effects R a r = (case r of Inl _ \<Rightarrow> [] | Inr _ \<Rightarrow> [Adds (created R a)])"

fun call_trace :: "('t, 'r, 'd, 'm) segfile_ops \<Rightarrow> file_call \<Rightarrow> file_call \<Rightarrow> file_effect list \<Rightarrow> bool" where
  "call_trace R (Create_called a) c es =
     (case c of
        Create_called a' \<Rightarrow> a' = a \<and> es = []
      | Create_entered a' \<Rightarrow> a' = a \<and> es = []
      | Create_reserved a' _ \<Rightarrow> a' = a \<and> es = []
      | Create_written a' _ \<Rightarrow> a' = a \<and> es = []
      | Create_leaving r \<Rightarrow> es = create_effects R a r
      | Returned r \<Rightarrow> es = create_effects R a r
      | _ \<Rightarrow> False)"
| "call_trace R (Delete_called i s g) c es =
     (case c of
        Delete_called i' s' g' \<Rightarrow> (i', s', g') = (i, s, g) \<and> es = []
      | Delete_removed _ \<Rightarrow> es = [Drops (i, s, ucast g)]
      | Returned r \<Rightarrow> r = Inr () \<and> es = [Drops (i, s, ucast g)]
      | _ \<Rightarrow> False)"
| "call_trace R Read_called c es = (es = [] \<and> (c = Read_called \<or> c = Read_inside \<or> c = Returned (Inr ())))"
| "call_trace R _ c es = False"

definition effects_of :: "nat \<Rightarrow> (nat \<times> file_effect) list \<Rightarrow> file_effect list" where
  "effects_of i ls = map snd (filter (\<lambda>l. fst l = i) ls)"

lemma effects_of_append: "effects_of i (ls @ ls') = effects_of i ls @ effects_of i ls'"
  by (simp add: effects_of_def)

lemma effects_of_map: "effects_of i (map (Pair j) es) = (if i = j then es else [])"
  by (induction es) (auto simp: effects_of_def)

lemma call_trace_started: "started c \<Longrightarrow> call_trace R c c []"
  by (cases c) auto

lemma call_trace_step:
  assumes "call_trace R c0 c es" and "call_step B R c cf = (c', cf')"
  shows "call_trace R c0 c' (es @ call_effect R c)"
proof (cases c0)
  case (Create_called a)
  then show ?thesis using assms
    by (cases c) (auto simp: create_effects_def split: prod.splits sum.splits if_splits)
next
  case (Delete_called i s g)
  then show ?thesis using assms by (cases c) (auto split: prod.splits)
qed (use assms in \<open>auto split: prod.splits\<close>)

lemma pool_run_traces:
  assumes "labelled_run (pool_step B R) s ls s'" and "\<forall>c \<in> set (fst s). started c"
  shows "length (fst s') = length (fst s) \<and>
    (\<forall>i < length (fst s). call_trace R (fst s ! i) (fst s' ! i) (effects_of i ls))"
  using assms
proof (induction rule: labelled_run.induct)
  case (labelled_refl s)
  then show ?case by (simp add: call_trace_started effects_of_def)
next
  case (labelled_step s ls s1 ks s2)
  from labelled_step.hyps(2) show ?case
  proof cases
    case (pool_stepI j ts cf c cf')
    have "call_trace R (fst s ! i) (ts[j := c] ! i) (effects_of i (ls @ ks))" if "i < length (fst s)" for i
      using labelled_step.IH labelled_step.prems that pool_stepI call_trace_step [OF _ pool_stepI(7)]
      by (cases "i = j") (auto simp: effects_of_append effects_of_map)
    with labelled_step.IH labelled_step.prems pool_stepI show ?thesis by simp
  qed
qed

text \<open>A file at rest and the calls about to run on it.\<close>

definition ready ::
  "('t \<Rightarrow> bool) \<Rightarrow> ('t \<Rightarrow> segment_btree_metadata_t set) \<Rightarrow> ('r \<Rightarrow> nat set) \<Rightarrow>
   file_call list \<Rightarrow> ('t, 'r, 'd) CatalogFile \<Rightarrow> bool" where
  "ready ok cont used ts cf \<longleftrightarrow> (\<forall>c \<in> set ts. started c) \<and> ok (cf_segmentIndex cf) \<and>
     layout seg_region (cont (cf_segmentIndex cf)) [] (used (cf_regions cf)) \<and>
     fresh_ids (seg_id ` cont (cf_segmentIndex cf)) (map pending_id ts)"

lemma started_idle: "started c \<Longrightarrow> call_region c = {} \<and> call_bytes m c"
  by (cases c) (auto simp: call_bytes_def)

lemma ready_inv:
  assumes "ready ok cont used ts cf"
  shows "pool_inv ok cont bytes used (ts, cf)"
proof -
  have "call_region (ts ! i) = {}" if "i < length ts" for i
    using assms that started_idle nth_mem unfolding ready_def by blast
  moreover have "\<forall>c \<in> set ts. call_bytes (bytes (cf_fd cf)) c"
    using assms started_idle by (auto simp: ready_def)
  ultimately show ?thesis
    using assms by (simp add: ready_def pool_inv_def layout_def)
qed

text \<open>
  On a file just built whose tree is empty, any calls that create pairwise different segments
  can start.
\<close>

lemma new_file_ready:
  assumes "ok (openTree fd (getHeaderEnd (openRegions fd)))" and "cont (openTree fd (getHeaderEnd (openRegions fd))) = {}"
    and "\<forall>c \<in> set ts. started c" and "fresh_ids {} (map pending_id ts)"
  shows "ready ok cont used ts (new_CatalogFile openRegions getHeaderEnd openTree fd)"
  using assms by (simp add: ready_def new_CatalogFile_def layout_def Let_def)

subsection \<open>Readers\<close>

lemma shared_section:
  assumes F: "file_contract B R V ok cont bytes used" and inv: "pool_inv ok cont bytes used (ts, cf)"
    and i: "i < length ts" and run: "call_step B R (ts ! i) cf = (c, cf')" and c: "\<not> exclusive (ts ! i)"
  shows "cf_segmentIndex cf' = cf_segmentIndex cf \<and>
    (\<forall>e \<in> cont (cf_segmentIndex cf). stored (bytes (cf_fd cf')) e = stored (bytes (cf_fd cf)) e)"
proof (cases "ts ! i")
  case (Create_reserved a offset)
  obtain r cf1 where w: "create_write R (ea_content a) offset cf = (r, cf1)" by fastforce
  then have "cf' = cf1" using run by (auto simp: Create_reserved split: sum.splits)
  with write_section [OF file_contractD(3,2) [OF F] inv i Create_reserved w refl] show ?thesis by simp
qed (use run c in \<open>auto simp: create_reserve_def delete_free_def Let_def case_prod_beta\<close>)

text \<open>While a reader is inside, the index and the bytes of its segments stay as they are.\<close>

lemma reader_run:
  assumes "labelled_run (pool_step B R) s ls s'" and F: "file_contract B R V ok cont bytes used"
    and "remove_works B ok cont (fst s)" and "pool_inv ok cont bytes used s" and "r < length (fst s)" and "fst s ! r = Read_inside"
  shows "remove_works B ok cont (fst s') \<and> pool_inv ok cont bytes used s' \<and> length (fst s') = length (fst s) \<and>
    (returned (fst s' ! r) \<or> fst s' ! r = Read_inside \<and> cf_segmentIndex (snd s') = cf_segmentIndex (snd s) \<and>
       (\<forall>e \<in> cont (cf_segmentIndex (snd s)). stored (bytes (cf_fd (snd s'))) e = stored (bytes (cf_fd (snd s))) e))"
  using assms(1,3-)
proof (induction rule: labelled_run.induct)
  case (labelled_step s ls s1 ks s2)
  from labelled_step.hyps(2) show ?case
  proof cases
    case (pool_stepI j ts cf c cf')
    note IH = labelled_step.IH [OF labelled_step.prems, unfolded pool_stepI(1) fst_conv snd_conv]
    note D = IH [THEN conjunct1] and inv = IH [THEN conjunct2, THEN conjunct1]
    have inv': "remove_works B ok cont (fst s2)" "pool_inv ok cont bytes used s2"
      using pool_step_sound [OF F D inv pool_stepI(4,7)] remove_works_step [OF D pool_stepI(7)]
      by (simp_all add: pool_stepI(3))
    show ?thesis
    proof (cases "j = r \<or> returned (ts ! r)")
      case True
      then have "returned (ts[j := c] ! r)"
        using IH pool_stepI(4,5,7) by (cases "j = r") auto
      with IH inv' show ?thesis by (simp add: pool_stepI(3))
    next
      case False
      with IH have "ts ! r = Read_inside" "r < length ts" using labelled_step.prems(3) by auto
      then have "\<not> exclusive (ts ! j)" using pool_stepI(6) nth_mem by metis
      from shared_section [OF F inv pool_stepI(4,7) this] False IH inv' show ?thesis by (simp add: pool_stepI(3))
    qed
  qed
qed simp

subsection \<open>Progress\<close>

text \<open>The sections a call has still to run.\<close>

primrec remaining :: "file_call \<Rightarrow> nat" where
  "remaining (Create_called a) = 5"
| "remaining (Create_entered a) = 4"
| "remaining (Create_reserved a offset) = 3"
| "remaining (Create_written a offset) = 2"
| "remaining (Create_leaving r) = 1"
| "remaining (Delete_called i s g) = 2"
| "remaining (Delete_removed e) = 1"
| "remaining Read_called = 2"
| "remaining Read_inside = 1"
| "remaining (Returned r) = 0"

lemma call_step_remaining: "\<not> returned c \<Longrightarrow> remaining (fst (call_step B R c cf)) < remaining c"
  by (cases c) (auto split: prod.splits sum.splits)

subsection \<open>Two faults\<close>

lemma writer_step:
  assumes "pending_id c \<noteq> None" and "call_step B R c cf = (c', cf')"
  shows "pending_id c' \<noteq> None \<or> (\<exists>r. c' = Create_leaving r)"
  using assms by (cases c) (auto simp del: not_None_eq split: prod.splits sum.splits if_splits)

lemma first_writer_returns:
  assumes "pending_id c \<noteq> None \<or> (\<exists>r. c = Create_leaving r)"
  shows "\<exists>ls c' cf'. labelled_run (pool_step B R) ([c, Create_entered b], cf) ls ([c', Create_entered b], cf') \<and>
    returned c' \<and> \<not> isBusy cf'"
  using assms
proof (induction "remaining c" arbitrary: c cf rule: less_induct)
  case less
  have nr: "\<not> returned c" "c \<noteq> Read_inside" using less.prems by (cases c; simp)+
  obtain c1 cf1 where run: "call_step B R c cf = (c1, cf1)" by fastforce
  have step: "pool_step B R ([c, Create_entered b], cf) (map (Pair 0) (call_effect R c)) ([c1, Create_entered b], cf1)"
    using pool_stepI [of 0 "[c, Create_entered b]" B R cf c1 cf1] run nr by auto
  show ?case
  proof (cases "\<exists>r. c = Create_leaving r")
    case True
    then have "returned c1" "\<not> isBusy cf1" using run by (auto simp: isBusy_def)
    with labelled_run_Cons [of "pool_step B R", OF step labelled_refl] show ?thesis by blast
  next
    case False
    then have "pending_id c1 \<noteq> None \<or> (\<exists>r. c1 = Create_leaving r)" using less.prems writer_step [OF _ run] by blast
    moreover have "remaining c1 < remaining c" using call_step_remaining [OF nr(1), of B R cf] run by simp
    ultimately show ?thesis using less.hyps [of c1 cf1] labelled_run_Cons [of "pool_step B R", OF step] by blast
  qed
qed

text \<open>
  The busy flag is one bit for all writers: whatever the file, a second writer that has entered
  \<open>createEntry\<close> and reserved nothing yet is in the middle of its call while \<open>isBusy\<close> says no,
  once a first writer has come and gone.
\<close>

theorem busy_flag_lost:
  "\<exists>ls c cf'. labelled_run (pool_step B R) ([Create_called a, Create_called b], cf) ls ([c, Create_entered b], cf') \<and>
     returned c \<and> \<not> isBusy cf'"
proof -
  let ?cf = "cf\<lparr>cf_isSegmentBeingWritten := True\<rparr>"
  have step: "pool_step B R ([Create_called a, Create_called b], cf) [] ([Create_called a, Create_entered b], ?cf)"
    using pool_stepI [of 1 "[Create_called a, Create_called b]" B R cf] by simp
  have "pending_id (Create_called a) \<noteq> None \<or> (\<exists>r. Create_called a = Create_leaving r)" by simp
  from first_writer_returns [OF this, of B R b ?cf] obtain ls c cf'
    where "labelled_run (pool_step B R) ([Create_called a, Create_entered b], ?cf) ls ([c, Create_entered b], cf')"
      and c: "returned c" "\<not> isBusy cf'" by (elim exE conjE)
  from labelled_run_Cons [of "pool_step B R", OF step this(1)] c show ?thesis by (intro exI conjI)
qed

text \<open>
  When the \<open>pwrite\<close> of \<open>createEntry\<close> is short, the region it has reserved is not given back: its
  bytes stay in use, and no entry of the index owns one of them.
\<close>

theorem failed_write_leaks_region:
  assumes "region_contract R used" and "layout seg_region (cont (cf_segmentIndex cf)) [] (used (cf_regions cf))"
    and "createEntry B R (ea_indexId a) (ea_version a) (ea_mergeGeneration a) (ea_startBlock a) (ea_endBlock a)
      (ea_content a) cf = (Inl e, cf')"
    and "fst (create_reserve R (ea_content a) cf) = offset" and "0 \<le> offset"
  shows "used (cf_regions cf') = used (cf_regions cf) \<union> args_region a offset \<and>
    args_region a offset \<inter> used (cf_regions cf) = {} \<and>
    (\<forall>s \<in> cont (cf_segmentIndex cf'). seg_region s \<inter> args_region a offset = {})"
proof -
  let ?g = "rg_getFreeRegion R (create_length (ea_content a)) (cf_regions cf)"
  have off: "fst ?g = offset" using assms(4) by (simp add: create_reserve_def case_prod_beta)
  have cf': "cf_regions cf' = snd ?g" "cf_segmentIndex cf' = cf_segmentIndex cf"
    using assms(3,5) off
    by (auto simp: createEntry_unfold Let_def case_prod_beta split: if_splits)
  have "used (snd ?g) = used (cf_regions cf) \<union> args_region a offset" "args_region a offset \<inter> used (cf_regions cf) = {}"
    using assms(1,5) by (simp_all add: region_contract_def args_region_def off [symmetric])
  with assms(2) cf' show ?thesis by (auto simp: layout_def)
qed

subsection \<open>Witnesses\<close>

text \<open>
  An allocator that keeps the list of bytes in use and hands out the bytes behind all of them,
  on the list index and the flat memory of the other examples.
\<close>

definition list_segfile :: "(segment_btree_metadata_t list, nat list, memory, flat_file) segfile_ops" where
  "list_segfile =
     \<lparr>rg_getFreeRegion = (\<lambda>len r. let off = Suc (foldr max r 8191)
        in if off + unat len < 2 ^ 63 then (int off, [off ..< off + unat len] @ r) else (- 1, r)),
      rg_markFreeRegion = (\<lambda>off len r. filter (\<lambda>x. \<not> (unat off \<le> x \<and> x < unat off + unat len)) r),
      rg_pwrite = (\<lambda>bs off d. (int (length bs), mem_store d (nat off) bs)),
      rg_fileSize = (\<lambda>t r d. word_of_nat (foldr max r 8191)),
      rg_mmap = (\<lambda>off len d. \<lparr>fl_mem = (\<lambda>i. d (unat off + i)), fl_pos = 0, fl_cap = unat len\<rparr>),
      rg_hash = (\<lambda>bs n. 0)\<rparr>"

lemma foldr_max_bound: "x \<in> set r \<Longrightarrow> x \<le> foldr max r (b :: nat)"
  by (induction r) auto

lemma list_segfile_contract: "file_contract (list_btree seg_compare) list_segfile flat_view (one_per_key seg_compare) set (\<lambda>d. d) set"
  unfolding file_contract_def
proof (intro conjI seg.list_btree_contract)
  have "{Suc (foldr max r 8191) ..< n} \<inter> set r = {}" for r n
    using foldr_max_bound [of _ r 8191] by fastforce
  moreover have "int a + uint len < 9223372036854775807" if "a + unat len < 9223372036854775807" for a and len :: u32
    unfolding uint_nat using that by linarith
  ultimately show "region_contract list_segfile set"
    by (auto simp: region_contract_def list_segfile_def Let_def nat_add_distrib)
qed (simp_all add: segfile_contract_def pwrite_local_def list_segfile_def mem_store_def)

text \<open>A writer, a deleter and a reader on a file with one segment.\<close>

abbreviation sample_entry :: entry_args where
  "sample_entry \<equiv> \<lparr>ea_indexId = 3, ea_version = 1, ea_mergeGeneration = 0, ea_startBlock = 7, ea_endBlock = 8, ea_content = [1, 2]\<rparr>"

abbreviation shared_cf :: "(segment_btree_metadata_t list, nat list, memory) CatalogFile" where
  "shared_cf \<equiv> \<lparr>cf_fd = (\<lambda>_. 0), cf_regions = [8192, 8193], cf_segmentIndex = [sample_segment 3 5 6], cf_isSegmentBeingWritten = False\<rparr>"

abbreviation sample_calls :: "file_call list" where
  "sample_calls \<equiv> [Create_called sample_entry, Delete_called 3 5 0, Read_called]"

lemmas pool_eval = list_segfile_def create_sections delete_sections args_metadata_def list_btree_def
  seg_compare_def less_Suc_eq upt_rec

end
