(* ===== verification/CatalogFile_Locks.thy ===== *)
theory CatalogFile_Locks
  imports CatalogFile_Threads "HOL-Library.Sublist"
begin

text \<open>
  The two mutexes of a catalog file as state.  A thread takes the mutexes of its section one at a
  time, runs the section when it holds all of them, and gives them back in the reverse order, as
  the scopes of \<^verbatim>\<open>CatalogFile.cpp\<close> do; between any two of these steps every other thread may run.  It
  is shown that the sections exclude each other, that the runs of such threads are the runs of
  \<open>pool_step\<close>, and that the threads cannot block each other; the properties of a shared catalog file
  are stated for these runs.
\<close>

subsection \<open>The mutexes\<close>

text \<open>
  \<open>std::shared_mutex\<close>: \<open>lock\<close> waits until nobody holds it, \<open>lock_shared\<close> until no writer does.
\<close>

record shared_mutex =
  sm_readers :: nat
  sm_writer :: bool

fun can_lock :: "lock_mode \<Rightarrow> shared_mutex \<Rightarrow> bool" where
  "can_lock Shared x = (\<not> sm_writer x)"
| "can_lock Exclusive x = (\<not> sm_writer x \<and> sm_readers x = 0)"

fun lock_mutex :: "lock_mode \<Rightarrow> shared_mutex \<Rightarrow> shared_mutex" where
  "lock_mutex Shared x = x\<lparr>sm_readers := sm_readers x + 1\<rparr>"
| "lock_mutex Exclusive x = x\<lparr>sm_writer := True\<rparr>"

fun unlock_mutex :: "lock_mode \<Rightarrow> shared_mutex \<Rightarrow> shared_mutex" where
  "unlock_mutex Shared x = x\<lparr>sm_readers := sm_readers x - 1\<rparr>"
| "unlock_mutex Exclusive x = x\<lparr>sm_writer := False\<rparr>"

text \<open>A thread inside a call: the mutexes it holds, and whether it is leaving a section.\<close>

record file_thread =
  ft_call :: file_call
  ft_held :: "(mutex \<times> lock_mode) list"
  ft_leaving :: bool

definition wanted :: "file_thread \<Rightarrow> (mutex \<times> lock_mode) list" where
  "wanted t = drop (length (ft_held t)) (locks_of (ft_call t))"

text \<open>
  The next step of a thread, \<open>None\<close> when it has to wait or has returned.  The callback of
  \<open>openForReading\<close> runs while the lock is kept, so entering it is not the end of the section.
\<close>

definition thread_next ::
  "('t, segment_btree_metadata_t) btree_ops \<Rightarrow> ('t, 'r, 'd, 'm) segfile_ops \<Rightarrow> file_thread \<Rightarrow>
   (mutex \<Rightarrow> shared_mutex) \<Rightarrow> ('t, 'r, 'd) CatalogFile \<Rightarrow>
   (file_effect list \<times> file_thread \<times> (mutex \<Rightarrow> shared_mutex) \<times> ('t, 'r, 'd) CatalogFile) option" where
  "thread_next B R t mx cf =
     (if ft_leaving t
      then (case rev (ft_held t) of
              [] \<Rightarrow> None
            | (m, mode) # held \<Rightarrow>
                Some ([], t\<lparr>ft_held := rev held, ft_leaving := (held \<noteq> [])\<rparr>, mx(m := unlock_mutex mode (mx m)), cf))
      else (case wanted t of
              (m, mode) # _ \<Rightarrow>
                if can_lock mode (mx m)
                then Some ([], t\<lparr>ft_held := ft_held t @ [(m, mode)]\<rparr>, mx(m := lock_mutex mode (mx m)), cf)
                else None
            | [] \<Rightarrow>
                if returned (ft_call t) then None
                else (case call_step B R (ft_call t) cf of (c, cf') \<Rightarrow>
                  Some (call_effect R (ft_call t),
                    t\<lparr>ft_call := c, ft_leaving := (ft_held t \<noteq> [] \<and> c \<noteq> Read_inside)\<rparr>, mx, cf'))))"

inductive lock_step ::
  "('t, segment_btree_metadata_t) btree_ops \<Rightarrow> ('t, 'r, 'd, 'm) segfile_ops \<Rightarrow>
   file_thread list \<times> (mutex \<Rightarrow> shared_mutex) \<times> ('t, 'r, 'd) CatalogFile \<Rightarrow> (nat \<times> file_effect) list \<Rightarrow>
   file_thread list \<times> (mutex \<Rightarrow> shared_mutex) \<times> ('t, 'r, 'd) CatalogFile \<Rightarrow> bool" for B R where
  lock_stepI: "i < length ts \<Longrightarrow> thread_next B R (ts ! i) mx cf = Some (es, t, mx', cf') \<Longrightarrow>
    lock_step B R (ts, mx, cf) (map (Pair i) es) (ts[i := t], mx', cf')"

definition start_threads :: "file_call list \<Rightarrow> file_thread list" where
  "start_threads cs = map (\<lambda>c. \<lparr>ft_call = c, ft_held = [], ft_leaving = False\<rparr>) cs"

definition unlocked :: "mutex \<Rightarrow> shared_mutex" where
  "unlocked m = \<lparr>sm_readers = 0, sm_writer = False\<rparr>"

lemma thread_next_cases:
  assumes "thread_next B R t mx cf = Some (es, t', mx', cf')"
  obtains (acquire) m mode rest where "\<not> ft_leaving t" "wanted t = (m, mode) # rest" "can_lock mode (mx m)" "es = []"
      "t' = t\<lparr>ft_held := ft_held t @ [(m, mode)]\<rparr>" "mx' = mx(m := lock_mutex mode (mx m))" "cf' = cf"
  | (body) c where "\<not> ft_leaving t" "wanted t = []" "\<not> returned (ft_call t)" "call_step B R (ft_call t) cf = (c, cf')"
      "es = call_effect R (ft_call t)" "t' = t\<lparr>ft_call := c, ft_leaving := (ft_held t \<noteq> [] \<and> c \<noteq> Read_inside)\<rparr>" "mx' = mx"
  | (release) m mode held where "ft_leaving t" "ft_held t = held @ [(m, mode)]" "es = []"
      "t' = t\<lparr>ft_held := held, ft_leaving := (held \<noteq> [])\<rparr>" "mx' = mx(m := unlock_mutex mode (mx m))" "cf' = cf"
proof (cases "ft_leaving t")
  case True
  then obtain m mode held where "rev (ft_held t) = (m, mode) # held"
    using assms by (auto simp: thread_next_def split: list.splits)
  then have "ft_held t = rev held @ [(m, mode)]" by (simp add: rev_eq_Cons_iff)
  then show thesis using True assms by (intro release [of "rev held" m mode]) (auto simp: thread_next_def)
next
  case False
  show thesis
  proof (cases "wanted t")
    case Nil
    then show thesis using False assms
      by (intro body [of "fst (call_step B R (ft_call t) cf)"]) (auto simp: thread_next_def split: if_splits prod.splits)
  next
    case (Cons w rest)
    then show thesis using False assms
      by (intro acquire [of "fst w" "snd w" rest]) (auto simp: thread_next_def split: if_splits prod.splits)
  qed
qed

subsection \<open>Who holds what\<close>

definition holders :: "mutex \<times> lock_mode \<Rightarrow> file_thread list \<Rightarrow> nat" where
  "holders l ts = sum_list (map (\<lambda>t. count_list (ft_held t) l) ts)"

definition thread_ok :: "file_thread \<Rightarrow> bool" where
  "thread_ok t \<longleftrightarrow>
     (if ft_leaving t then ft_held t \<noteq> [] \<and> length (ft_held t) \<le> 2 \<and> ft_call t \<noteq> Read_inside
      else prefix (ft_held t) (locks_of (ft_call t)) \<and> (ft_call t = Read_inside \<longrightarrow> ft_held t = [(RwMutex, Shared)]))"

definition lock_inv :: "file_thread list \<Rightarrow> (mutex \<Rightarrow> shared_mutex) \<Rightarrow> bool" where
  "lock_inv ts mx \<longleftrightarrow> (\<forall>t \<in> set ts. thread_ok t) \<and>
     (\<forall>m. sm_readers (mx m) = holders (m, Shared) ts \<and> of_bool (sm_writer (mx m)) = holders (m, Exclusive) ts \<and>
        (sm_writer (mx m) \<longrightarrow> sm_readers (mx m) = 0))"

lemma lock_invD:
  assumes "lock_inv ts mx"
  shows "sm_readers (mx m) = holders (m, Shared) ts" and "of_bool (sm_writer (mx m)) = holders (m, Exclusive) ts"
    and "sm_writer (mx m) \<Longrightarrow> sm_readers (mx m) = 0" and "i < length ts \<Longrightarrow> thread_ok (ts ! i)"
  using assms nth_mem [of i ts] unfolding lock_inv_def by blast+

lemma lock_inv_writer: "lock_inv ts mx \<Longrightarrow> 1 \<le> holders (m, Exclusive) ts \<Longrightarrow> sm_writer (mx m)"
  using lock_invD(2) [of ts mx m] by (cases "sm_writer (mx m)") simp_all

lemma holders_update:
  assumes "i < length ts"
  shows "holders l (ts[i := t]) + count_list (ft_held (ts ! i)) l = holders l ts + count_list (ft_held t) l"
  using assms member_le_sum_list [of "count_list (ft_held (ts ! i)) l" "map (\<lambda>t. count_list (ft_held t) l) ts"]
  by (simp add: holders_def map_update sum_list_update)

lemma holders_member: "i < length ts \<Longrightarrow> count_list (ft_held (ts ! i)) l \<le> holders l ts"
  unfolding holders_def by (intro member_le_sum_list) simp_all

lemma holders_two:
  assumes "i < length ts" and "j < length ts" and "i \<noteq> j"
  shows "count_list (ft_held (ts ! i)) l + count_list (ft_held (ts ! j)) l \<le> holders l ts"
proof -
  let ?t = "\<lparr>ft_call = Read_called, ft_held = [], ft_leaving = False\<rparr>"
  have "holders l (ts[i := ?t]) + count_list (ft_held (ts ! i)) l = holders l ts" using holders_update [OF assms(1), of l ?t] by simp
  moreover have "count_list (ft_held (ts ! j)) l \<le> holders l (ts[i := ?t])" using holders_member [of j "ts[i := ?t]" l] assms by simp
  ultimately show ?thesis by linarith
qed

lemma count_held: "l \<in> set held \<Longrightarrow> 1 \<le> count_list held l"
  by (induction held) auto

text \<open>Mutual exclusion: an exclusive holder is the only holder.\<close>

lemma exclusive_alone:
  assumes inv: "lock_inv ts mx" and ij: "i < length ts" "j < length ts" "i \<noteq> j"
    and held: "(m, Exclusive) \<in> set (ft_held (ts ! i))"
  shows "(m, mode) \<notin> set (ft_held (ts ! j))"
proof
  assume j: "(m, mode) \<in> set (ft_held (ts ! j))"
  have one: "1 \<le> holders (m, Exclusive) ts"
    using count_held [OF held] holders_member [OF ij(1), of "(m, Exclusive)"] by linarith
  have w: "sm_writer (mx m)" by (rule lock_inv_writer [OF inv one])
  then have none: "holders (m, Exclusive) ts = 1" "holders (m, Shared) ts = 0"
    using lock_invD(1-3) [OF inv, of m] by simp_all
  show False
  proof (cases mode)
    case Shared
    then show ?thesis using count_held [OF j] holders_member [OF ij(2), of "(m, Shared)"] none(2) by simp
  next
    case Exclusive
    then show ?thesis using count_held [OF j] count_held [OF held] holders_two [OF ij, of "(m, Exclusive)"] none(1) by simp
  qed
qed

lemma mutex_inv_change:
  assumes inv: "lock_inv ts mx" and i: "i < length ts" and t: "thread_ok t"
    and mx: "\<And>m. sm_readers (mx' m) + count_list (ft_held (ts ! i)) (m, Shared) =
        sm_readers (mx m) + count_list (ft_held t) (m, Shared)"
      "\<And>m. of_bool (sm_writer (mx' m)) + count_list (ft_held (ts ! i)) (m, Exclusive) =
        (of_bool (sm_writer (mx m)) :: nat) + count_list (ft_held t) (m, Exclusive)"
      "\<And>m. sm_writer (mx' m) \<Longrightarrow> sm_readers (mx' m) = 0"
  shows "lock_inv (ts[i := t]) mx'"
proof -
  have "\<forall>x \<in> set (ts[i := t]). thread_ok x"
    using inv t set_update_subset_insert [of ts i t] by (auto simp: lock_inv_def)
  moreover have "sm_readers (mx' m) = holders (m, Shared) (ts[i := t])" for m
    using holders_update [OF i, of "(m, Shared)" t] mx(1) [of m] inv by (simp add: lock_inv_def)
  moreover have "of_bool (sm_writer (mx' m)) = holders (m, Exclusive) (ts[i := t])" for m
    using holders_update [OF i, of "(m, Exclusive)" t] mx(2) [of m] inv by (simp add: lock_inv_def)
  ultimately show ?thesis using mx(3) by (simp add: lock_inv_def)
qed

lemma length_locks: "length (locks_of c) \<le> 2"
  by (cases c) auto

lemma enters_reader: "call_step B R c cf = (Read_inside, cf') \<longleftrightarrow> c = Read_called \<and> cf' = cf"
  by (cases c) (auto split: prod.splits sum.splits if_splits)

lemma thread_ok_wanted:
  assumes "thread_ok t" and "\<not> ft_leaving t"
  shows "locks_of (ft_call t) = ft_held t @ wanted t"
  using assms by (auto simp: thread_ok_def wanted_def prefix_def)

lemma thread_ok_next:
  assumes ok: "thread_ok t" and "thread_next B R t mx cf = Some (es, t', mx', cf')"
  shows "thread_ok t'"
  using assms(2)
proof (cases rule: thread_next_cases)
  case (acquire m mode rest)
  have "locks_of (ft_call t) = ft_held t @ (m, mode) # rest" using thread_ok_wanted [OF ok acquire(1)] acquire(2) by simp
  then show ?thesis using ok acquire by (auto simp: thread_ok_def prefix_def)
next
  case (body c)
  have "locks_of (ft_call t) = ft_held t" using thread_ok_wanted [OF ok body(1)] body(2) by simp
  then show ?thesis using ok body length_locks [of "ft_call t"] enters_reader [of B R "ft_call t" cf cf']
    by (auto simp: thread_ok_def)
next
  case (release m mode held)
  then show ?thesis using ok by (auto simp: thread_ok_def)
qed

lemma lock_inv_next:
  assumes inv: "lock_inv ts mx" and i: "i < length ts" and next1: "thread_next B R (ts ! i) mx cf = Some (es, t, mx', cf')"
  shows "lock_inv (ts[i := t]) mx'"
proof -
  have ok: "thread_ok t" using inv i thread_ok_next [OF _ next1] by (auto simp: lock_inv_def)
  note w = lock_invD(3) [OF inv]
  from next1 show ?thesis
  proof (cases rule: thread_next_cases)
    case (acquire m mode rest)
    show ?thesis
      by (rule mutex_inv_change [OF inv i ok]; cases mode) (use acquire(3,5,6) w in \<open>auto split: if_splits\<close>)
  next
    case (body c)
    show ?thesis by (rule mutex_inv_change [OF inv i ok]) (use body(6,7) w in auto)
  next
    case (release m mode held)
    have "1 \<le> count_list (ft_held (ts ! i)) (m, mode)" using release(2) by simp
    then have here: "1 \<le> holders (m, mode) ts" using holders_member [OF i, of "(m, mode)"] by (rule order_trans)
    show ?thesis
    proof (cases mode)
      case Shared
      then have "sm_readers (mx m) = Suc (sm_readers (mx m) - 1)" using lock_invD(1) [OF inv, of m] here by simp
      then show ?thesis by (intro mutex_inv_change [OF inv i ok]) (use release(2,4,5) Shared w in \<open>auto split: if_splits\<close>)
    next
      case Exclusive
      then have "sm_writer (mx m)" using lock_inv_writer [OF inv] here by simp
      then show ?thesis by (intro mutex_inv_change [OF inv i ok]) (use release(2,4,5) Exclusive w in \<open>auto split: if_splits\<close>)
    qed
  qed
qed

lemma lock_inv_start: "\<forall>c \<in> set cs. c \<noteq> Read_inside \<Longrightarrow> lock_inv (start_threads cs) unlocked"
  by (auto simp: lock_inv_def start_threads_def unlocked_def thread_ok_def holders_def o_def)

subsection \<open>The runs of the threads are runs of sections\<close>

text \<open>Taking and giving back a mutex is no step of the pool; running a section is one.\<close>

definition section_step where
  "section_step B R s ls s' \<longleftrightarrow> pool_step B R s ls s' \<or> ls = [] \<and> s' = s"

definition shows_sections ::
  "file_thread list \<times> (mutex \<Rightarrow> shared_mutex) \<times> ('t, 'r, 'd) CatalogFile \<Rightarrow> file_call list \<times> ('t, 'r, 'd) CatalogFile \<Rightarrow> bool" where
  "shows_sections s a \<longleftrightarrow> (case s of (ts, mx, cf) \<Rightarrow> lock_inv ts mx \<and> a = (map ft_call ts, cf))"

lemma body_waits_for_readers:
  assumes inv: "lock_inv ts mx" and i: "i < length ts" and body: "\<not> ft_leaving (ts ! i)" "wanted (ts ! i) = []"
    and ex: "exclusive (ft_call (ts ! i))"
  shows "Read_inside \<notin> set (map ft_call ts)"
proof
  assume "Read_inside \<in> set (map ft_call ts)"
  then obtain j where j: "j < length ts" "ft_call (ts ! j) = Read_inside" by (auto simp: in_set_conv_nth)
  note ok = lock_invD(4) [OF inv i] lock_invD(4) [OF inv j(1)]
  have "(RwMutex, Exclusive) \<in> set (ft_held (ts ! i))" using thread_ok_wanted [OF ok(1) body(1)] body(2) ex by simp
  moreover have "(RwMutex, Shared) \<in> set (ft_held (ts ! j))" using ok(2) j(2) by (auto simp: thread_ok_def split: if_splits)
  moreover have "i \<noteq> j" using ex j(2) by auto
  ultimately show False using exclusive_alone [OF inv i j(1)] by blast
qed

interpretation catalog_locks: labelled_simulation "lock_step B R" "section_step B R" shows_sections
  for B R
proof unfold_locales
  fix s a ls s'
  assume rel: "shows_sections s a" and "lock_step B R s ls s'"
  from this(2) show "\<exists>a'. shows_sections s' a' \<and> section_step B R a ls a'"
  proof cases
    case (lock_stepI i ts mx cf es t mx' cf')
    have inv: "lock_inv ts mx" and a: "a = (map ft_call ts, cf)" using rel lock_stepI(1) by (auto simp: shows_sections_def)
    have rel': "shows_sections s' (map ft_call (ts[i := t]), cf')"
      using lock_inv_next [OF inv lock_stepI(4,5)] by (simp add: shows_sections_def lock_stepI(3))
    have quiet: ?thesis if "es = []" "ft_call t = ft_call (ts ! i)" "cf' = cf"
    proof -
      have "(map ft_call (ts[i := t]), cf') = a" using that lock_stepI(4) by (simp add: a map_update list_update_same_conv)
      with rel' that(1) show ?thesis by (intro exI [of _ a]) (simp add: section_step_def lock_stepI(2))
    qed
    from lock_stepI(5) show ?thesis
    proof (cases rule: thread_next_cases)
      case (body c)
      have "pool_step B R a ls ((map ft_call ts)[i := c], cf')"
        using pool_stepI [of i "map ft_call ts" B R cf c cf'] body lock_stepI(2,4) body_waits_for_readers [OF inv lock_stepI(4) body(1,2)]
        by (simp add: a)
      with rel' body show ?thesis by (auto simp: section_step_def map_update)
    qed (rule quiet; simp)+
  qed
qed

lemma section_run: "labelled_run (section_step B R) s ls s' \<Longrightarrow> labelled_run (pool_step B R) s ls s'"
  by (induction rule: labelled_run.induct) (auto simp: section_step_def intro: labelled_run.intros)

lemma lock_run:
  assumes "labelled_run (lock_step B R) (ts, mx, cf) ls (ts', mx', cf')" and "lock_inv ts mx"
  shows "labelled_run (pool_step B R) (map ft_call ts, cf) ls (map ft_call ts', cf')" and "lock_inv ts' mx'"
  using catalog_locks.run_simulated [OF assms(1), of "(map ft_call ts, cf)"] assms(2) section_run
  by (fastforce simp: shows_sections_def)+

subsection \<open>Progress\<close>

definition finished :: "file_thread \<Rightarrow> bool" where
  "finished t \<longleftrightarrow> returned (ft_call t) \<and> \<not> ft_leaving t"

definition work :: "file_thread \<Rightarrow> nat" where
  "work t = 6 * remaining (ft_call t) + (if ft_leaving t then length (ft_held t) + 3 else length (wanted t))"

lemma length_wanted: "length (wanted t) \<le> 2"
  using length_locks [of "ft_call t"] by (simp add: wanted_def)

lemma thread_next_work:
  assumes ok: "thread_ok t" and "thread_next B R t mx cf = Some (es, t', mx', cf')"
  shows "work t' < work t"
  using assms(2)
proof (cases rule: thread_next_cases)
  case (acquire m mode rest)
  have "length (wanted t) = Suc (length rest)" using acquire(2) by simp
  then have "length (wanted t') < length (wanted t)" using acquire(5) unfolding wanted_def by simp
  then show ?thesis using acquire by (simp add: work_def)
next
  case (body c)
  have "length (ft_held t) \<le> 2" using length_locks [of "ft_call t"] thread_ok_wanted [OF ok body(1)] by simp
  moreover have "remaining c < remaining (ft_call t)" using call_step_remaining [OF body(3), of B R cf] body(4) by simp
  ultimately show ?thesis using body length_wanted [of t'] by (simp add: work_def)
next
  case (release m mode held)
  have "length (wanted t') \<le> 2" by (rule length_wanted)
  then show ?thesis using release by (cases "held = []") (simp_all add: work_def)
qed

lemma lock_step_work:
  assumes "lock_step B R (ts, mx, cf) ls (ts', mx', cf')" and "lock_inv ts mx"
  shows "sum_list (map work ts') < sum_list (map work ts)"
  using assms(1)
proof cases
  case (lock_stepI i es t)
  have "work t < work (ts ! i)" using thread_next_work [OF lock_invD(4) [OF assms(2)] lock_stepI(4)] lock_stepI(3) by simp
  moreover have "work (ts ! i) \<le> sum_list (map work ts)" using lock_stepI(3) by (intro member_le_sum_list) simp_all
  ultimately show ?thesis using lock_stepI(2,3) by (simp add: map_update sum_list_update)
qed

text \<open>A thread that cannot go on waits for a mutex that some thread holds.\<close>

lemma holders_pos: "holders l ts \<noteq> 0 \<Longrightarrow> \<exists>j < length ts. l \<in> set (ft_held (ts ! j))"
proof (induction ts)
  case (Cons t ts)
  show ?case
  proof (cases "l \<in> set (ft_held t)")
    case False
    then have "holders l ts \<noteq> 0" using Cons.prems by (simp add: holders_def)
    with Cons.IH show ?thesis by auto
  qed auto
qed (simp add: holders_def)

lemma blocked_thread:
  assumes inv: "lock_inv ts mx" and i: "i < length ts" and "\<not> finished (ts ! i)" and "thread_next B R (ts ! i) mx cf = None"
  obtains m mode rest j mode' where "\<not> ft_leaving (ts ! i)" "wanted (ts ! i) = (m, mode) # rest"
    "j < length ts" "(m, mode') \<in> set (ft_held (ts ! j))"
proof -
  have not_leaving: "\<not> ft_leaving (ts ! i)"
  proof
    assume l: "ft_leaving (ts ! i)"
    then have "rev (ft_held (ts ! i)) \<noteq> []" using lock_invD(4) [OF inv i] by (simp add: thread_ok_def)
    with l assms(4) show False by (auto simp: thread_next_def split: list.splits)
  qed
  moreover from this assms(3,4) obtain m mode rest where w: "wanted (ts ! i) = (m, mode) # rest" and no: "\<not> can_lock mode (mx m)"
    by (auto simp: thread_next_def finished_def split: list.splits if_splits prod.splits)
  moreover have "holders (m, Shared) ts \<noteq> 0 \<or> holders (m, Exclusive) ts \<noteq> 0"
    using no lock_invD(1,2) [OF inv, of m] by (cases mode) auto
  ultimately show thesis using holders_pos that by metis
qed

text \<open>The order of the mutexes: who holds one and waits for another holds \<open>rwMutex\<close> and waits for \<open>appendMutex\<close>.\<close>

lemma lock_order:
  assumes "thread_ok t" and "\<not> ft_leaving t" and "wanted t = (m, mode) # rest" and "(m', mode') \<in> set (ft_held t)"
  shows "m' = RwMutex \<and> m = AppendMutex"
proof -
  have "locks_of (ft_call t) = ft_held t @ (m, mode) # rest" using thread_ok_wanted [OF assms(1,2)] assms(3) by simp
  with assms(4) show ?thesis by (cases "ft_call t") (auto simp: Cons_eq_append_conv dest: sym)
qed

lemma holder_unfinished:
  assumes "thread_ok t" and "l \<in> set (ft_held t)"
  shows "\<not> finished t"
  using assms by (cases "ft_call t") (auto simp: thread_ok_def finished_def split: if_splits)

lemma some_thread_runs:
  assumes inv: "lock_inv ts mx" and i: "i < length ts" "\<not> finished (ts ! i)"
  shows "\<exists>j < length ts. thread_next B R (ts ! j) mx cf \<noteq> None"
proof (rule ccontr)
  assume "\<not> ?thesis"
  then have stuck: "j < length ts \<Longrightarrow> thread_next B R (ts ! j) mx cf = None" for j by blast
  have waits: "\<exists>k mode2. m = RwMutex \<and> k < length ts \<and> (AppendMutex, mode2) \<in> set (ft_held (ts ! k))"
    if j: "j < length ts" "(m, mode') \<in> set (ft_held (ts ! j))" for j m mode'
  proof -
    note ok = lock_invD(4) [OF inv j(1)]
    from blocked_thread [OF inv j(1) holder_unfinished [OF ok j(2)] stuck [OF j(1)]] obtain m2 mode2 rest k mode3
      where w: "\<not> ft_leaving (ts ! j)" "wanted (ts ! j) = (m2, mode2) # rest" "k < length ts" "(m2, mode3) \<in> set (ft_held (ts ! k))" .
    with lock_order [OF ok w(1,2) j(2)] show ?thesis by blast
  qed
  obtain m mode rest j mode' where "j < length ts" "(m, mode') \<in> set (ft_held (ts ! j))"
    using blocked_thread [OF inv i stuck [OF i(1)]] by blast
  from waits [OF this] obtain k mode2 where "k < length ts" "(AppendMutex, mode2) \<in> set (ft_held (ts ! k))" by blast
  from waits [OF this] show False by blast
qed

lemma finished_none: "finished t \<Longrightarrow> thread_next B R t mx cf = None"
  by (cases "ft_call t") (auto simp: finished_def thread_next_def wanted_def)

lemma all_finished_unlocked:
  assumes inv: "lock_inv ts mx" and "\<forall>t \<in> set ts. finished t"
  shows "mx = unlocked"
proof
  fix m
  have "holders l ts = 0" for l
    using holders_pos [of l ts] holder_unfinished [OF lock_invD(4) [OF inv], of _ l] assms(2) nth_mem by blast
  then show "mx m = unlocked m"
    using lock_invD(1,2) [OF inv, of m] by (cases "sm_writer (mx m)") (simp_all add: unlocked_def)
qed

subsection \<open>Properties\<close>

text \<open>The runs of a pool of calls, from the moment they are called.\<close>

abbreviation locked_run where
  "locked_run B R cs cf \<equiv> labelled_run (lock_step B R) (start_threads cs, unlocked, cf)"

lemma started_lock_inv: "\<forall>c \<in> set cs. started c \<Longrightarrow> lock_inv (start_threads cs) unlocked"
  by (rule lock_inv_start) (metis started.simps(9))

lemma ready_started: "ready ok cont used cs cf \<Longrightarrow> \<forall>c \<in> set cs. started c"
  by (simp add: ready_def)

lemma no_deletes: "\<forall>c \<in> set cs. \<not> deletes c \<Longrightarrow> remove_works B ok cont cs"
  by (simp add: remove_works_def)

lemma calls_of_start [simp]: "map ft_call (start_threads cs) = cs"
  by (simp add: start_threads_def o_def)

lemma locked_run_pool:
  assumes "locked_run B R cs cf ls (ts, mx, cf')" and "\<forall>c \<in> set cs. started c"
  shows "labelled_run (pool_step B R) (cs, cf) ls (map ft_call ts, cf')" and "lock_inv ts mx"
  using lock_run [OF assms(1) started_lock_inv [OF assms(2)]] by simp_all


text \<open>
  C38 (CatalogFile_Locks.file_calls_finish): the mutexes of a catalog file, granted whenever they are free, cannot block its callers.
  From any pool of calls of \<open>createEntry\<close>, \<open>deleteEntry\<close> and \<open>openForReading\<close> there is no infinite sequence of steps
  (taking one mutex, running a section, giving one mutex back); a state in which no thread can take a
  step is one in which every call has returned and given back its locks; and then both mutexes are free.
\<close>

theorem file_calls_finish:
  assumes "\<forall>c \<in> set cs. started c"
  shows "wfP (\<lambda>s' s. (\<exists>ls. locked_run B R cs cf ls s) \<and> (\<exists>ls. lock_step B R s ls s')) \<and>
    (\<forall>ls ts mx cf'. locked_run B R cs cf ls (ts, mx, cf') \<longrightarrow>
       ((\<nexists>ks s'. lock_step B R (ts, mx, cf') ks s') \<longleftrightarrow> (\<forall>t \<in> set ts. finished t)) \<and>
       ((\<forall>t \<in> set ts. finished t) \<longrightarrow> mx = unlocked))"
proof (intro conjI allI impI)
  have "sum_list (map work (fst s')) < sum_list (map work (fst s))"
    if "locked_run B R cs cf ls s" "lock_step B R s ks s'" for ls ks s s'
  proof -
    obtain ts mx cf1 ts' mx' cf2 where s: "s = (ts, mx, cf1)" "s' = (ts', mx', cf2)" by (metis prod.exhaust)
    show ?thesis using lock_step_work [OF that(2) [unfolded s] locked_run_pool(2) [OF that(1) [unfolded s] assms]] by (simp add: s)
  qed
  then show "wfP (\<lambda>s' s. (\<exists>ls. locked_run B R cs cf ls s) \<and> (\<exists>ls. lock_step B R s ls s'))"
    by (intro wfp_if_convertible_to_nat [where f = "\<lambda>s. sum_list (map work (fst s))"]) blast
  fix ls ts mx cf'
  assume "locked_run B R cs cf ls (ts, mx, cf')"
  note inv = locked_run_pool(2) [OF this assms]
  show "mx = unlocked" if "\<forall>t \<in> set ts. finished t" by (rule all_finished_unlocked [OF inv that])
  have "\<exists>ks s'. lock_step B R (ts, mx, cf') ks s'" if "t \<in> set ts" "\<not> finished t" for t
    using some_thread_runs [OF inv] that by (metis in_set_conv_nth lock_stepI not_None_eq prod.exhaust)
  moreover have "\<exists>t \<in> set ts. \<not> finished t" if "lock_step B R (ts, mx, cf') ks s'" for ks s'
    using that
  proof cases
    case (lock_stepI i es t mx' cf2)
    have "\<not> finished (ts ! i)" using finished_none [of "ts ! i" B R mx cf'] lock_stepI(4) by (metis option.distinct(1))
    then show ?thesis using nth_mem [OF lock_stepI(3)] by blast
  qed
  ultimately show "(\<nexists>ks s'. lock_step B R (ts, mx, cf') ks s') \<longleftrightarrow> (\<forall>t \<in> set ts. finished t)" by blast
qed

text \<open>
  C9 (CatalogFile_Locks.catalog_file_linearizable): let any calls of \<open>createEntry\<close> (of pairwise different segments that are
  not in the file) and \<open>openForReading\<close>, and none of \<open>deleteEntry\<close>, run on a catalog file with their steps
  (taking a mutex, running a section, giving a mutex back) interleaved in any way.  At every moment
  the segments the file stores, with their bytes, are what results from adding whole segments one
  after the other, in the order in which the calls ran their exclusive section; each \<open>createEntry\<close> has
  added exactly its own segment, once, if it has passed that section, and nothing if it throws.
\<close>

theorem catalog_file_linearizable:
  assumes "file_contract B R V ok cont bytes used" and "ready ok cont used cs cf" and "\<forall>c \<in> set cs. \<not> deletes c"
    and "locked_run B R cs cf ls (ts, mx, cf')"
  shows "segment_view bytes cont cf' = fold (\<lambda>(i, e). apply_effect e) ls (segment_view bytes cont cf) \<and>
    (\<forall>i < length cs. call_trace R (cs ! i) (ft_call (ts ! i)) (effects_of i ls))"
proof -
  note run = locked_run_pool(1) [OF assms(4) ready_started [OF assms(2)]]
  from pool_run(3) [OF run assms(1) no_deletes [OF assms(3)] ready_inv [OF assms(2)]]
    pool_run_traces [OF run] ready_started [OF assms(2)] show ?thesis by auto
qed

text \<open>
  C11 (CatalogFile_Locks.catalog_file_regions): in the middle of any such interleaving of \<open>createEntry\<close> and \<open>openForReading\<close> calls (none of
  \<open>deleteEntry\<close>), the regions of the segments in the index and of the calls that have reserved one are in
  use in the allocator and pairwise disjoint: no call writes over a segment or over another call's
  bytes.
\<close>

theorem catalog_file_regions:
  assumes "file_contract B R V ok cont bytes used" and "ready ok cont used cs cf" and "\<forall>c \<in> set cs. \<not> deletes c"
    and "locked_run B R cs cf ls (ts, mx, cf')"
  shows "layout seg_region (cont (cf_segmentIndex cf')) (map (call_region \<circ> ft_call) ts) (used (cf_regions cf'))"
proof -
  note run = locked_run_pool(1) [OF assms(4) ready_started [OF assms(2)]]
  from inv_layout [OF pool_run(1) [OF run assms(1) no_deletes [OF assms(3)] ready_inv [OF assms(2)]]] show ?thesis by simp
qed

text \<open>
  C10 (CatalogFile_Locks.reader_sees_stable_file): a reader inside the callback of \<open>openForReading\<close> works on a stable file: whatever other
  calls of \<open>createEntry\<close> and \<open>openForReading\<close> do (none of \<open>deleteEntry\<close> being among the calls) from one moment it is inside
  to another, the segment index is the same, and every segment of the index beyond the first page
  reads the same bytes through \<open>openEntry\<close>.
\<close>

theorem reader_sees_stable_file:
  assumes "file_contract B R V ok cont bytes used" and "mmap_contract M V"
    and "ready ok cont used cs cf0" and "\<forall>c \<in> set cs. \<not> deletes c" and "locked_run B R cs cf0 ls0 (ts, mx, cf)"
    and "labelled_run (lock_step B R) (ts, mx, cf) ls (ts', mx', cf')"
    and "r < length ts" and "ft_call (ts ! r) = Read_inside" and "ft_call (ts' ! r) = Read_inside"
  shows "cf_segmentIndex cf' = cf_segmentIndex cf \<and>
    (\<forall>e \<in> cont (cf_segmentIndex cf). 4096 \<le> unat (sg_byteOffset e) \<and>
       unat (sg_byteOffset e) + unat (sg_byteLength e) < 2 ^ 64 \<longrightarrow>
       fst (mm_read M (unat (sg_byteLength e)) (openEntry M R (sg_byteOffset e) (sg_byteLength e) cf')) =
       fst (mm_read M (unat (sg_byteLength e)) (openEntry M R (sg_byteOffset e) (sg_byteLength e) cf)))"
proof -
  note run0 = locked_run_pool [OF assms(5) ready_started [OF assms(3)]]
  note run = lock_run(1) [OF assms(6) run0(2)]
  note before = pool_run(1,2) [OF run0(1) assms(1) no_deletes [OF assms(4)] ready_inv [OF assms(3)]]
  have "length ts' = length ts" using reader_run [OF run assms(1), of r] before assms(7,8) by simp
  then have same: "cf_segmentIndex cf' = cf_segmentIndex cf"
      "\<forall>e \<in> cont (cf_segmentIndex cf). stored (bytes (cf_fd cf')) e = stored (bytes (cf_fd cf)) e"
    using reader_run [OF run assms(1), of r] before assms(7-9) by simp_all
  then have "mem_load (bytes (cf_fd cf')) (unat (sg_byteOffset e)) (unat (sg_byteLength e)) =
      mem_load (bytes (cf_fd cf)) (unat (sg_byteOffset e)) (unat (sg_byteLength e))" if "e \<in> cont (cf_segmentIndex cf)" for e
    using that by (simp add: stored_def)
  with same(1) openEntry_bytes [OF assms(2) file_contractD(2) [OF assms(1)]] show ?thesis by simp
qed

subsection \<open>Witnesses\<close>

text \<open>The run in which a scheduler picks the given threads one after the other.\<close>

definition lock_next ::
  "('t, segment_btree_metadata_t) btree_ops \<Rightarrow> ('t, 'r, 'd, 'm) segfile_ops \<Rightarrow> nat \<Rightarrow>
   file_thread list \<times> (mutex \<Rightarrow> shared_mutex) \<times> ('t, 'r, 'd) CatalogFile \<Rightarrow>
   ((nat \<times> file_effect) list \<times> file_thread list \<times> (mutex \<Rightarrow> shared_mutex) \<times> ('t, 'r, 'd) CatalogFile) option" where
  "lock_next B R i s =
     (case s of (ts, mx, cf) \<Rightarrow>
        if i < length ts
        then (case thread_next B R (ts ! i) mx cf of
                None \<Rightarrow> None
              | Some (es, t, mx', cf') \<Rightarrow> Some (map (Pair i) es, ts[i := t], mx', cf'))
        else None)"

primrec run_locks where
  "run_locks B R [] s = Some ([], s)"
| "run_locks B R (i # is) s =
     (case lock_next B R i s of
        None \<Rightarrow> None
      | Some (ls, s1) \<Rightarrow>
          (case run_locks B R is s1 of None \<Rightarrow> None | Some (ls', s2) \<Rightarrow> Some (ls @ ls', s2)))"

lemma lock_next_step: "lock_next B R i s = Some (ls, s') \<Longrightarrow> lock_step B R s ls s'"
  by (cases s) (auto simp: lock_next_def intro: lock_stepI split: if_splits option.splits prod.splits)

lemma run_locks_run: "run_locks B R is s = Some (ls, s') \<Longrightarrow> labelled_run (lock_step B R) s ls s'"
proof (induction "is" arbitrary: s ls)
  case (Cons i "is")
  then obtain ks s1 ls1 where "lock_next B R i s = Some (ks, s1)" "run_locks B R is s1 = Some (ls1, s')" and ls: "ls = ks @ ls1"
    by (auto split: option.splits)
  then have "lock_step B R s ks s1" "labelled_run (lock_step B R) s1 ls1 s'" using Cons.IH lock_next_step by blast+
  then show ?case unfolding ls by (rule labelled_run_Cons)
qed (auto intro: labelled_refl)

lemmas lock_eval = pool_eval lock_next_def thread_next_def wanted_def start_threads_def unlocked_def

text \<open>A writer and a reader on a file with one segment.\<close>

abbreviation two_calls :: "file_call list" where
  "two_calls \<equiv> [Create_called sample_entry, Read_called]"

lemma two_calls_ready: "ready (one_per_key seg_compare) set set two_calls shared_cf" "\<forall>c \<in> set two_calls. \<not> deletes c"
  by (auto simp: ready_def one_per_key_def layout_def fresh_ids_def seg_region_def args_id_def seg_id_def
      less_Suc_eq nth_Cons' split: if_splits)

text \<open>
  The writer has written its bytes and waits for \<open>rwMutex\<close>, which the reader inside its callback
  holds; and both have returned.
\<close>

abbreviation reader_thread :: file_thread where
  "reader_thread \<equiv> \<lparr>ft_call = Read_inside, ft_held = [(RwMutex, Shared)], ft_leaving = False\<rparr>"

abbreviation entered_thread :: file_thread where
  "entered_thread \<equiv> \<lparr>ft_call = Create_entered sample_entry, ft_held = [], ft_leaving = False\<rparr>"

abbreviation waiting_thread :: file_thread where
  "waiting_thread \<equiv> \<lparr>ft_call = Create_written sample_entry 8194, ft_held = [], ft_leaving = False\<rparr>"

lemma sample_runs:
  obtains mx0 mx cf where
    "locked_run (list_btree seg_compare) list_segfile two_calls shared_cf []
       ([entered_thread, reader_thread], mx0, shared_cf\<lparr>cf_isSegmentBeingWritten := True\<rparr>)"
    "labelled_run (lock_step (list_btree seg_compare) list_segfile)
       ([entered_thread, reader_thread], mx0, shared_cf\<lparr>cf_isSegmentBeingWritten := True\<rparr>) []
       ([waiting_thread, reader_thread], mx, cf)"
proof -
  let ?B = "list_btree seg_compare" and ?cf = "shared_cf\<lparr>cf_isSegmentBeingWritten := True\<rparr>"
  let ?mx = "unlocked(RwMutex := \<lparr>sm_readers = 1, sm_writer = False\<rparr>)"
  have 1: "run_locks ?B list_segfile [0, 1, 1] (start_threads two_calls, unlocked, shared_cf) =
      Some ([], [entered_thread, reader_thread], ?mx, ?cf)"
    by (simp add: lock_eval fun_eq_iff)
  have "\<exists>mx cf. run_locks ?B list_segfile [0, 0, 0, 0, 0, 0] ([entered_thread, reader_thread], ?mx, ?cf) =
      Some ([], [waiting_thread, reader_thread], mx, cf)"
    by (simp add: lock_eval)
  then obtain mx cf where 2: "run_locks ?B list_segfile [0, 0, 0, 0, 0, 0] ([entered_thread, reader_thread], ?mx, ?cf) =
      Some ([], [waiting_thread, reader_thread], mx, cf)" by blast
  show thesis by (rule that [OF run_locks_run [OF 1] run_locks_run [OF 2]])
qed

lemma sample_finish:
  "\<exists>mx cf. run_locks (list_btree seg_compare) list_segfile [1, 1, 0, 0, 0, 1, 0, 0, 0, 1, 0, 0, 0, 0, 0, 0, 0]
     (start_threads two_calls, unlocked, shared_cf) =
     Some ([(0, Adds (created list_segfile sample_entry))],
       [\<lparr>ft_call = Returned (Inr ()), ft_held = [], ft_leaving = False\<rparr>,
        \<lparr>ft_call = Returned (Inr ()), ft_held = [], ft_leaving = False\<rparr>], mx, cf)"
  by (simp add: lock_eval)

theorem catalog_file_linearizable_witness:
  "\<exists>ls ts mx cf. locked_run (list_btree seg_compare) list_segfile two_calls shared_cf ls (ts, mx, cf) \<and>
     (\<forall>t \<in> set ts. finished t) \<and> segment_view (\<lambda>d. d) set cf =
     {\<lparr>st_id = (3, 7, 0), st_blockRangeEnd = 8, st_version = 1, st_checksum = 0, st_bytes = [1, 2]\<rparr>,
      stored (\<lambda>_. 0) (sample_segment 3 5 6)}"
proof -
  let ?ls = "[(0, Adds (created list_segfile sample_entry))]" and ?t = "\<lparr>ft_call = Returned (Inr ()), ft_held = [], ft_leaving = False\<rparr>"
  obtain mx cf where run: "locked_run (list_btree seg_compare) list_segfile two_calls shared_cf ?ls ([?t, ?t], mx, cf)"
    using sample_finish run_locks_run by blast
  have new: "created list_segfile sample_entry =
      \<lparr>st_id = (3, 7, 0), st_blockRangeEnd = 8, st_version = 1, st_checksum = 0, st_bytes = [1, 2]\<rparr>"
    by (simp add: created_def args_id_def written_bytes_def create_length_def list_segfile_def)
  from catalog_file_linearizable [OF list_segfile_contract two_calls_ready run]
  have "segment_view (\<lambda>d. d) set cf = {created list_segfile sample_entry, stored (\<lambda>_. 0) (sample_segment 3 5 6)}"
    by (simp add: segment_view_def)
  moreover have "\<forall>t \<in> set [?t, ?t]. finished t" by (simp add: finished_def)
  ultimately show ?thesis using run unfolding new [symmetric] by blast
qed

theorem catalog_file_regions_witness:
  "\<exists>mx cf. locked_run (list_btree seg_compare) list_segfile two_calls shared_cf [] ([waiting_thread, reader_thread], mx, cf) \<and>
     layout seg_region (set (cf_segmentIndex cf)) [{8194 ..< 8196}, {}] (set (cf_regions cf))"
proof -
  obtain mx0 mx cf where "locked_run (list_btree seg_compare) list_segfile two_calls shared_cf []
       ([entered_thread, reader_thread], mx0, shared_cf\<lparr>cf_isSegmentBeingWritten := True\<rparr>)"
    "labelled_run (lock_step (list_btree seg_compare) list_segfile)
       ([entered_thread, reader_thread], mx0, shared_cf\<lparr>cf_isSegmentBeingWritten := True\<rparr>) []
       ([waiting_thread, reader_thread], mx, cf)" by (rule sample_runs)
  from labelled_run_trans [OF this(2,1)] have run: "locked_run (list_btree seg_compare) list_segfile two_calls shared_cf []
      ([waiting_thread, reader_thread], mx, cf)" by simp
  from catalog_file_regions [OF list_segfile_contract two_calls_ready this]
  have "layout seg_region (set (cf_segmentIndex cf)) [{8194 ..< 8196}, {}] (set (cf_regions cf))"
    by (simp add: args_region_def create_length_def)
  with run show ?thesis by blast
qed

theorem reader_sees_stable_file_witness:
  "\<exists>mx cf. locked_run (list_btree seg_compare) list_segfile two_calls shared_cf [] ([waiting_thread, reader_thread], mx, cf) \<and>
     cf_segmentIndex cf = [sample_segment 3 5 6] \<and>
     fst (mm_read flat_mmap 2 (openEntry flat_mmap list_segfile 8192 2 cf)) =
     fst (mm_read flat_mmap 2 (openEntry flat_mmap list_segfile 8192 2 (shared_cf\<lparr>cf_isSegmentBeingWritten := True\<rparr>)))"
proof -
  obtain mx0 mx cf where enter: "locked_run (list_btree seg_compare) list_segfile two_calls shared_cf []
       ([entered_thread, reader_thread], mx0, shared_cf\<lparr>cf_isSegmentBeingWritten := True\<rparr>)"
    and run: "labelled_run (lock_step (list_btree seg_compare) list_segfile)
       ([entered_thread, reader_thread], mx0, shared_cf\<lparr>cf_isSegmentBeingWritten := True\<rparr>) []
       ([waiting_thread, reader_thread], mx, cf)" by (rule sample_runs)
  from reader_sees_stable_file [OF list_segfile_contract flat_mmap_contract two_calls_ready enter run, of 1]
  have "cf_segmentIndex cf = [sample_segment 3 5 6] \<and>
     fst (mm_read flat_mmap 2 (openEntry flat_mmap list_segfile 8192 2 cf)) =
     fst (mm_read flat_mmap 2 (openEntry flat_mmap list_segfile 8192 2 (shared_cf\<lparr>cf_isSegmentBeingWritten := True\<rparr>)))" by simp
  moreover have "locked_run (list_btree seg_compare) list_segfile two_calls shared_cf [] ([waiting_thread, reader_thread], mx, cf)"
    using labelled_run_trans [OF run enter] by simp
  ultimately show ?thesis by blast
qed


theorem file_calls_finish_witness:
  "\<exists>ks s'. lock_step (list_btree seg_compare) list_segfile (start_threads sample_calls, unlocked, shared_cf) ks s'"
proof -
  have start: "\<forall>c \<in> set sample_calls. started c" by simp
  have run: "locked_run (list_btree seg_compare) list_segfile sample_calls shared_cf [] (start_threads sample_calls, unlocked, shared_cf)"
    by (rule labelled_refl)
  note all = file_calls_finish [OF start, of "list_btree seg_compare" list_segfile shared_cf, THEN conjunct2]
  have "\<not> (\<forall>t \<in> set (start_threads sample_calls). finished t)" by (simp add: start_threads_def finished_def)
  with all [THEN spec, THEN spec, THEN spec, THEN spec, THEN mp, OF run, THEN conjunct1] show ?thesis by blast
qed

end
