(* ===== verification/Spec2Isabelle.thy ===== *)
theory Spec2Isabelle
  imports FrontendSpec FileNames TestLedger CatalogFile_Locks
begin

text \<open>
  libmagelesschain is a C++ library for a private block chain without mining: an application
  registers its transaction types, indexes and override families (a \<open>ChainDesign\<close>); a frontend
  collects transactions in a mempool, keeps a speculative state and has a thread that builds
  blocks; a backend decides whether a block may be committed, appends it to epoch files, keeps
  an index of block timestamps, and hands the state changes of the block as segments to a
  catalog that writes them in the background.  This development models the library under
  \<^verbatim>\<open>src/src\<close> component by component and proves what each component promises and how they
  work together.

  \<^bold>\<open>The theories and the code.\<close>

  \<^item> \<open>Prelude\<close>: the types (\<open>u64\<close> and so on, \<open>result\<close> for C++ exceptions, \<open>memory\<close> for file
    contents), little-endian integers, page arithmetic and list lemmas shared by all.
  \<^item> \<open>Ordered_Store\<close>: the B-tree of libexcessive as a parameter (\<open>btree_ops\<close>) with a contract
    (\<open>btree_contract\<close>), and the locales \<open>key_order\<close> and \<open>key_cursor\<close>: a compare and a successor
    function that fit together make every cursor loop (\<open>scan_loop\<close>) visit the elements in
    order and end.  The three record types stored in trees interpret them.
  \<^item> \<open>BlockTimestampTracker\<close>: \<^verbatim>\<open>storage/BlockTimestampTracker.{h,cpp}\<close>.
  \<^item> \<open>Transaction\<close>, \<open>TransactionTypeRegistry\<close>: \<^verbatim>\<open>blockchain/Transaction.h\<close> (the virtual functions as
    the record \<open>tx_ops\<close>, the serialization rules as \<open>tx_codec\<close>), \<^verbatim>\<open>TransactionTypeRegistry.{h,cpp}\<close>.
  \<^item> \<open>EpochFile\<close>, \<open>Journal\<close>, \<open>EpochFaults\<close>: \<^verbatim>\<open>storage/EpochFile.{h,cpp}\<close> byte by byte on a mapped file,
    with the locale \<open>block_journal\<close> for one file, the chain spread over files, and the limits of
    the file: its capacity, skipped block numbers, reads inside an append.
  \<^item> \<open>Registration\<close>, \<open>StateOverrideRegistry\<close>, \<open>StateOverride\<close>, \<open>BackendRegistry\<close>: the two registries
    (interpretations of the locale \<open>slot_registry\<close>), state overrides and their copies, indexes.
  \<^item> \<open>MEVBuilder\<close>: \<^verbatim>\<open>blockchain/MEVBuilder.{h,cpp}\<close>, the greedy block builder with its sorting and
    removal of the selected positions.
  \<^item> \<open>CatalogFile\<close>, \<open>Catalog\<close>: \<^verbatim>\<open>storage/CatalogFile.{h,cpp}\<close> and \<^verbatim>\<open>storage/Catalog.{h,cpp}\<close>.  A background
    write is a task in the state (\<open>Queued\<close>, \<open>Written\<close>, \<open>Catalogued\<close>); \<open>task_step\<close> and \<open>cat_step\<close>
    let the tasks and the calls of clients interleave in any order.
  \<^item> \<open>CatalogFile_Threads\<close>, over \<open>Region_Layout\<close>: the locked sections of \<open>createEntry\<close>, \<open>deleteEntry\<close> and
    \<open>openForReading\<close> as steps of a pool of calls (\<open>call_step\<close>, \<open>pool_step\<close>), a set of stored segments
    as their specification, and the ownership of the regions of the file.
  \<^item> \<open>CatalogFile_Locks\<close>: \<open>rwMutex\<close> and \<open>appendMutex\<close> as state.  A thread takes the mutexes of a section
    (\<open>locks_of\<close>) one at a time, runs the section and gives them back (\<open>thread_next\<close>, \<open>lock_step\<close>); mutual
    exclusion, the refinement to \<open>pool_step\<close> and freedom from deadlock are proved from that.
  \<^item> \<open>CustomizableFileCache\<close>, \<open>FileNames\<close>: \<^verbatim>\<open>storage/CustomizableFileCache.h\<close> and the file names of
    the two stores.
  \<^item> \<open>BlockchainBackend\<close>, \<open>Backend_Commit\<close>, \<open>Backend_Read\<close>: \<^verbatim>\<open>blockchain/BlockchainBackend.{h,cpp}\<close>,
    \<^verbatim>\<open>BlockchainConfig.h\<close>, \<^verbatim>\<open>ChainDesign.h\<close>; the commit path, the read path, and the locale \<open>chain_store\<close>
    that the frontend relies on, with its interpretation on \<open>backend_step\<close> and \<open>getBlock\<close>.  A step
    shows the call of \<open>addBlock\<close> it made (\<open>attempt\<close>).
  \<^item> \<open>Backend_Crash\<close>: the destructor and the constructor on existing files, and what a restarted
    backend finds when the process ended between two of the steps of \<open>addBlock\<close> (\<open>commit_height\<close>,
    \<open>commit_journal\<close>, \<open>commit_timestamp\<close>, \<open>commit_segments\<close>).
  \<^item> \<open>BlockchainFrontend\<close>: \<^verbatim>\<open>blockchain/BlockchainFrontend.{h,cpp}\<close>.  \<open>fe_step\<close> is one atomic action of a
    client or of the builder thread, whose place in its loop is part of the state; it shows what was
    submitted and which calls of \<open>addBlock\<close> were made (\<open>fe_event\<close>).
  \<^item> \<open>FrontendSpec\<close>: an abstract specification of frontend and backend together (\<open>spec_step\<close>: a pool, a
    block being built, a chain, a process that may die), and its interpretation of the locale
    \<open>labelled_simulation\<close> of \<open>Labelled_Runs\<close> on the steps of a frontend whose commits have room; the calls on a
    catalog file interpret the locale twice, threads with locks over sections and sections over a set of
    segments.
  \<^item> \<open>TestChainDesign\<close>, \<open>TestLedger\<close>: \<^verbatim>\<open>testutil/TestChainDesign.{h,cpp}\<close>, the application the test
    suite runs, as an instance of the parameters, and the path from a committed block through
    the catalog back to a query.

  \<^bold>\<open>What is shown.\<close>  Of each store, that reading gives back what was written: blocks in epoch
  files, segments in catalog files, transactions through the registry, the mempool across a
  restart.  Of the scans, that they end and return exactly the entries asked for.  Of the
  catalog, under every interleaving: each segment is covered by the table of contents or by a
  task that will cover it, and once the tasks have run no query misses it.  Of a catalog file
  shared by threads: its sections exclude each other and its locks cannot block the callers; without
  \<open>deleteEntry\<close>, its calls take effect one after the other on a set of segments, regions never overlap,
  and readers see a stable file.  Of the backend:
  \<open>addBlock\<close> refines appending to a list of blocks (\<open>chain_holds\<close>), which blocks it refuses,
  that a block it accepts is committed with exactly its segments queued, and that committed
  blocks never change as long as every commit has room.  Of the builder: it partitions the mempool and its picks are greedy.  Of
  the frontend, over all runs: no transaction is lost or duplicated between mempool, builder and
  accepted blocks; when every commit has room, the chain holds exactly these blocks and the run is a
  run of the abstract specification; and the speculative state is the
  committed state with the mempool applied.  Of the cache: one object per file while it is used.
  Of a clean restart: chain, mempool and speculative state are restored.  Of the test chain: the
  sums it reports are the sums of all committed transactions when each write runs before the
  next commit.  A last group of theorems shows where the code falls short: the process ending
  inside or shortly after \<open>addBlock\<close>, a read during an append, a mempool file that is stale or could
  not be written, a window query interrupted by a commit, a full epoch mapping, a writer flag that
  is cleared too early, a region that is never given back.

  \<^bold>\<open>Parameters.\<close>  libexcessive is a submodule whose sources are not here.  Its B-trees, mapped
  files, free-space regions, hash maps, 256-bit integers and file opening are records of
  operations passed to the definitions, and the theorems assume the behaviour their names, comments
  and uses in the repository describe (\<open>btree_contract\<close>, \<open>region_contract\<close>, \<open>pwrite_local\<close>, \<open>mmap_contract\<close>,
  \<open>remap_contract\<close>, \<open>fs_contract\<close>, \<open>segfile_contract\<close>, \<open>u256_contract\<close>, \<open>hashmap_contract\<close>).  Two more
  assumptions are documented nowhere.  \<open>regions_behind_header\<close> says that \<open>FreeSpaceFile\<close> never hands out a
  region in the first page of a file; the results on the sums of the test chain need it, because
  \<open>openEntry\<close> reads the start of the file for such a region.  \<open>remove_contract\<close> says that \<open>BTree::remove\<close>
  removes the entry, which the comment of \<^verbatim>\<open>Catalog.h\<close> contradicts (it handles leaf nodes only); it is
  used in auxiliary lemmas on \<open>deleteEntry\<close> and in no property: the properties of a shared catalog file
  that depend on the content of the tree are about calls other than \<open>deleteEntry\<close>.  Every
  contract has an instance, and each theorem with a hypothesis is applied to it once
  (theorems ending in \<open>_witness\<close>).  The application is a parameter too, with an instance in the
  repository.  Clock readings are arguments.

  \<^bold>\<open>Numbers, loops, errors.\<close>  Integers are words of their C++ width and wrap; \<open>float\<close> scores are
  reals, infinities or NaN.  Loops over a list or a range are recursions.  A cursor loop that
  need not end is a partial function into \<open>option\<close> (\<open>scan_loop\<close>), \<open>None\<close> meaning that it runs
  forever; results about such loops state that they return.  There is no fuel.  An
  exception, a null pointer access or a division by zero is a value of the type \<open>err\<close>.

  \<^bold>\<open>Room.\<close>  \<open>addBlock\<close> does not check that its epoch file opens and has room before it advances the
  height.  The runs (\<open>backend_step\<close>, \<open>fe_step\<close>) contain every call, with room or not; a theorem that needs
  room says so of the calls the run shows (\<open>roomy\<close>, \<open>all_roomy\<close>: the call left the backend as it was, or
  \<open>has_room\<close> held before it: the epoch file opens, the block fits behind the blocks of the file, the
  height is below 2^48 and the clock not at its maximal value).

  \<^bold>\<open>Atomicity.\<close>  What the code does under its locks is one step.  A background task of the catalog
  runs \<open>createEntry\<close> in one step; \<open>CatalogFile_Threads\<close> takes that step apart and shows that concurrent
  calls have the effect of such steps, and \<open>CatalogFile_Locks\<close> shows that the mutexes make the sections
  exclude each other.  A mutex is granted whenever it is free for the mode asked for.  The steps of the
  frontend's builder thread are the sections between its lock releases; the background tasks of the
  catalog run their two halves separately.  The backend has no lock of its own: in the runs its
  operations follow one another, the two halves of a window query may be separated by other steps, and
  \<open>EpochFaults\<close> shows that a read inside an append breaks the block, so that callers have to keep them
  apart.

  \<^bold>\<open>Simplifications.\<close>  A state override is a value: the handles \<open>sp\<close> of its families, which copies may
  share after a detach, are not modelled, so the results on copies are about the values at the moment of
  the copy.  An epoch file that has been opened stays mapped for the whole run: its eviction from the cache
  and a second mapping during a run are not modelled (\<open>FileNames\<close> shows that a file in use keeps its
  object; \<open>reopen_backend\<close> maps all files anew).  The square root in the score of a candidate file is the integer
  root (\<open>isqrt\<close>); the score only orders the candidates.

  \<^bold>\<open>Not modelled.\<close>  \<open>mkdir\<close>, \<open>msync\<close>, log output and the thread pool itself (only the order of its
  tasks); the address used as a type key; segment compaction, which the comments describe and
  no code of the library does; the test runner and the tests.
\<close>

subsection \<open>From submission to retrieval\<close>

lemma addBlock_committed_size:
  assumes "addBlock A N clock millis txs b = Some (Inr k, b')" and "k \<noteq> - 1"
  shows "length txs \<le> 1024"
  using assms
  by (auto simp: addBlock_def Let_def MAX_TX_PER_BLOCK_def gate_rejects_def split: if_splits)

text \<open>
  C7 (Spec2Isabelle.committed_transaction_by_id): when a builder round commits the block it has built, and the
  block had room (its epoch file opens, it fits into the mapping, the clock is not at its maximal
  value), every transaction of the block can be retrieved afterwards under the id made of the block's
  position in the chain (below 2^44) and the transaction's position in the block.
\<close>

theorem committed_transaction_by_id:
  assumes chain: "fe_chain A N V enc okT cont fe bs" and room: "has_room N V enc millis txs (fe_backend fe)"
    and run: "builder_commit A N clock millis txs fe = Some fe'" and committed: "fe_builder fe' = Committed"
    and i: "i < length txs" and small: "length bs < 2 ^ 44"
  shows "fst (getTransactionById N (word_of_nat (length bs * 2 ^ 20 + i)) fe') = Inr (Some (txs ! i))"
proof -
  note C = chain [unfolded fe_chain_def]
  obtain k b where add: "addBlock A N clock millis txs (fe_backend fe) = Some (Inr k, b)" "k \<noteq> - 1" "fe_backend fe' = b"
    using run committed by (auto simp: builder_commit_def split: option.splits sum.splits if_splits)
  have "millis \<noteq> - 1" using room by (simp add: has_room_def)
  with addBlock_with_room [OF _ _ room add(1), of okT cont bs] C add(2,3)
  have chain': "fe_chain A N V enc okT cont fe' (bs @ [(millis, txs)])" by (auto simp: fe_chain_def)
  have "i < 2 ^ 20" using addBlock_committed_size [OF add(1,2)] i by simp
  moreover have "unat (word_of_nat (length bs * 2 ^ 20 + i) :: u64) = length bs * 2 ^ 20 + i"
    using small \<open>i < 2 ^ 20\<close> by (simp add: unat_of_nat del: of_nat_add of_nat_mult)
  ultimately show ?thesis
    using getTransactionById_chain [OF chain', of "word_of_nat (length bs * 2 ^ 20 + i)" "length bs" i] i by simp
qed

text \<open>What the constructor of a frontend makes of a saved mempool.\<close>

lemma frontend_from_file:
  assumes C: "backend_contract A N (bk_txTypes b) V enc okT cont" and F: "fs_contract fs V" "fs_works fs"
    and len: "length txs < 2 ^ 32" and save: "saveMempool (be_mmap N) (ap_tx A c) fs txs = Some m"
    and s: "newStateOverride A b = Inr s"
  shows "new_BlockchainFrontend A (be_mmap N) fs (Some m) b config =
    Inr \<lparr>fe_backend = b, fe_config = config, fe_state = apply_all (ap_tx A (bk_catalog b)) txs s, fe_mempool = txs,
         fe_running = True, fe_builder = Idle\<rparr>"
proof -
  have M: "mmap_contract (be_mmap N) V" and T: "tx_codec (ap_tx A c) (factories (bk_txTypes b)) V enc"
    using C by (auto simp: backend_contract_def)
  from save_then_load [OF M T F len, of "ap_tx A (bk_catalog b)" s "[]"] save s show ?thesis
    by (simp add: new_BlockchainFrontend_def)
qed

text \<open>
  C25 (Spec2Isabelle.restart_restores_frontend): closing a frontend whose builder thread has ended and then its
  backend, and opening both again on the same files with the same chain design, gives a
  frontend with the same pending transactions in the same order, on a backend that holds the
  same chain; its speculative state is a fresh override on that chain with all pending
  transactions applied.
\<close>

theorem restart_restores_frontend:
  assumes chain: "fe_chain A N V enc okT cont fe bs" and ended: "fe_builder fe = Ended"
    and F: "fs_contract fs V" "fs_works fs" and len: "length (fe_mempool fe) < 2 ^ 32"
    and close: "destroy_backend N (fe_backend fe) b1" and remap: "remap_contract V remap"
    and types: "cd_registerTransactionTypes design new_TransactionTypeRegistry = bk_txTypes (fe_backend fe)"
    and b2: "b2 = reopen_backend (be_mmap N) design remap b1" and s: "newStateOverride A b2 = Inr s"
  shows "\<exists>m fe'. destroy_frontend A (be_mmap N) fs fe = Some (Some m) \<and>
    new_BlockchainFrontend A (be_mmap N) fs (Some m) b2 config = Inr fe' \<and>
    fe_mempool fe' = fe_mempool fe \<and> pending fe' = pending fe \<and> fe_chain A N V enc okT cont fe' bs \<and>
    fe_state fe' = apply_all (fe_tx A fe') (fe_mempool fe) s"
proof -
  note C = chain [unfolded fe_chain_def]
  obtain cat where b1: "b1 = (fe_backend fe)\<lparr>bk_catalog := cat\<rparr>" using close by (auto elim: destroy_backendE)
  have "chain_holds V enc okT cont b1 bs" using C by (simp add: b1 chain_holds_def)
  from chain_holds_reopen [OF this remap] have holds: "chain_holds V enc okT cont b2 bs" by (simp add: b2)
  have C2: "backend_contract A N (bk_txTypes b2) V enc okT cont" using C by (simp add: b2 reopen_fields types)
  have M: "mmap_contract (be_mmap N) V" and T: "tx_codec (fe_tx A fe) (factories (bk_txTypes b2)) V enc"
    using C2 by (auto simp: backend_contract_def fe_tx_def)
  obtain m where m: "saveMempool (be_mmap N) (fe_tx A fe) fs (fe_mempool fe) = Some m"
    using save_then_load [OF M T F len, of "fe_tx A fe" "fe_state fe" "[]"] by blast
  from frontend_from_file [OF C2 F len m [unfolded fe_tx_def] s, of config] m ended holds C2 C show ?thesis
    by (auto simp: destroy_frontend_def fe_chain_def pending_def fe_tx_def)
qed

text \<open>
  C30 (Spec2Isabelle.stale_mempool_replayed): the mempool file is written by the destructor only and is not removed
  when it has been loaded.  When a frontend started from it, all its transactions were committed in
  blocks that had room (the epoch file opens and the block fits into its mapping), nothing else was
  submitted, and the process then ends without running the destructor, the next start finds the same
  file: every transaction of the file is on the chain and pending again.
\<close>

theorem stale_mempool_replayed:
  assumes saved: "saveMempool (be_mmap N) (ap_tx A c) fs txs = Some m" and len: "length txs < 2 ^ 32"
    and F: "fs_contract fs V" "fs_works fs" and remap: "remap_contract V remap"
    and start: "new_BlockchainFrontend A (be_mmap N) fs (Some m) b config = Inr fe" and s: "newStateOverride A b = Inr s"
    and chain: "fe_chain A N V enc okT cont fe bs"
    and run: "fe_run A N fe es fe'" "all_roomy N V enc es" "sent es = []"
    and committed: "pending fe' = {#}" "fe_builder fe' \<noteq> Crashed"
    and types: "cd_registerTransactionTypes design new_TransactionTypeRegistry = bk_txTypes (fe_backend fe')"
    and b2: "b2 = reopen_backend (be_mmap N) design remap (fe_backend fe')" and s2: "newStateOverride A b2 = Inr s2"
  shows "\<exists>ext fe2. new_BlockchainFrontend A (be_mmap N) fs (Some m) b2 config = Inr fe2 \<and>
    fe_chain A N V enc okT cont fe2 (bs @ ext) \<and> block_txs ext = mset txs \<and> fe_mempool fe2 = txs"
proof -
  have b: "fe_backend fe = b" using start s
    by (auto simp: new_BlockchainFrontend_def bind_result_Inr)
  have "backend_contract A N (bk_txTypes b) V enc okT cont" using chain by (simp add: fe_chain_def b)
  from frontend_from_file [OF this F len saved s, of config] start have fe: "pending fe = mset txs"
    by (auto simp: pending_def)
  from fe_run_pending [OF run(1)] fe_run_chain [OF run(1) chain run(2)] committed fe run(3) obtain ext
    where ext: "fe_chain A N V enc okT cont fe' (bs @ ext)" "block_txs ext = mset txs" by auto
  note C = ext(1) [unfolded fe_chain_def]
  have C2: "backend_contract A N (bk_txTypes b2) V enc okT cont" using C by (simp add: b2 reopen_fields types)
  have "chain_holds V enc okT cont b2 (bs @ ext)"
    using chain_holds_reopen [OF _ remap, of enc okT cont "fe_backend fe'" "bs @ ext" "be_mmap N" design] C by (simp add: b2)
  with frontend_from_file [OF C2 F len saved s2, of config] C C2 ext(2) show ?thesis
    by (auto simp: fe_chain_def)
qed

subsection \<open>Witnesses\<close>

theorem committed_transaction_by_id_witness:
  "fst (getTransactionById sample_benv 1 ((sample_fe [])\<lparr>fe_backend := sample_committed, fe_builder := Committed\<rparr>)) =
     Inr (Some 9)"
proof -
  have "builder_commit sample_app sample_benv (\<lambda>_. (7, 7)) 1000000 [7, 9] (sample_fe []) =
      Some ((sample_fe [])\<lparr>fe_backend := sample_committed, fe_builder := Committed\<rparr>)"
    using sample_committed_chain(1) by (simp add: builder_commit_def sample_fe_def)
  moreover have "has_room sample_benv flat_view sample_enc 1000000 [7, 9] (fe_backend (sample_fe []))"
    using sample_room by (simp add: sample_fe_def)
  ultimately show ?thesis
    using committed_transaction_by_id [OF sample_fe_chain, of 1000000 "[7, 9]" "[]" _ _ 1] by simp
qed

theorem restart_restores_frontend_witness:
  "\<exists>b1 m fe'. destroy_backend sample_benv sample_backend b1 \<and>
     destroy_frontend sample_app flat_mmap (flat_fs True) ((sample_fe [7, 9])\<lparr>fe_builder := Ended\<rparr>) = Some (Some m) \<and>
     new_BlockchainFrontend sample_app flat_mmap (flat_fs True) (Some m) (reopen_backend (be_mmap sample_benv) sample_design id b1) default_config = Inr fe' \<and>
     fe_mempool fe' = [7, 9] \<and> fe_state fe' = sample_state 16"
proof -
  let ?fe = "(sample_fe [7, 9])\<lparr>fe_builder := Ended\<rparr>"
  obtain cat where "(task_step (be_catalog sample_benv))\<^sup>*\<^sup>* (bk_catalog sample_backend) cat" "ct_tasks cat = []"
    using drain_all by blast
  then have d: "destroy_backend sample_benv sample_backend (sample_backend\<lparr>bk_catalog := cat\<rparr>)" by (rule drained)
  have s: "newStateOverride sample_app (reopen_backend (be_mmap sample_benv) sample_design id (sample_backend\<lparr>bk_catalog := cat\<rparr>)) = Inr (sample_state 0)"
    using sample_override
    by (simp add: newStateOverride_def reopen_backend_def sample_backend_def new_BlockchainBackend_def Let_def)
  have app: "apply_all counter_tx [7, 9] (sample_state 0) = sample_state 16"
    by (simp add: counter_tx_def sample_state_facts)
  have C: "fe_chain sample_app sample_benv flat_view sample_enc (one_per_key ts_compare) set ?fe []"
    using sample_fe_chain [of "[7, 9]"] by (simp add: fe_chain_def)
  have mp: "fe_mempool ?fe = [7, 9]" "fe_backend ?fe = sample_backend" "fe_builder ?fe = Ended" by (simp_all add: sample_fe_def)
  have d': "destroy_backend sample_benv (fe_backend ?fe) (sample_backend\<lparr>bk_catalog := cat\<rparr>)" using d by (simp add: mp)
  have N: "be_mmap sample_benv = flat_mmap" by (simp add: sample_benv_def)
  from restart_restores_frontend [OF C mp(3) flat_fs_laws _ d' id_remap _ refl s, of default_config]
  have "\<exists>m fe'. destroy_frontend sample_app flat_mmap (flat_fs True) ?fe = Some (Some m) \<and>
     new_BlockchainFrontend sample_app flat_mmap (flat_fs True) (Some m)
       (reopen_backend (be_mmap sample_benv) sample_design id (sample_backend\<lparr>bk_catalog := cat\<rparr>)) default_config = Inr fe' \<and>
     fe_mempool fe' = [7, 9] \<and> fe_state fe' = sample_state 16"
    unfolding mp N sample_fe_tx app sample_types sample_backend_fields by auto
  with d show ?thesis by blast
qed

theorem stale_mempool_replayed_witness:
  "\<exists>m fe es fe' fe2. saveMempool flat_mmap counter_tx (flat_fs True) [7] = Some m \<and>
     new_BlockchainFrontend sample_app flat_mmap (flat_fs True) (Some m) sample_backend default_config = Inr fe \<and>
     fe_run sample_app sample_benv fe es fe' \<and>
     new_BlockchainFrontend sample_app flat_mmap (flat_fs True) (Some m)
       (reopen_backend (be_mmap sample_benv) sample_design id (fe_backend fe')) default_config = Inr fe2 \<and>
     (\<exists>xs. fe_chain sample_app sample_benv flat_view sample_enc (one_per_key ts_compare) set fe2 xs \<and> block_txs xs = {#7#}) \<and>
     fe_mempool fe2 = [7]"
proof -
  have N: "be_mmap sample_benv = flat_mmap" by (simp add: sample_benv_def)
  let ?fe = "(sample_fe [7])\<lparr>fe_state := sample_state 7\<rparr>"
  have C: "backend_contract sample_app sample_benv (bk_txTypes sample_backend) flat_view sample_enc (one_per_key ts_compare) set"
    using sample_backend_contract by (simp add: sample_backend_fields)
  have T: "tx_codec counter_tx (factories byte_types) flat_view sample_enc"
    using sample_backend_contract by (simp add: backend_contract_def sample_app_laws)
  obtain m where m: "saveMempool flat_mmap counter_tx (flat_fs True) [7] = Some m"
    using save_then_load [OF flat_mmap_contract T flat_fs_laws, of "[7]" counter_tx "sample_state 0" "[]"] by auto
  then have m': "saveMempool (be_mmap sample_benv) (ap_tx sample_app c) (flat_fs True) [7] = Some m" for c
    by (simp add: N sample_app_laws)
  have "snd (tx_apply counter_tx 7 (sample_state 0)) = sample_state 7" by (simp add: counter_tx_def sample_state_facts)
  then have start: "new_BlockchainFrontend sample_app (be_mmap sample_benv) (flat_fs True) (Some m) sample_backend default_config = Inr ?fe"
    using frontend_from_file [OF C flat_fs_laws _ m' sample_override, of default_config] by (simp add: sample_fe_def sample_app_laws)
  from sample_commit_run [of "sample_state 7"] obtain b es
    where run: "fe_run sample_app sample_benv ?fe es ((sample_fe [])\<lparr>fe_backend := b, fe_state := sample_state 7, fe_builder := Committed\<rparr>)"
      (is "fe_run _ _ _ _ ?fe'") and es: "all_roomy sample_benv flat_view sample_enc es" "sent es = []"
      and b: "bk_txTypes b = byte_types" "bk_dataDir b = ''d''" by metis
  have s2: "newStateOverride sample_app (reopen_backend (be_mmap sample_benv) sample_design id (fe_backend ?fe')) = Inr (sample_state 0)"
    using sample_override b(2)
    by (simp add: newStateOverride_def reopen_backend_def sample_backend_def new_BlockchainBackend_def Let_def)
  have chain: "fe_chain sample_app sample_benv flat_view sample_enc (one_per_key ts_compare) set ?fe []"
    using sample_fe_chain [of "[7]"] by (simp add: fe_chain_def)
  have empty: "pending ?fe' = {#}" by (simp add: pending_def sample_fe_def)
  from stale_mempool_replayed [OF m' _ flat_fs_laws id_remap start sample_override chain run es empty _ _ refl s2]
  obtain ext fe2 where r: "new_BlockchainFrontend sample_app (be_mmap sample_benv) (flat_fs True) (Some m)
      (reopen_backend (be_mmap sample_benv) sample_design id (fe_backend ?fe')) default_config = Inr fe2"
    "fe_chain sample_app sample_benv flat_view sample_enc (one_per_key ts_compare) set fe2 ext"
    "block_txs ext = {#7#}" "fe_mempool fe2 = [7]" by (auto simp: sample_types b(1))
  then have "\<exists>xs. fe_chain sample_app sample_benv flat_view sample_enc (one_per_key ts_compare) set fe2 xs \<and> block_txs xs = {#7#}"
    by blast
  with m start [unfolded N] run r(1) [unfolded N] r(4) show ?thesis unfolding N by blast
qed

end
